(* ===== verification/Prelude.thy ===== *)
theory Prelude
  imports Main "HOL-Library.Sublist" "HOL-Library.Char_ord" "HOL-Library.List_Lexorder" "HOL-Library.Word"
begin

section \<open>Shared vocabulary: byte strings, numbers and ordered slices\<close>

text \<open>
  This theory holds what every component uses of the Rust standard library, and the lemmas the
  component proofs rest on. A \<^verbatim>\<open>&str\<close> or \<^verbatim>\<open>String\<close> is its sequence of UTF-8 bytes, a
  \<^typ>\<open>string\<close>: every \<^verbatim>\<open>*_ascii_*\<close> operation of the sources works on bytes. The Unicode
  operations \<^verbatim>\<open>to_lowercase\<close>, \<^verbatim>\<open>to_uppercase\<close> and \<^verbatim>\<open>trim\<close> are modelled on the ASCII range;
  bytes above 127 are left as they are, so statements that depend on those operations speak of
  ASCII text (hostnames, rule lines).
\<close>

named_theorems str_simps "equations on byte strings"
named_theorems scan_simps "first-match scans"

type_synonym bytes = "8 word list"

subsection \<open>Bytes and case folding\<close>

definition is_ascii :: "string \<Rightarrow> bool" where
  "is_ascii s \<longleftrightarrow> list_all (\<lambda>c. (of_char c :: nat) < 128) s"

definition upper_char :: "char \<Rightarrow> bool" where
  "upper_char c \<longleftrightarrow> 65 \<le> (of_char c :: nat) \<and> (of_char c :: nat) \<le> 90"

definition lower_letter :: "char \<Rightarrow> bool" where
  "lower_letter c \<longleftrightarrow> 97 \<le> (of_char c :: nat) \<and> (of_char c :: nat) \<le> 122"

definition lower_char :: "char \<Rightarrow> char" where
  "lower_char c = (if upper_char c then char_of ((of_char c :: nat) + 32) else c)"

definition to_upper_char :: "char \<Rightarrow> char" where
  "to_upper_char c = (if lower_letter c then char_of ((of_char c :: nat) - 32) else c)"

definition to_ascii_lowercase :: "string \<Rightarrow> string" where
  "to_ascii_lowercase s = map lower_char s"

definition to_ascii_uppercase :: "string \<Rightarrow> string" where
  "to_ascii_uppercase s = map to_upper_char s"

definition eq_ignore_ascii_case :: "string \<Rightarrow> string \<Rightarrow> bool" where
  "eq_ignore_ascii_case a b \<longleftrightarrow> to_ascii_lowercase a = to_ascii_lowercase b"

definition is_lower :: "string \<Rightarrow> bool" where
  "is_lower s \<longleftrightarrow> \<not> list_ex upper_char s"

lemma of_char_lower_char:
  "(of_char (lower_char c) :: nat) = (if upper_char c then of_char c + 32 else of_char c)"
  by (auto simp: lower_char_def upper_char_def of_char_of)

lemma not_upper_lower_char [simp]: "\<not> upper_char (lower_char c)"
  unfolding upper_char_def of_char_lower_char by (auto simp: upper_char_def)

lemma lower_char_idem [simp]: "lower_char (lower_char c) = lower_char c"
  by (simp add: lower_char_def [of "lower_char c"])

lemma lower_char_fixed: "\<not> upper_char c \<Longrightarrow> lower_char c = c"
  by (simp add: lower_char_def)

lemma lower_char_eq_nonletter:
  assumes "\<not> upper_char d" and "\<not> lower_letter d"
  shows "lower_char c = d \<longleftrightarrow> c = d"
proof
  assume eq: "lower_char c = d"
  show "c = d"
  proof (cases "upper_char c")
    case True
    with eq have "(of_char d :: nat) = of_char c + 32"
      using of_char_lower_char [of c] by simp
    with True have "lower_letter d"
      by (simp add: upper_char_def lower_letter_def)
    with assms show ?thesis by simp
  next
    case False
    with eq show ?thesis by (simp add: lower_char_def)
  qed
next
  assume "c = d"
  with assms show "lower_char c = d" by (simp add: lower_char_def)
qed

lemma lower_char_punct [simp]:
  "lower_char c = CHR ''.'' \<longleftrightarrow> c = CHR ''.''"
  "lower_char c = CHR ''*'' \<longleftrightarrow> c = CHR ''*''"
  "lower_char c = CHR ''+'' \<longleftrightarrow> c = CHR ''+''"
  by (rule lower_char_eq_nonletter; simp add: upper_char_def lower_letter_def)+

lemma lower_char_dot_star [simp]:
  "lower_char (CHR ''.'') = CHR ''.''" "lower_char (CHR ''*'') = CHR ''*''"
  "lower_char (CHR ''+'') = CHR ''+''"
  by simp_all

lemma length_lower [simp]: "length (to_ascii_lowercase s) = length s"
  by (simp add: to_ascii_lowercase_def)

lemma lower_Nil [simp]: "to_ascii_lowercase [] = []"
  by (simp add: to_ascii_lowercase_def)

lemma lower_Cons [simp]: "to_ascii_lowercase (c # s) = lower_char c # to_ascii_lowercase s"
  by (simp add: to_ascii_lowercase_def)

lemma lower_append [simp]:
  "to_ascii_lowercase (a @ b) = to_ascii_lowercase a @ to_ascii_lowercase b"
  by (simp add: to_ascii_lowercase_def)

lemma lower_eq_Nil [simp]: "to_ascii_lowercase s = [] \<longleftrightarrow> s = []"
  by (simp add: to_ascii_lowercase_def)

lemma lower_idem [simp]:
  "to_ascii_lowercase (to_ascii_lowercase s) = to_ascii_lowercase s"
  by (simp add: to_ascii_lowercase_def)

lemma lower_take: "to_ascii_lowercase (take n s) = take n (to_ascii_lowercase s)"
  by (simp add: to_ascii_lowercase_def take_map)

lemma lower_drop: "to_ascii_lowercase (drop n s) = drop n (to_ascii_lowercase s)"
  by (simp add: to_ascii_lowercase_def drop_map)

lemma is_lower_fixed: "is_lower s \<Longrightarrow> to_ascii_lowercase s = s"
  by (induction s) (auto simp: is_lower_def lower_char_fixed)

lemma is_lower_lower [simp]: "is_lower (to_ascii_lowercase s)"
  by (induction s) (auto simp: is_lower_def)

lemma is_lower_append [simp]: "is_lower (a @ b) \<longleftrightarrow> is_lower a \<and> is_lower b"
  by (auto simp: is_lower_def)

lemma dot_in_lower [simp]: "CHR ''.'' \<in> set (to_ascii_lowercase s) \<longleftrightarrow> CHR ''.'' \<in> set s"
  by (induction s) (auto dest: sym)

lemma star_in_lower [simp]: "CHR ''*'' \<in> set (to_ascii_lowercase s) \<longleftrightarrow> CHR ''*'' \<in> set s"
  by (induction s) (auto dest: sym)

lemma is_ascii_simps [simp]:
  "is_ascii []" "is_ascii (c # s) \<longleftrightarrow> (of_char c :: nat) < 128 \<and> is_ascii s"
  "is_ascii (a @ b) \<longleftrightarrow> is_ascii a \<and> is_ascii b"
  by (auto simp: is_ascii_def)

subsection \<open>Trimming\<close>

definition is_ws :: "char \<Rightarrow> bool" where
  "is_ws c \<longleftrightarrow> (of_char c :: nat) = 32 \<or> (9 \<le> (of_char c :: nat) \<and> (of_char c :: nat) \<le> 13)"

definition trim_start :: "string \<Rightarrow> string" where
  "trim_start s = dropWhile is_ws s"

definition trim_end_matches :: "(char \<Rightarrow> bool) \<Rightarrow> string \<Rightarrow> string" where
  "trim_end_matches P s = rev (dropWhile P (rev s))"

definition trim :: "string \<Rightarrow> string" where
  "trim s = trim_end_matches is_ws (trim_start s)"

definition trimmed :: "string \<Rightarrow> bool" where
  "trimmed s \<longleftrightarrow> trim s = s"

lemma trim_Nil [simp]: "trim [] = []"
  by (simp add: trim_def trim_start_def trim_end_matches_def)

lemma trim_end_matches_fixed:
  "(s = [] \<or> \<not> P (last s)) \<Longrightarrow> trim_end_matches P s = s"
  by (cases s rule: rev_cases) (auto simp: trim_end_matches_def)

lemma trim_end_matches_last:
  "trim_end_matches P s = [] \<or> \<not> P (last (trim_end_matches P s))"
proof (cases "dropWhile P (rev s)")
  case Nil
  then show ?thesis by (simp add: trim_end_matches_def)
next
  case (Cons c t)
  then have "\<not> P c" by (metis hd_dropWhile list.distinct(1) list.sel(1))
  with Cons show ?thesis by (simp add: trim_end_matches_def)
qed

lemma trim_end_matches_prefix: "\<exists>t. s = trim_end_matches P s @ t"
  unfolding trim_end_matches_def
  by (metis rev_append rev_rev_ident takeWhile_dropWhile_id)

lemma trimmedI:
  assumes "s = [] \<or> (\<not> is_ws (hd s) \<and> \<not> is_ws (last s))"
  shows "trim s = s"
  using assms by (cases s) (auto simp: trim_def trim_start_def intro!: trim_end_matches_fixed)

lemma trimmed_iff: "trimmed s \<longleftrightarrow> s = [] \<or> (\<not> is_ws (hd s) \<and> \<not> is_ws (last s))"
proof
  assume t: "trimmed s"
  then have eq: "trim s = s" by (simp add: trimmed_def)
  show "s = [] \<or> (\<not> is_ws (hd s) \<and> \<not> is_ws (last s))"
  proof (cases s)
    case (Cons c u)
    have "\<not> is_ws c"
    proof
      assume "is_ws c"
      then have "length (trim_start s) < length s"
        using Cons by (simp add: trim_start_def le_imp_less_Suc length_dropWhile_le)
      moreover have "length (trim s) \<le> length (trim_start s)"
        by (simp add: trim_def trim_end_matches_def length_dropWhile_le [THEN order_trans])
      ultimately show False using eq by simp
    qed
    moreover have "\<not> is_ws (last s)"
      using eq Cons trim_end_matches_last [of is_ws "trim_start s"] by (simp add: trim_def)
    ultimately show ?thesis using Cons by simp
  qed simp
qed (auto simp: trimmed_def trimmedI)

lemma trimmed_trim [simp]: "trimmed (trim s)"
proof -
  have "trim s = [] \<or> \<not> is_ws (last (trim s))"
    unfolding trim_def by (rule trim_end_matches_last)
  moreover have "trim s = [] \<or> \<not> is_ws (hd (trim s))"
  proof -
    obtain t where t: "trim_start s = trim s @ t"
      unfolding trim_def using trim_end_matches_prefix by blast
    show ?thesis
    proof (cases "trim s")
      case (Cons c u)
      with t have "hd (trim_start s) = c" and "trim_start s \<noteq> []" by simp_all
      then have "\<not> is_ws c" unfolding trim_start_def by (metis hd_dropWhile)
      with Cons show ?thesis by simp
    qed simp
  qed
  ultimately show ?thesis by (auto simp: trimmed_iff)
qed

lemma is_ws_lower_char [simp]: "is_ws (lower_char c) \<longleftrightarrow> is_ws c"
  unfolding is_ws_def of_char_lower_char by (auto simp: upper_char_def)

lemma trimmed_lower: "trimmed s \<Longrightarrow> trimmed (to_ascii_lowercase s)"
  by (cases s) (auto simp: trimmed_iff to_ascii_lowercase_def last_map)

subsection \<open>Splitting and joining\<close>

text \<open>
  \<^verbatim>\<open>str::split\<close> on a character (or on a set of characters): the pieces between separators, so
  the empty string has one empty piece. \<^verbatim>\<open>rsplit\<close> yields the same pieces from the right.
\<close>

fun split_by :: "(char \<Rightarrow> bool) \<Rightarrow> string \<Rightarrow> string list" where
  "split_by P [] = [[]]"
| "split_by P (c # s) =
     (if P c then [] # split_by P s
      else (case split_by P s of [] \<Rightarrow> [[c]] | p # ps \<Rightarrow> (c # p) # ps))"

abbreviation split_on :: "char \<Rightarrow> string \<Rightarrow> string list" where
  "split_on c \<equiv> split_by (\<lambda>x. x = c)"

definition rsplit :: "char \<Rightarrow> string \<Rightarrow> string list" where
  "rsplit c s = rev (split_on c s)"

fun join :: "string \<Rightarrow> string list \<Rightarrow> string" where
  "join sep [] = []"
| "join sep [x] = x"
| "join sep (x # y # ys) = x @ sep @ join sep (y # ys)"

definition split_once :: "char \<Rightarrow> string \<Rightarrow> (string \<times> string) option" where
  "split_once c s =
     (if c \<in> set s then Some (takeWhile (\<lambda>x. x \<noteq> c) s, drop 1 (dropWhile (\<lambda>x. x \<noteq> c) s)) else None)"

fun splitn :: "nat \<Rightarrow> char \<Rightarrow> string \<Rightarrow> string list" where
  "splitn 0 c s = []"
| "splitn (Suc 0) c s = [s]"
| "splitn (Suc (Suc n)) c s =
     (case split_once c s of None \<Rightarrow> [s] | Some (a, b) \<Rightarrow> a # splitn (Suc n) c b)"

definition strip_prefix :: "string \<Rightarrow> string \<Rightarrow> string option" where
  "strip_prefix p s = (if take (length p) s = p then Some (drop (length p) s) else None)"

definition starts_with :: "string \<Rightarrow> string \<Rightarrow> bool" where
  "starts_with p s \<longleftrightarrow> take (length p) s = p"

definition ends_with :: "string \<Rightarrow> string \<Rightarrow> bool" where
  "ends_with p s \<longleftrightarrow> length p \<le> length s \<and> drop (length s - length p) s = p"

fun contains_str :: "string \<Rightarrow> string \<Rightarrow> bool" where
  "contains_str n [] \<longleftrightarrow> n = []"
| "contains_str n (c # s) \<longleftrightarrow> take (length n) (c # s) = n \<or> contains_str n s"

lemma split_by_ne [simp]: "split_by P s \<noteq> []"
  by (induction s) (auto split: list.splits)

lemma split_by_no_sep: "\<forall>c \<in> set s. \<not> P c \<Longrightarrow> split_by P s = [s]"
  by (induction s) auto

lemma split_by_pieces: "p \<in> set (split_by P s) \<Longrightarrow> c \<in> set p \<Longrightarrow> \<not> P c \<and> c \<in> set s"
proof (induction s arbitrary: p)
  case (Cons x s)
  obtain q qs where q: "split_by P s = q # qs" by (cases "split_by P s") auto
  show ?case
  proof (cases "P x")
    case True
    with Cons show ?thesis by auto
  next
    case False
    with Cons.prems q have "p = x # q \<or> p \<in> set qs" by auto
    with Cons.IH [of q] Cons.IH [of p] Cons.prems(2) q False show ?thesis by auto
  qed
qed simp

lemma split_by_append_sep:
  "P c \<Longrightarrow> split_by P (a @ c # b) = split_by P a @ split_by P b"
  by (induction a) (auto split: list.splits simp: append_eq_Cons_conv)

lemma join_split_on: "join [c] (split_on c s) = s"
proof (induction s)
  case (Cons x s)
  show ?case
  proof (cases "split_on c s")
    case (Cons p ps)
    with Cons.IH show ?thesis by (cases ps) auto
  qed simp
qed simp

lemma split_on_inject: "split_on c s = split_on c t \<longleftrightarrow> s = t"
  by (metis join_split_on)

lemma split_on_cons_iff:
  assumes "xs \<noteq> []"
  shows "split_on c s = x # xs \<longleftrightarrow> c \<notin> set x \<and> (\<exists>t. s = x @ c # t \<and> split_on c t = xs)"
proof
  assume l: "split_on c s = x # xs"
  then have nx: "c \<notin> set x" using split_by_pieces [of x "\<lambda>y. y = c" s] by force
  have s: "s = join [c] (x # xs)" using join_split_on [of c s] l by simp
  with assms obtain y ys where xs: "xs = y # ys" by (cases xs) auto
  with s have st: "s = x @ c # join [c] xs" by simp
  then have "split_on c s = split_on c x @ split_on c (join [c] xs)"
    by (simp add: split_by_append_sep)
  also have "split_on c x = [x]" using nx by (auto intro: split_by_no_sep)
  finally have "split_on c (join [c] xs) = xs" using l by simp
  with nx st show "c \<notin> set x \<and> (\<exists>t. s = x @ c # t \<and> split_on c t = xs)" by blast
next
  assume "c \<notin> set x \<and> (\<exists>t. s = x @ c # t \<and> split_on c t = xs)"
  then obtain t where "c \<notin> set x" "s = x @ c # t" "split_on c t = xs" by blast
  moreover have "split_on c x = [x]" using \<open>c \<notin> set x\<close> by (auto intro: split_by_no_sep)
  ultimately show "split_on c s = x # xs" by (simp add: split_by_append_sep)
qed

lemma split_on_suffix_iff:
  "(\<exists>xs. xs \<noteq> [] \<and> split_on c s = xs @ split_on c p) \<longleftrightarrow> (\<exists>a. s = a @ c # p)"
proof
  assume "\<exists>xs. xs \<noteq> [] \<and> split_on c s = xs @ split_on c p"
  then obtain xs where "xs \<noteq> []" and "split_on c s = xs @ split_on c p" by blast
  then show "\<exists>a. s = a @ c # p"
  proof (induction xs arbitrary: s)
    case (Cons x xs)
    then have "split_on c s = x # (xs @ split_on c p)" by simp
    then obtain t where t: "s = x @ c # t" "split_on c t = xs @ split_on c p"
      by (subst (asm) split_on_cons_iff) auto
    show ?case
    proof (cases "xs = []")
      case True
      with t have "t = p" by (simp add: split_on_inject)
      with t show ?thesis by blast
    next
      case False
      with Cons.IH t obtain a where "t = a @ c # p" by blast
      with t have "s = (x @ c # a) @ c # p" by simp
      then show ?thesis by blast
    qed
  qed simp
next
  assume "\<exists>a. s = a @ c # p"
  then obtain a where "s = a @ c # p" by blast
  then have "split_on c s = split_on c a @ split_on c p" by (simp add: split_by_append_sep)
  then show "\<exists>xs. xs \<noteq> [] \<and> split_on c s = xs @ split_on c p" by (metis split_by_ne)
qed

lemma split_on_dot_lower:
  "split_on (CHR ''.'') (to_ascii_lowercase s) = map to_ascii_lowercase (split_on (CHR ''.'') s)"
  by (induction s) (auto split: list.splits)

lemma contains_str_sublist: "contains_str n s \<longleftrightarrow> sublist n s"
proof (induction s)
  case (Cons c s)
  have "take (length n) (c # s) = n \<longleftrightarrow> prefix n (c # s)"
    by (metis append_eq_conv_conj prefix_def append_take_drop_id)
  with Cons show ?case by (simp add: sublist_Cons_right)
qed (simp add: sublist_code)

lemma strip_prefix_Some: "strip_prefix p s = Some r \<longleftrightarrow> s = p @ r"
  by (auto simp: strip_prefix_def split: if_splits) (metis append_take_drop_id)

lemma starts_with_prefix: "starts_with p s \<longleftrightarrow> prefix p s"
  by (auto simp: starts_with_def prefix_def) (metis append_take_drop_id)

lemma split_once_Some:
  "split_once c s = Some (a, b) \<longleftrightarrow> c \<notin> set a \<and> s = a @ c # b"
proof
  assume l: "split_once c s = Some (a, b)"
  then have a: "a = takeWhile (\<lambda>x. x \<noteq> c) s" and b: "b = drop 1 (dropWhile (\<lambda>x. x \<noteq> c) s)"
    and c: "c \<in> set s"
    by (auto simp: split_once_def split: if_splits)
  from c obtain u where "dropWhile (\<lambda>x. x \<noteq> c) s = c # u"
    by (metis (mono_tags, lifting) dropWhile_eq_Nil_conv hd_dropWhile list.collapse)
  then have "s = a @ c # b"
    using a b takeWhile_dropWhile_id [of "\<lambda>x. x \<noteq> c" s] by simp
  moreover have "c \<notin> set a" using a by (auto dest: set_takeWhileD)
  ultimately show "c \<notin> set a \<and> s = a @ c # b" by simp
next
  assume r: "c \<notin> set a \<and> s = a @ c # b"
  then have "\<And>x. x \<in> set a \<Longrightarrow> x \<noteq> c" by auto
  then have "takeWhile (\<lambda>x. x \<noteq> c) s = a" and "dropWhile (\<lambda>x. x \<noteq> c) s = c # b"
    using r takeWhile_append2 [of a "\<lambda>x. x \<noteq> c"] dropWhile_append2 [of a "\<lambda>x. x \<noteq> c"] by simp_all
  with r show "split_once c s = Some (a, b)" by (simp add: split_once_def)
qed

subsection \<open>Decimal numbers\<close>

text \<open>
  \<^verbatim>\<open>str::parse\<close> for the unsigned types: an optional \<^verbatim>\<open>+\<close>, then at least one decimal digit, and an
  error when the value does not fit the width. \<^verbatim>\<open>to_string\<close> prints without leading zeros.
\<close>

definition is_digit :: "char \<Rightarrow> bool" where
  "is_digit c \<longleftrightarrow> 48 \<le> (of_char c :: nat) \<and> (of_char c :: nat) \<le> 57"

definition digits_val :: "string \<Rightarrow> nat" where
  "digits_val s = foldl (\<lambda>n c. 10 * n + ((of_char c :: nat) - 48)) 0 s"

definition parse_uint :: "nat \<Rightarrow> string \<Rightarrow> nat option" where
  "parse_uint bits s =
     (let ds = (case s of [] \<Rightarrow> [] | c # t \<Rightarrow> if c = CHR ''+'' then t else s) in
      if ds \<noteq> [] \<and> list_all is_digit ds \<and> digits_val ds < 2 ^ bits then Some (digits_val ds) else None)"

definition digit_char :: "nat \<Rightarrow> char" where
  "digit_char n = char_of (48 + n)"

fun show_nat :: "nat \<Rightarrow> string" where
  "show_nat n = (if n < 10 then [digit_char n] else show_nat (n div 10) @ [digit_char (n mod 10)])"

declare show_nat.simps [simp del]

lemma of_digit_char: "n < 10 \<Longrightarrow> (of_char (digit_char n) :: nat) = 48 + n"
  by (simp add: digit_char_def of_char_of)

lemma digits_val_snoc: "digits_val (s @ [c]) = 10 * digits_val s + ((of_char c :: nat) - 48)"
  by (simp add: digits_val_def)

lemma show_nat_val [simp]: "digits_val (show_nat n) = n"
proof (induction n rule: show_nat.induct)
  case (1 n)
  show ?case
  proof (cases "n < 10")
    case True
    then show ?thesis by (simp add: show_nat.simps [of n] digits_val_def of_digit_char)
  next
    case False
    with 1 have "digits_val (show_nat (n div 10)) = n div 10" by simp
    with False show ?thesis
      by (simp add: show_nat.simps [of n] digits_val_snoc of_digit_char)
  qed
qed

lemma show_nat_inject [simp]: "show_nat m = show_nat n \<longleftrightarrow> m = n"
  by (metis show_nat_val)

lemma show_nat_digits: "list_all is_digit (show_nat n)"
proof (induction n rule: show_nat.induct)
  case (1 n)
  then show ?case
    by (cases "n < 10") (simp_all add: show_nat.simps [of n] is_digit_def of_digit_char)
qed

lemma show_nat_ne [simp]: "show_nat n \<noteq> []"
  by (simp add: show_nat.simps [of n])

lemma parse_uint_bound: "parse_uint b s = Some n \<Longrightarrow> n < 2 ^ b"
  by (auto simp: parse_uint_def Let_def split: if_splits)

lemma digit_not_plus: "is_digit c \<Longrightarrow> c \<noteq> CHR ''+'' \<and> c \<noteq> CHR ''-'' \<and> c \<noteq> CHR '','' \<and> c \<noteq> CHR ''|''"
  by (auto simp: is_digit_def)

lemma parse_show_nat: "n < 2 ^ b \<Longrightarrow> parse_uint b (show_nat n) = Some n"
proof -
  assume n: "n < 2 ^ b"
  obtain c t where ct: "show_nat n = c # t" by (cases "show_nat n") auto
  then have "c \<noteq> CHR ''+''" using show_nat_digits [of n] digit_not_plus [of c] by simp
  with ct n show_nat_digits [of n] show_nat_val [of n] show ?thesis
    by (simp add: parse_uint_def)
qed

subsection \<open>Injective printing of lists\<close>

lemma split_on_join:
  "xs \<noteq> [] \<Longrightarrow> (\<forall>x \<in> set xs. c \<notin> set x) \<Longrightarrow> split_on c (join [c] xs) = xs"
proof (induction xs)
  case (Cons x xs)
  have "split_on c x = [x]" using Cons.prems by (auto intro: split_by_no_sep)
  with Cons show ?case
    by (cases xs) (auto simp: split_by_append_sep)
qed simp

lemma join_inject:
  assumes "xs \<noteq> []" "ys \<noteq> []" "\<forall>x \<in> set xs. c \<notin> set x" "\<forall>x \<in> set ys. c \<notin> set x"
  shows "join [c] xs = join [c] ys \<longleftrightarrow> xs = ys"
  using assms by (metis split_on_join)

lemma sep_inject:
  fixes c :: char
  assumes "c \<notin> set a" "c \<notin> set a'"
  shows "a @ c # b = a' @ c # b' \<longleftrightarrow> a = a' \<and> b = b'"
proof
  assume eq: "a @ c # b = a' @ c # b'"
  have "split_once c (a @ c # b) = Some (a, b)" using assms split_once_Some by blast
  moreover have "split_once c (a @ c # b) = Some (a', b')" using assms eq split_once_Some by metis
  ultimately show "a = a' \<and> b = b'" by simp
qed simp

subsection \<open>Binary search on a sorted slice\<close>

text \<open>
  \<^verbatim>\<open>slice::binary_search_by\<close>: the comparison says how an element stands to the target; on a
  slice ordered by it the result is \<^const>\<open>Some\<close> index of an equal element, if there is one.
\<close>

datatype ordering = Less | Equal | Greater

definition cmp_bytes :: "string \<Rightarrow> string \<Rightarrow> ordering" where
  "cmp_bytes a b = (if a < b then Less else if a = b then Equal else Greater)"

function bsearch :: "('a \<Rightarrow> ordering) \<Rightarrow> 'a list \<Rightarrow> nat \<Rightarrow> nat \<Rightarrow> nat option" where
  "bsearch f xs lo hi =
     (if lo < hi then
        (let mid = lo + (hi - lo) div 2 in
         case f (xs ! mid) of
           Equal \<Rightarrow> Some mid
         | Less \<Rightarrow> bsearch f xs (Suc mid) hi
         | Greater \<Rightarrow> bsearch f xs lo mid)
      else None)"
  by pat_completeness auto
termination
  by (relation "measure (\<lambda>(f, xs, lo, hi). hi - lo)") auto

declare bsearch.simps [simp del]

definition binary_search_by :: "('a \<Rightarrow> ordering) \<Rightarrow> 'a list \<Rightarrow> nat option" where
  "binary_search_by f xs = bsearch f xs 0 (length xs)"

text \<open>The slice is ordered for the comparison: no \<^const>\<open>Less\<close> after anything else, no
  \<^const>\<open>Greater\<close> before.\<close>

definition ordered_by :: "('a \<Rightarrow> ordering) \<Rightarrow> 'a list \<Rightarrow> bool" where
  "ordered_by f xs \<longleftrightarrow>
     (\<forall>i j. i < j \<and> j < length xs \<longrightarrow>
        (f (xs ! j) \<noteq> Greater \<longrightarrow> f (xs ! i) = Less) \<and> (f (xs ! i) \<noteq> Less \<longrightarrow> f (xs ! j) = Greater))"

lemma bsearch_sound: "bsearch f xs lo hi = Some i \<Longrightarrow> lo \<le> i \<and> i < hi \<and> f (xs ! i) = Equal"
proof (induction f xs lo hi rule: bsearch.induct)
  case (1 f xs lo hi)
  define mid where "mid = lo + (hi - lo) div 2"
  show ?case
  proof (cases "lo < hi")
    case True
    then have b: "lo \<le> mid" "mid < hi" by (auto simp: mid_def)
    show ?thesis
      using 1 True b bsearch.simps [of f xs lo hi]
      by (cases "f (xs ! mid)") (auto simp: mid_def [symmetric] Let_def)
  next
    case False
    with 1 show ?thesis by (simp add: bsearch.simps [of f xs lo hi])
  qed
qed

lemma bsearch_complete:
  assumes "ordered_by f xs" "hi \<le> length xs" "lo \<le> k" "k < hi" "f (xs ! k) = Equal"
  shows "bsearch f xs lo hi = Some k"
  using assms
proof (induction f xs lo hi rule: bsearch.induct)
  case (1 f xs lo hi)
  define mid where "mid = lo + (hi - lo) div 2"
  from 1 have lh: "lo < hi" by simp
  then have b: "lo \<le> mid" "mid < hi" by (auto simp: mid_def)
  note unf = bsearch.simps [of f xs lo hi, folded mid_def]
  consider "k < mid" | "k = mid" | "mid < k" by linarith
  then show ?case
  proof cases
    case 1
    with "1.prems" b have "f (xs ! mid) = Greater" by (auto simp: ordered_by_def)
    with "1.IH" (2) [OF lh mid_def] "1.prems" 1 lh b unf show ?thesis by simp
  next
    case 2
    with "1.prems" lh unf show ?thesis by (simp add: Let_def)
  next
    case 3
    with "1.prems" b have "f (xs ! k) \<noteq> Greater" "k < length xs" by auto
    with 3 "1.prems"(1) have "f (xs ! mid) = Less" by (auto simp: ordered_by_def)
    with "1.IH" (1) [OF lh mid_def] "1.prems" 3 lh b unf show ?thesis by simp
  qed
qed

lemma binary_search_by_None:
  assumes "binary_search_by f xs = None" "ordered_by f xs" "x \<in> set xs"
  shows "f x \<noteq> Equal"
  using assms bsearch_complete [of f xs "length xs" 0]
  by (fastforce simp: binary_search_by_def in_set_conv_nth)

lemma ordered_by_cmp_bytes:
  "sorted (map fst xs) \<Longrightarrow> distinct (map fst xs) \<Longrightarrow> ordered_by (\<lambda>(k, _). cmp_bytes k l) xs"
proof -
  assume s: "sorted (map fst xs)" and d: "distinct (map fst xs)"
  have lt: "fst (xs ! i) < fst (xs ! j)" if "i < j" "j < length xs" for i j
  proof -
    have "fst (xs ! i) \<le> fst (xs ! j)"
      using s that by (auto simp: sorted_iff_nth_mono dest!: spec [of _ i])
    moreover have "fst (xs ! i) \<noteq> fst (xs ! j)"
      using d that by (auto simp: distinct_conv_nth)
    ultimately show ?thesis by simp
  qed
  have "cmp_bytes a l \<noteq> Greater \<longleftrightarrow> a \<le> l" "cmp_bytes a l \<noteq> Less \<longleftrightarrow> l \<le> a"
    "cmp_bytes a l = Greater \<longleftrightarrow> l < a" "cmp_bytes a l = Less \<longleftrightarrow> a < l" for a
    by (auto simp: cmp_bytes_def)
  then show ?thesis
    unfolding ordered_by_def using lt by (fastforce simp: case_prod_beta)
qed

lemma binary_search_map_of:
  assumes "sorted (map fst xs)" and "distinct (map fst xs)"
  shows "map_option (\<lambda>i. snd (xs ! i)) (binary_search_by (\<lambda>(k, _). cmp_bytes k l) xs) = map_of xs l"
proof (cases "binary_search_by (\<lambda>(k, _). cmp_bytes k l) xs")
  case None
  have "l \<noteq> fst x" if "x \<in> set xs" for x
    using binary_search_by_None [OF None ordered_by_cmp_bytes [OF assms] that]
    by (auto simp: cmp_bytes_def case_prod_beta)
  then have "map_of xs l = None" by (force simp: map_of_eq_None_iff)
  with None show ?thesis by simp
next
  case (Some i)
  then have i: "i < length xs" "cmp_bytes (fst (xs ! i)) l = Equal"
    using bsearch_sound [of "\<lambda>(k, _). cmp_bytes k l" xs 0 "length xs" i]
    by (auto simp: binary_search_by_def case_prod_beta)
  then have "fst (xs ! i) = l" by (simp add: cmp_bytes_def split: if_splits)
  then have "(l, snd (xs ! i)) \<in> set xs" using i by (metis nth_mem prod.collapse)
  with Some assms(2) show ?thesis by simp
qed

subsection \<open>First match in a list\<close>

fun find_map :: "('a \<Rightarrow> 'b option) \<Rightarrow> 'a list \<Rightarrow> 'b option" where
  "find_map f [] = None"
| "find_map f (x # xs) = (case f x of None \<Rightarrow> find_map f xs | Some y \<Rightarrow> Some y)"

lemma find_map_None [scan_simps]: "find_map f xs = None \<longleftrightarrow> (\<forall>x \<in> set xs. f x = None)"
  by (induction xs) (auto split: option.splits)

lemma find_map_append [scan_simps]:
  "find_map f (xs @ ys) = (case find_map f xs of None \<Rightarrow> find_map f ys | Some y \<Rightarrow> Some y)"
  by (induction xs) (auto split: option.splits)

lemma find_map_cong:
  "(\<And>x. x \<in> set xs \<Longrightarrow> f x = g x) \<Longrightarrow> find_map f xs = find_map g xs"
  by (induction xs) (auto split: option.splits)

lemma find_map_map: "find_map f (map g xs) = find_map (\<lambda>x. f (g x)) xs"
  by (induction xs) (auto split: option.split)

lemma find_map_fundef_cong [fundef_cong]:
  "xs = ys \<Longrightarrow> (\<And>x. x \<in> set ys \<Longrightarrow> f x = g x) \<Longrightarrow> find_map f xs = find_map g ys"
  by (auto intro: find_map_cong)

lemma find_map_SomeD:
  "find_map f xs = Some y \<Longrightarrow>
     \<exists>us x vs. xs = us @ x # vs \<and> f x = Some y \<and> (\<forall>u \<in> set us. f u = None)"
proof (induction xs)
  case (Cons x xs)
  show ?case
  proof (cases "f x")
    case None
    with Cons obtain us z vs where "xs = us @ z # vs" "f z = Some y" "\<forall>u \<in> set us. f u = None"
      by auto
    with None have "x # xs = (x # us) @ z # vs" "f z = Some y" "\<forall>u \<in> set (x # us). f u = None"
      by auto
    then show ?thesis by blast
  next
    case (Some z)
    with Cons.prems have "x # xs = [] @ x # xs" "f x = Some y" "\<forall>u \<in> set []. f u = None" by auto
    then show ?thesis by blast
  qed
qed simp

lemma find_map_SomeI:
  "f x = Some y \<Longrightarrow> \<forall>u \<in> set us. f u = None \<Longrightarrow> find_map f (us @ x # vs) = Some y"
  by (simp add: find_map_append find_map_None [THEN iffD2])

end
