(* ===== verification/Metadata.thy ===== *)
theory Metadata
  imports Prelude
begin

text \<open>
  The connection metadata the rule engine matches on: \<open>meow-common/src/metadata.rs\<close> and the
  enumerations it uses (\<open>network.rs\<close>, \<open>dns_mode.rs\<close>, \<open>tunnel_mode.rs\<close>, \<open>adapter_type.rs\<close> for
  \<open>ConnType\<close>, \<open>rule.rs\<close> for \<open>RuleType\<close>). Ports, user ids and DSCP marks keep their widths as words;
  an \<open>IpAddr\<close> is its family and its bits. Fields carry the prefix \<open>md_\<close>.
\<close>

datatype ipaddr = V4 "32 word" | V6 "128 word"

datatype network = Tcp | Udp

fun show_network :: "network \<Rightarrow> string" where
  "show_network Tcp = ''tcp''"
| "show_network Udp = ''udp''"

text \<open>The derived \<open>Debug\<close> rendering, used in rule fingerprints.\<close>

fun debug_network :: "network \<Rightarrow> string" where
  "debug_network Tcp = ''Tcp''"
| "debug_network Udp = ''Udp''"

datatype dns_mode = Normal | Mapping | FakeIp

fun mapping_enabled :: "dns_mode \<Rightarrow> bool" where
  "mapping_enabled Normal = False"
| "mapping_enabled Mapping = True"
| "mapping_enabled FakeIp = True"

fun show_dns_mode :: "dns_mode \<Rightarrow> string" where
  "show_dns_mode Normal = ''normal''"
| "show_dns_mode Mapping = ''redir-host''"
| "show_dns_mode FakeIp = ''fake-ip''"

datatype tunnel_mode = Global | Rule | Direct

fun show_tunnel_mode :: "tunnel_mode \<Rightarrow> string" where
  "show_tunnel_mode Global = ''global''"
| "show_tunnel_mode Rule = ''rule''"
| "show_tunnel_mode Direct = ''direct''"

definition tunnel_mode_from_str :: "string \<Rightarrow> string + tunnel_mode" where
  "tunnel_mode_from_str s =
     (let l = to_ascii_lowercase s in
      if l = ''global'' then Inr Global
      else if l = ''rule'' then Inr Rule
      else if l = ''direct'' then Inr Direct
      else Inl (''unknown tunnel mode: '' @ s))"

datatype conn_type =
    Http | Https | Socks4 | Socks5 | Shadowsocks | Vmess | Vless | Redir | TProxy | Trojan
  | Tun | Tunnel | Tuic | Hysteria2 | Inner

datatype rule_type =
    RtDomain | RtDomainSuffix | RtDomainKeyword | RtDomainRegex | RtGeoSite | RtGeoIp | RtSrcGeoIp
  | RtIpCidr | RtSrcIpCidr | RtSrcPort | RtDstPort | RtInPort | RtDscp | RtProcessName
  | RtProcessPath | RtNetwork | RtUid | RtMatch | RtRuleSet | RtAnd | RtOr | RtNot
  | RtDomainWildcard | RtIpSuffix | RtIpAsn | RtSubRule | RtInName | RtInType | RtInUser

fun rule_type_as_str :: "rule_type \<Rightarrow> string" where
  "rule_type_as_str RtDomain = ''DOMAIN''"
| "rule_type_as_str RtDomainSuffix = ''DOMAIN-SUFFIX''"
| "rule_type_as_str RtDomainKeyword = ''DOMAIN-KEYWORD''"
| "rule_type_as_str RtDomainRegex = ''DOMAIN-REGEX''"
| "rule_type_as_str RtGeoSite = ''GEOSITE''"
| "rule_type_as_str RtGeoIp = ''GEOIP''"
| "rule_type_as_str RtSrcGeoIp = ''SRC-GEOIP''"
| "rule_type_as_str RtIpCidr = ''IP-CIDR''"
| "rule_type_as_str RtSrcIpCidr = ''SRC-IP-CIDR''"
| "rule_type_as_str RtSrcPort = ''SRC-PORT''"
| "rule_type_as_str RtDstPort = ''DST-PORT''"
| "rule_type_as_str RtInPort = ''IN-PORT''"
| "rule_type_as_str RtDscp = ''DSCP''"
| "rule_type_as_str RtProcessName = ''PROCESS-NAME''"
| "rule_type_as_str RtProcessPath = ''PROCESS-PATH''"
| "rule_type_as_str RtNetwork = ''NETWORK''"
| "rule_type_as_str RtUid = ''UID''"
| "rule_type_as_str RtMatch = ''MATCH''"
| "rule_type_as_str RtRuleSet = ''RULE-SET''"
| "rule_type_as_str RtAnd = ''AND''"
| "rule_type_as_str RtOr = ''OR''"
| "rule_type_as_str RtNot = ''NOT''"
| "rule_type_as_str RtDomainWildcard = ''DOMAIN-WILDCARD''"
| "rule_type_as_str RtIpSuffix = ''IP-SUFFIX''"
| "rule_type_as_str RtIpAsn = ''IP-ASN''"
| "rule_type_as_str RtSubRule = ''SUB-RULE''"
| "rule_type_as_str RtInName = ''IN-NAME''"
| "rule_type_as_str RtInType = ''IN-TYPE''"
| "rule_type_as_str RtInUser = ''IN-USER''"

record metadata =
  md_network :: network
  md_conn_type :: conn_type
  md_src_ip :: "ipaddr option"
  md_dst_ip :: "ipaddr option"
  md_src_port :: "16 word"
  md_dst_port :: "16 word"
  md_host :: string
  md_dns_mode :: dns_mode
  md_process :: string
  md_process_path :: string
  md_uid :: "32 word option"
  md_dscp :: "8 word option"
  md_src_geo_ip :: "string list"
  md_dst_geo_ip :: "string list"
  md_sniff_host :: string
  md_in_name :: string
  md_in_port :: "16 word"
  md_in_user :: "string option"
  md_special_proxy :: string

definition default_metadata :: metadata where
  "default_metadata =
     \<lparr>md_network = Tcp, md_conn_type = Http, md_src_ip = None, md_dst_ip = None, md_src_port = 0,
      md_dst_port = 0, md_host = [], md_dns_mode = Normal, md_process = [], md_process_path = [],
      md_uid = None, md_dscp = None, md_src_geo_ip = [], md_dst_geo_ip = [], md_sniff_host = [],
      md_in_name = [], md_in_port = 0, md_in_user = None, md_special_proxy = []\<rparr>"

definition lower_host :: "string \<Rightarrow> string" where
  "lower_host s = (if list_ex upper_char s then to_ascii_lowercase s else s)"

definition rule_host :: "metadata \<Rightarrow> string" where
  "rule_host m = (if md_sniff_host m = [] then md_host m else md_sniff_host m)"

definition resolved :: "metadata \<Rightarrow> bool" where
  "resolved m \<longleftrightarrow> md_dst_ip m \<noteq> None"

definition pure_metadata :: "metadata \<Rightarrow> metadata" where
  "pure_metadata m =
     \<lparr>md_network = md_network m, md_conn_type = md_conn_type m, md_src_ip = md_src_ip m,
      md_dst_ip = md_dst_ip m, md_src_port = md_src_port m, md_dst_port = md_dst_port m,
      md_host = md_host m, md_dns_mode = md_dns_mode m, md_process = [], md_process_path = [],
      md_uid = None, md_dscp = None, md_src_geo_ip = [], md_dst_geo_ip = [], md_sniff_host = [],
      md_in_name = [], md_in_port = 0, md_in_user = None, md_special_proxy = []\<rparr>"

lemma lower_host_eq: "lower_host s = to_ascii_lowercase s"
  by (simp add: lower_host_def is_lower_fixed is_lower_def)

lemma is_lower_lower_host [simp]: "is_lower (lower_host s)"
  by (simp add: lower_host_eq)

lemma tunnel_mode_roundtrip: "tunnel_mode_from_str (show_tunnel_mode md) = Inr md"
  by (induction md) code_simp+

lemma rule_type_as_str_inject: "rule_type_as_str a = rule_type_as_str b \<longleftrightarrow> a = b"
  by (cases a; cases b) simp_all

lemma debug_network_inject [simp]: "debug_network a = debug_network b \<longleftrightarrow> a = b"
  by (cases a; cases b) simp_all

end
