(* ===== verification/External.thy ===== *)
theory External
  imports Metadata
begin

text \<open>
  The third-party crates the rule engine calls, as parameters. \<open>ipnet\<close>, \<open>iprange\<close> and \<open>regex\<close> are
  not part of the repository, so their operations are the fields of one record \<open>ext\<close>, the first
  argument of every definition that uses them, and what the engine relies on of them is the
  predicate \<open>ext_laws\<close>. Their values are kept in the form the engine builds them in: an \<open>IpNet\<close> is
  the address and prefix length it was made from, an \<open>IpRange\<close> the additions and simplifications
  made to it, a \<open>Regex\<close> the pattern it was compiled from. An \<open>Arc\<close> is the address of its
  allocation together with what it points to, so that pointer comparisons are visible.
  The record also says whether the engine was built for Linux, which the code asks with
  \<open>cfg(target_os = "linux")\<close>.
\<close>

datatype ipnet = NetV4 "32 word" nat | NetV6 "128 word" nat

datatype iprange = RangeNew | RangeAdd ipnet iprange | RangeSimplify iprange

datatype 'a arc = Arc (arc_ptr: nat) (arc_val: 'a)

record ext =
  parse_net :: "string \<Rightarrow> ipnet option"
  net_new :: "ipaddr \<Rightarrow> nat \<Rightarrow> ipnet option"
  show_net :: "ipnet \<Rightarrow> string"
  trunc_net :: "ipnet \<Rightarrow> ipnet"
  net_contains :: "ipnet \<Rightarrow> ipaddr \<Rightarrow> bool"
  range_contains :: "iprange \<Rightarrow> ipnet \<Rightarrow> bool"
  range_is_empty :: "iprange \<Rightarrow> bool"
  regex_new :: "string \<Rightarrow> bool"
  regex_is_match :: "string \<Rightarrow> string \<Rightarrow> bool"
  regex_escape :: "string \<Rightarrow> string"
  target_linux :: bool

fun host_net :: "ipaddr \<Rightarrow> ipnet" where
  "host_net (V4 a) = NetV4 a 32"
| "host_net (V6 a) = NetV6 a 128"

text \<open>The addresses a range holds: those of the networks added to it.\<close>

fun range_has :: "ext \<Rightarrow> iprange \<Rightarrow> ipaddr \<Rightarrow> bool" where
  "range_has X RangeNew ip = False"
| "range_has X (RangeAdd n r) ip = (net_contains X n ip \<or> range_has X r ip)"
| "range_has X (RangeSimplify r) ip = range_has X r ip"

text \<open>
  \<open>ipnet\<close>: truncating the host bits keeps the set of addresses, and a truncated network prints as its
  address and prefix length and so determines its addresses. A network made with \<open>new\<close> has the given
  address and prefix length, and host networks can be made.
\<close>

definition ipnet_laws :: "ext \<Rightarrow> bool" where
  "ipnet_laws X \<longleftrightarrow>
     (\<forall>n ip. net_contains X (trunc_net X n) ip = net_contains X n ip) \<and>
     (\<forall>a b. show_net X (trunc_net X a) = show_net X (trunc_net X b) \<longrightarrow> trunc_net X a = trunc_net X b) \<and>
     (\<forall>ip p n. net_new X ip p = Some n \<longrightarrow> (case ip of V4 a \<Rightarrow> n = NetV4 a p | V6 a \<Rightarrow> n = NetV6 a p)) \<and>
     (\<forall>a. net_new X (V4 a) 32 = Some (NetV4 a 32)) \<and> (\<forall>a. net_new X (V6 a) 128 = Some (NetV6 a 128))"

text \<open>
  \<open>iprange\<close>: a network reported as contained has all its addresses in the range, and after
  \<open>simplify\<close> the range contains the host network of each address it holds. A range that holds an
  address is not empty, and a new range is.
\<close>

definition iprange_laws :: "ext \<Rightarrow> bool" where
  "iprange_laws X \<longleftrightarrow>
     (\<forall>r n ip. range_contains X r n \<and> net_contains X n ip \<longrightarrow> range_has X r ip) \<and>
     (\<forall>ip. net_contains X (host_net ip) ip) \<and>
     (\<forall>r ip. range_has X r ip \<longrightarrow> range_contains X (RangeSimplify r) (host_net ip)) \<and>
     (\<forall>r ip. range_has X r ip \<longrightarrow> \<not> range_is_empty X r) \<and> range_is_empty X RangeNew"

subsection \<open>Regular expressions\<close>

fun replace_str :: "string \<Rightarrow> string \<Rightarrow> string \<Rightarrow> nat \<Rightarrow> string" where
  "replace_str from to [] skip = []"
| "replace_str from to (c # s) skip =
     (if skip > 0 then replace_str from to s (skip - 1)
      else if from \<noteq> [] \<and> starts_with from (c # s)
        then to @ replace_str from to s (length from - 1)
      else c # replace_str from to s 0)"

text \<open>The pattern built for a glob: escape, expand each \<open>*\<close>, anchor, ignore case.\<close>

definition glob_regex :: "ext \<Rightarrow> string \<Rightarrow> string \<Rightarrow> string" where
  "glob_regex X star pattern =
     ''^(?i)'' @ replace_str (CHR 0x5C # ''*'') star (regex_escape X pattern) 0 @ ''$''"

definition wildcard_regex :: "ext \<Rightarrow> string \<Rightarrow> string" where
  "wildcard_regex X pattern = glob_regex X ''[^.]+'' pattern"

definition path_regex :: "ext \<Rightarrow> string \<Rightarrow> string" where
  "path_regex X pattern = glob_regex X (''[^/'' @ [CHR 0x5C, CHR 0x5C] @ '']*'') pattern"

definition is_regex_meta_byte :: "char \<Rightarrow> bool" where
  "is_regex_meta_byte c \<longleftrightarrow> c \<in> set (CHR 0x5C # ''.+*?()|[]{}^$'')"

text \<open>
  The language of a wildcard pattern: literal pieces in order, ignoring ASCII case, any two of them
  separated by one or more characters that are not dots.
\<close>

fun wildcard_lang :: "string list \<Rightarrow> string \<Rightarrow> bool" where
  "wildcard_lang [] h = False"
| "wildcard_lang [p] h = eq_ignore_ascii_case p h"
| "wildcard_lang (p # ps) h =
     (length p \<le> length h \<and> eq_ignore_ascii_case p (take (length p) h) \<and>
      list_ex (\<lambda>i. CHR ''.'' \<notin> set (take i (drop (length p) h)) \<and> wildcard_lang ps (drop (length p + i) h))
        [1..<Suc (length h - length p)])"

lemma wildcard_lang_split:
  "wildcard_lang (p # q # ps) h \<longleftrightarrow>
     (\<exists>a g t. h = a @ g @ t \<and> eq_ignore_ascii_case p a \<and> g \<noteq> [] \<and> CHR ''.'' \<notin> set g \<and> wildcard_lang (q # ps) t)"
proof
  assume "wildcard_lang (p # q # ps) h"
  then obtain i where i: "length p \<le> length h" "eq_ignore_ascii_case p (take (length p) h)" "0 < i"
    "i \<le> length h - length p" "CHR ''.'' \<notin> set (take i (drop (length p) h))"
    "wildcard_lang (q # ps) (drop (length p + i) h)"
    by (auto simp: list_ex_iff less_Suc_eq_le Suc_le_eq simp del: upt_Suc)
  have "h = take (length p) h @ take i (drop (length p) h) @ drop (length p + i) h"
    by (metis append_take_drop_id drop_drop add.commute)
  moreover have "take i (drop (length p) h) \<noteq> []" using i by auto
  ultimately show "\<exists>a g t. h = a @ g @ t \<and> eq_ignore_ascii_case p a \<and> g \<noteq> [] \<and> CHR ''.'' \<notin> set g \<and>
      wildcard_lang (q # ps) t"
    using i by blast
next
  assume "\<exists>a g t. h = a @ g @ t \<and> eq_ignore_ascii_case p a \<and> g \<noteq> [] \<and> CHR ''.'' \<notin> set g \<and> wildcard_lang (q # ps) t"
  then obtain a g t where h: "h = a @ g @ t" "eq_ignore_ascii_case p a" "g \<noteq> []" "CHR ''.'' \<notin> set g"
    "wildcard_lang (q # ps) t" by blast
  have len: "length p = length a" using h(2) by (metis eq_ignore_ascii_case_def length_lower)
  have "length g \<in> set [1..<Suc (length h - length p)]" using h(1,3) len
    by (auto simp: Suc_le_eq simp del: upt_Suc)
  then show "wildcard_lang (p # q # ps) h"
    using h len by (auto simp: list_ex_iff simp del: upt_Suc intro!: bexI [of _ "length g"])
qed

declare wildcard_lang.simps(3) [simp del]
declare wildcard_lang_split [simp]

text \<open>
  \<open>regex\<close>: a pattern without special characters matches where it occurs as a substring; an anchored
  case-insensitive pattern of escaped literals and \<open>[^.]+\<close> matches the language above (ASCII text).
\<close>

definition regex_laws :: "ext \<Rightarrow> bool" where
  "regex_laws X \<longleftrightarrow>
     (\<forall>p h. p \<noteq> [] \<and> \<not> list_ex is_regex_meta_byte p \<and> regex_is_match X p h \<longrightarrow> contains_str p h) \<and>
     (\<forall>p h. is_ascii p \<and> is_ascii h \<longrightarrow>
        regex_is_match X (wildcard_regex X p) h = wildcard_lang (split_on (CHR ''*'') p) h)"

definition ext_laws :: "ext \<Rightarrow> bool" where
  "ext_laws X \<longleftrightarrow> ipnet_laws X \<and> iprange_laws X \<and> regex_laws X"

lemma trunc_net_contains [simp]:
  "ext_laws X \<Longrightarrow> net_contains X (trunc_net X n) ip = net_contains X n ip"
  by (simp add: ext_laws_def ipnet_laws_def)

lemma show_trunc_inject:
  "ext_laws X \<Longrightarrow> show_net X (trunc_net X a) = show_net X (trunc_net X b) \<Longrightarrow> trunc_net X a = trunc_net X b"
  unfolding ext_laws_def ipnet_laws_def by blast

lemma range_contains_sound:
  "ext_laws X \<Longrightarrow> range_contains X r n \<Longrightarrow> net_contains X n ip \<Longrightarrow> range_has X r ip"
  unfolding ext_laws_def iprange_laws_def by blast

lemma range_contains_host:
  assumes "ext_laws X"
  shows "range_contains X (RangeSimplify r) (host_net ip) \<longleftrightarrow> range_has X r ip"
proof
  assume "range_contains X (RangeSimplify r) (host_net ip)"
  moreover have "net_contains X (host_net ip) ip"
    using assms by (simp add: ext_laws_def iprange_laws_def)
  ultimately have "range_has X (RangeSimplify r) ip" using range_contains_sound [OF assms] by blast
  then show "range_has X r ip" by simp
next
  assume "range_has X r ip"
  then show "range_contains X (RangeSimplify r) (host_net ip)"
    using assms by (simp add: ext_laws_def iprange_laws_def)
qed

lemma regex_literal:
  "ext_laws X \<Longrightarrow> p \<noteq> [] \<Longrightarrow> \<not> list_ex is_regex_meta_byte p \<Longrightarrow> regex_is_match X p h \<Longrightarrow> contains_str p h"
  unfolding ext_laws_def regex_laws_def by blast

lemma wildcard_regex_match:
  "ext_laws X \<Longrightarrow> is_ascii p \<Longrightarrow> is_ascii h \<Longrightarrow>
   regex_is_match X (wildcard_regex X p) h = wildcard_lang (split_on (CHR ''*'') p) h"
  unfolding ext_laws_def regex_laws_def by blast

end
