(* ===== verification/Trie.thy ===== *)
theory Trie
  imports Prelude "HOL-Library.AList"
begin

section \<open>The domain trie (crates/meow-trie/src/trie.rs)\<close>

text \<open>
  A trie over the labels of a domain, read from the right. While it is being built a node keeps
  its children in a hash map, modelled as an association list with distinct keys whose order
  stands for the map's iteration order; \<open>seal\<close> turns every map into a slice sorted by key, which
  the searches probe by binary search. A node has three optional values: for the domain itself
  (\<open>Exact\<close>), for one more label (\<open>Star\<close>) and for one or more labels (\<open>Dot\<close>).
\<close>

subsection \<open>Data\<close>

datatype 'a build_node =
  BuildNode (bn_children: "(string \<times> 'a build_node) list")
    (bn_exact: "'a option") (bn_star: "'a option") (bn_dot: "'a option")

datatype 'a sealed_node =
  SealedNode (sn_children: "(string \<times> 'a sealed_node) list")
    (sn_exact: "'a option") (sn_star: "'a option") (sn_dot: "'a option")

datatype 'a trie_state = Building "'a build_node" | Sealed "'a sealed_node"

record 'a domain_trie =
  trie_state :: "'a trie_state"
  trie_len :: nat

datatype match_kind = Exact | Star | Dot

definition build_default :: "'a build_node" where
  "build_default = BuildNode [] None None None"

fun into_sealed :: "'a build_node \<Rightarrow> 'a sealed_node" where
  "into_sealed (BuildNode cs e s d) =
     SealedNode (sort_key fst (map (\<lambda>(k, v). (k, into_sealed v)) cs)) e s d"

definition trie_new :: "'a domain_trie" where
  "trie_new = \<lparr>trie_state = Building build_default, trie_len = 0\<rparr>"

subsection \<open>Insertion and sealing\<close>

definition get_or_insert :: "'a option \<Rightarrow> 'a \<Rightarrow> 'a option" where
  "get_or_insert slot v = (case slot of Some old \<Rightarrow> Some old | None \<Rightarrow> Some v)"

fun insert_labels :: "string list \<Rightarrow> 'a \<Rightarrow> match_kind \<Rightarrow> 'a build_node \<Rightarrow> 'a build_node" where
  "insert_labels [] v k (BuildNode cs e s d) =
     (case k of
        Exact \<Rightarrow> BuildNode cs (get_or_insert e v) s d
      | Star \<Rightarrow> BuildNode cs e (get_or_insert s v) d
      | Dot \<Rightarrow> BuildNode cs e s (get_or_insert d v))"
| "insert_labels (l # ls) v k (BuildNode cs e s d) =
     BuildNode
       (AList.update l
          (insert_labels ls v k (case map_of cs l of Some n \<Rightarrow> n | None \<Rightarrow> build_default)) cs)
       e s d"

definition insert_into_tree :: "'a domain_trie \<Rightarrow> string \<Rightarrow> 'a \<Rightarrow> match_kind \<Rightarrow> 'a domain_trie" where
  "insert_into_tree t base v k =
     (case trie_state t of
        Building root \<Rightarrow>
          t\<lparr>trie_state := Building (insert_labels (rsplit (CHR ''.'') base) v k root)\<rparr>
      | Sealed _ \<Rightarrow> t)"

definition trie_insert :: "'a domain_trie \<Rightarrow> string \<Rightarrow> 'a \<Rightarrow> 'a domain_trie \<times> bool" where
  "trie_insert t domain v =
     (let d = to_ascii_lowercase (trim domain) in
      if d = [] then (t, False)
      else case strip_prefix ''+.'' d of
        Some rest \<Rightarrow>
          if rest = [] then (t, False)
          else (let t1 = insert_into_tree t rest v Star;
                    t2 = insert_into_tree t1 rest v Dot
                in (t2\<lparr>trie_len := trie_len t2 + 2\<rparr>, True))
      | None \<Rightarrow>
        (case strip_prefix ''*.'' d of
          Some rest \<Rightarrow>
            if rest = [] then (t, False)
            else (let t1 = insert_into_tree t rest v Star
                  in (t1\<lparr>trie_len := trie_len t1 + 1\<rparr>, True))
        | None \<Rightarrow>
          (case strip_prefix ''.'' d of
            Some rest \<Rightarrow>
              if rest = [] then (t, False)
              else (let t1 = insert_into_tree t rest v Dot
                    in (t1\<lparr>trie_len := trie_len t1 + 1\<rparr>, True))
          | None \<Rightarrow>
              (let t1 = insert_into_tree t d v Exact
               in (t1\<lparr>trie_len := trie_len t1 + 1\<rparr>, True)))))"

definition trie_seal :: "'a domain_trie \<Rightarrow> 'a domain_trie" where
  "trie_seal t =
     (case trie_state t of
        Building root \<Rightarrow> t\<lparr>trie_state := Sealed (into_sealed root)\<rparr>
      | Sealed _ \<Rightarrow> t)"

definition trie_is_empty :: "'a domain_trie \<Rightarrow> bool" where
  "trie_is_empty t \<longleftrightarrow> trie_len t = 0"

subsection \<open>Searching\<close>

text \<open>
  The four searches for the most specific pattern run the same loop and differ in how a node's
  child for a label is found; so do the two searches for the smallest value. The loops are stated
  once, over the child lookup and the three value slots of a node.
\<close>

fun search_loop ::
  "('n \<Rightarrow> string \<Rightarrow> 'n option) \<Rightarrow> ('n \<Rightarrow> 'a option) \<Rightarrow> ('n \<Rightarrow> 'a option) \<Rightarrow> ('n \<Rightarrow> 'a option) \<Rightarrow>
   nat \<Rightarrow> nat \<Rightarrow> 'n \<Rightarrow> 'a option \<Rightarrow> string list \<Rightarrow> 'a option" where
  "search_loop child exact star dot n d node best [] = best"
| "search_loop child exact star dot n d node best (l # ls) =
     (case child node l of
        None \<Rightarrow> best
      | Some c \<Rightarrow>
          (let remaining = n - d - 1 in
           if remaining = 0 then
             (case exact c of
                Some v \<Rightarrow> Some v
              | None \<Rightarrow> search_loop child exact star dot n (d + 1) c best ls)
           else if remaining = 1 then
             search_loop child exact star dot n (d + 1) c
               (case star c of
                  Some v \<Rightarrow> Some v
                | None \<Rightarrow> (case dot c of Some v \<Rightarrow> Some v | None \<Rightarrow> best)) ls
           else
             search_loop child exact star dot n (d + 1) c
               (case dot c of Some v \<Rightarrow> Some v | None \<Rightarrow> best) ls))"

definition fold_min :: "'a::linorder option \<Rightarrow> 'a option \<Rightarrow> 'a option" where
  "fold_min best cand =
     (case cand of
        None \<Rightarrow> best
      | Some c \<Rightarrow> (case best of Some b \<Rightarrow> (if b \<le> c then best else Some c) | None \<Rightarrow> Some c))"

fun search_min_loop ::
  "('n \<Rightarrow> string \<Rightarrow> 'n option) \<Rightarrow> ('n \<Rightarrow> 'a option) \<Rightarrow> ('n \<Rightarrow> 'a option) \<Rightarrow> ('n \<Rightarrow> 'a option) \<Rightarrow>
   nat \<Rightarrow> nat \<Rightarrow> 'n \<Rightarrow> 'a::linorder option \<Rightarrow> string list \<Rightarrow> 'a option" where
  "search_min_loop child exact star dot n d node best [] = best"
| "search_min_loop child exact star dot n d node best (l # ls) =
     (case child node l of
        None \<Rightarrow> best
      | Some c \<Rightarrow>
          (let remaining = n - d - 1;
               best' = (if remaining = 0 then fold_min best (exact c)
                        else fold_min (if remaining = 1 then fold_min best (star c) else best) (dot c))
           in search_min_loop child exact star dot n (d + 1) c best' ls))"

definition label_count :: "string \<Rightarrow> nat" where
  "label_count q = length (filter (\<lambda>c. c = CHR ''.'') q) + 1"

definition cmp_ascii_lower_to_mixed :: "string \<Rightarrow> string \<Rightarrow> ordering" where
  "cmp_ascii_lower_to_mixed lo mixed =
     (case List.find (\<lambda>(a, b). a \<noteq> lower_char b) (zip lo mixed) of
        Some (a, b) \<Rightarrow> (if a < lower_char b then Less else Greater)
      | None \<Rightarrow>
          (if length lo < length mixed then Less
           else if length lo = length mixed then Equal else Greater))"

definition build_child :: "'a build_node \<Rightarrow> string \<Rightarrow> 'a build_node option" where
  "build_child n l = map_of (bn_children n) l"

definition build_child_ci :: "'a build_node \<Rightarrow> string \<Rightarrow> 'a build_node option" where
  "build_child_ci n l = map_option snd (List.find (\<lambda>(k, _). eq_ignore_ascii_case k l) (bn_children n))"

definition sealed_child :: "'a sealed_node \<Rightarrow> string \<Rightarrow> 'a sealed_node option" where
  "sealed_child n l =
     map_option (\<lambda>i. snd (sn_children n ! i))
       (binary_search_by (\<lambda>(k, _). cmp_bytes k l) (sn_children n))"

definition sealed_child_ci :: "'a sealed_node \<Rightarrow> string \<Rightarrow> 'a sealed_node option" where
  "sealed_child_ci n l =
     map_option (\<lambda>i. snd (sn_children n ! i))
       (binary_search_by (\<lambda>(k, _). cmp_ascii_lower_to_mixed k l) (sn_children n))"

definition search_build :: "'a build_node \<Rightarrow> string \<Rightarrow> 'a option" where
  "search_build root q =
     search_loop build_child bn_exact bn_star bn_dot (label_count q) 0 root None (rsplit (CHR ''.'') q)"

definition search_build_case_insensitive :: "'a build_node \<Rightarrow> string \<Rightarrow> 'a option" where
  "search_build_case_insensitive root q =
     search_loop build_child_ci bn_exact bn_star bn_dot (label_count q) 0 root None (rsplit (CHR ''.'') q)"

definition search_sealed :: "'a sealed_node \<Rightarrow> string \<Rightarrow> 'a option" where
  "search_sealed root q =
     search_loop sealed_child sn_exact sn_star sn_dot (label_count q) 0 root None (rsplit (CHR ''.'') q)"

definition search_sealed_case_insensitive :: "'a sealed_node \<Rightarrow> string \<Rightarrow> 'a option" where
  "search_sealed_case_insensitive root q =
     search_loop sealed_child_ci sn_exact sn_star sn_dot (label_count q) 0 root None (rsplit (CHR ''.'') q)"

definition search_min_build :: "'a::linorder build_node \<Rightarrow> string \<Rightarrow> 'a option" where
  "search_min_build root q =
     search_min_loop build_child bn_exact bn_star bn_dot (label_count q) 0 root None (rsplit (CHR ''.'') q)"

definition search_min_sealed :: "'a::linorder sealed_node \<Rightarrow> string \<Rightarrow> 'a option" where
  "search_min_sealed root q =
     search_min_loop sealed_child sn_exact sn_star sn_dot (label_count q) 0 root None (rsplit (CHR ''.'') q)"

definition search_inner :: "'a domain_trie \<Rightarrow> string \<Rightarrow> 'a option" where
  "search_inner t q =
     (if q = [] then None
      else case trie_state t of
        Building root \<Rightarrow> search_build root q
      | Sealed root \<Rightarrow> search_sealed root q)"

definition search_ascii_case_insensitive_inner :: "'a domain_trie \<Rightarrow> string \<Rightarrow> 'a option" where
  "search_ascii_case_insensitive_inner t q =
     (if q = [] then None
      else case trie_state t of
        Building root \<Rightarrow> search_build_case_insensitive root q
      | Sealed root \<Rightarrow> search_sealed_case_insensitive root q)"

abbreviation trim_end_dots :: "string \<Rightarrow> string" where
  "trim_end_dots \<equiv> trim_end_matches (\<lambda>c. c = CHR ''.'')"

definition trie_search :: "'a domain_trie \<Rightarrow> string \<Rightarrow> 'a option" where
  "trie_search t domain =
     (if trie_len t = 0 then None
      else let trimmed = trim domain in
        if list_ex upper_char trimmed
        then search_ascii_case_insensitive_inner t (trim_end_dots trimmed)
        else search_inner t (trim_end_dots trimmed))"

definition search_normalized :: "'a domain_trie \<Rightarrow> string \<Rightarrow> 'a option" where
  "search_normalized t domain = (if trie_len t = 0 then None else search_inner t (trim_end_dots domain))"

definition search_min_normalized :: "'a::linorder domain_trie \<Rightarrow> string \<Rightarrow> 'a option" where
  "search_min_normalized t domain =
     (if trie_len t = 0 then None
      else let query = trim_end_dots domain in
        if query = [] then None
        else case trie_state t of
          Building root \<Rightarrow> search_min_build root query
        | Sealed root \<Rightarrow> search_min_sealed root query)"


subsection \<open>What a trie holds\<close>

text \<open>The value stored under a path of labels (rightmost label first) for one kind of match.\<close>

fun kind_value :: "match_kind \<Rightarrow> 'a build_node \<Rightarrow> 'a option" where
  "kind_value Exact n = bn_exact n"
| "kind_value Star n = bn_star n"
| "kind_value Dot n = bn_dot n"

fun slot :: "'a build_node \<Rightarrow> string list \<Rightarrow> match_kind \<Rightarrow> 'a option" where
  "slot n [] k = kind_value k n"
| "slot n (l # ls) k = (case build_child n l of None \<Rightarrow> None | Some c \<Rightarrow> slot c ls k)"

fun build_ok :: "'a build_node \<Rightarrow> bool" where
  "build_ok (BuildNode cs e s d) \<longleftrightarrow>
     distinct (map fst cs) \<and> list_all (\<lambda>(l, c). is_lower l \<and> build_ok c) cs"

lemma slot_default [simp]: "slot build_default ls k = None"
  by (cases ls; cases k) (simp_all add: build_default_def build_child_def)

lemma build_ok_default [simp]: "build_ok build_default"
  by (simp add: build_default_def)

lemma slot_insert:
  "slot (insert_labels ls v k n) ls' k' =
     (if ls' = ls \<and> k' = k then get_or_insert (slot n ls k) v else slot n ls' k')"
proof (induction ls arbitrary: n ls')
  case Nil
  show ?case
    by (cases n; cases ls'; cases k; cases k') (simp_all add: build_child_def)
next
  case (Cons l ls)
  obtain cs e s d where n: "n = BuildNode cs e s d" by (cases n)
  show ?case
  proof (cases ls')
    case Nil
    then show ?thesis by (cases k') (simp_all add: n)
  next
    case (Cons m ms)
    with Cons.IH n show ?thesis
      by (cases "m = l"; cases "map_of cs l") (auto simp: build_child_def update_conv')
  qed
qed

lemma set_update_subset: "(a, b) \<in> set (AList.update k v al) \<Longrightarrow> (a, b) \<in> set al \<or> (a = k \<and> b = v)"
  by (induction al) (auto split: if_splits)

lemma build_ok_insert:
  "build_ok n \<Longrightarrow> list_all is_lower ls \<Longrightarrow> build_ok (insert_labels ls v k n)"
proof (induction ls arbitrary: n)
  case Nil
  then show ?case by (cases n; cases k) simp_all
next
  case (Cons l ls)
  obtain cs e s d where n: "n = BuildNode cs e s d" by (cases n)
  let ?c = "case map_of cs l of Some m \<Rightarrow> m | None \<Rightarrow> build_default"
  have "build_ok ?c"
    using Cons.prems n by (auto split: option.splits simp: list_all_iff dest: map_of_SomeD)
  then have "build_ok (insert_labels ls v k ?c)" using Cons by simp
  then have "list_all (\<lambda>(m, c). is_lower m \<and> build_ok c) (AList.update l (insert_labels ls v k ?c) cs)"
    using Cons.prems n by (fastforce simp: list_all_iff dest: set_update_subset)
  with Cons.prems n show ?case by (simp add: distinct_update)
qed

lemma build_ok_child: "build_ok n \<Longrightarrow> build_child n l = Some c \<Longrightarrow> build_ok c \<and> is_lower l"
  by (cases n) (auto simp: build_child_def list_all_iff dest: map_of_SomeD)

subsection \<open>Two trees that agree label by label give the same searches\<close>

locale tree_sim =
  fixes R :: "'n \<Rightarrow> 'm \<Rightarrow> bool"
    and f :: "string \<Rightarrow> string"
    and child1 :: "'n \<Rightarrow> string \<Rightarrow> 'n option"
    and child2 :: "'m \<Rightarrow> string \<Rightarrow> 'm option"
    and exact1 star1 dot1 :: "'n \<Rightarrow> 'a option"
    and exact2 star2 dot2 :: "'m \<Rightarrow> 'a option"
  assumes sim_child: "R n m \<Longrightarrow> rel_option R (child1 n l) (child2 m (f l))"
    and sim_exact: "R n m \<Longrightarrow> exact1 n = exact2 m"
    and sim_star: "R n m \<Longrightarrow> star1 n = star2 m"
    and sim_dot: "R n m \<Longrightarrow> dot1 n = dot2 m"
begin

lemma loop_sim:
  "R n m \<Longrightarrow>
   search_loop child1 exact1 star1 dot1 N d n best ls =
   search_loop child2 exact2 star2 dot2 N d m best (map f ls)"
proof (induction ls arbitrary: n m d best)
  case (Cons l ls)
  from sim_child [OF Cons.prems, of l] show ?case
  proof (cases rule: option.rel_cases)
    case (Some c c')
    note [simp] = sim_exact [OF Some(3)] sim_star [OF Some(3)] sim_dot [OF Some(3)] Cons.IH [OF Some(3)]
    from Some(1,2) show ?thesis by (auto simp: Let_def split: option.split)
  qed simp
qed simp

end

locale tree_min_sim = tree_sim R f child1 child2 exact1 star1 dot1 exact2 star2 dot2
  for R :: "'n \<Rightarrow> 'm \<Rightarrow> bool"
    and f :: "string \<Rightarrow> string"
    and child1 :: "'n \<Rightarrow> string \<Rightarrow> 'n option"
    and child2 :: "'m \<Rightarrow> string \<Rightarrow> 'm option"
    and exact1 star1 dot1 :: "'n \<Rightarrow> 'a::linorder option"
    and exact2 star2 dot2 :: "'m \<Rightarrow> 'a option"
begin

lemma min_loop_sim:
  "R n m \<Longrightarrow>
   search_min_loop child1 exact1 star1 dot1 N d n best ls =
   search_min_loop child2 exact2 star2 dot2 N d m best (map f ls)"
proof (induction ls arbitrary: n m d best)
  case (Cons l ls)
  from sim_child [OF Cons.prems, of l] show ?case
  proof (cases rule: option.rel_cases)
    case (Some c c')
    note [simp] = sim_exact [OF Some(3)] sim_star [OF Some(3)] sim_dot [OF Some(3)] Cons.IH [OF Some(3)]
    from Some(1,2) show ?thesis by (simp add: Let_def)
  qed simp
qed simp

end

definition seal_rel :: "'a build_node \<Rightarrow> 'a sealed_node \<Rightarrow> bool" where
  "seal_rel b s \<longleftrightarrow> build_ok b \<and> s = into_sealed b"

lemma sn_into_sealed [simp]:
  "sn_exact (into_sealed b) = bn_exact b"
  "sn_star (into_sealed b) = bn_star b"
  "sn_dot (into_sealed b) = bn_dot b"
  by (cases b; simp)+

lemma map_of_sort_key:
  "distinct (map fst xs) \<Longrightarrow> map_of (sort_key fst xs) = map_of xs"
  by (rule map_of_inject_set [THEN iffD2]) (simp_all add: distinct_map)

lemma distinct_sort_key:
  "distinct (map fst xs) \<Longrightarrow> distinct (map fst (sort_key fst xs))"
  by (simp add: distinct_map)

lemma sealed_children:
  assumes "build_ok b"
  shows "sorted (map fst (sn_children (into_sealed b)))"
    and "distinct (map fst (sn_children (into_sealed b)))"
    and "map_of (sn_children (into_sealed b)) l = map_option into_sealed (build_child b l)"
proof -
  obtain cs e s d where b: "b = BuildNode cs e s d" by (cases b)
  let ?cs = "map (\<lambda>(k, v). (k, into_sealed v)) cs"
  have fst_cs: "map fst ?cs = map fst cs" by (simp add: case_prod_beta comp_def)
  have dist: "distinct (map fst ?cs)" unfolding fst_cs using assms b by simp
  show "sorted (map fst (sn_children (into_sealed b)))"
    using b by simp
  show "distinct (map fst (sn_children (into_sealed b)))"
    using b distinct_sort_key [OF dist] by simp
  show "map_of (sn_children (into_sealed b)) l = map_option into_sealed (build_child b l)"
    using b dist by (simp add: map_of_sort_key build_child_def map_of_map)
qed

lemma sealed_child_into_sealed:
  "build_ok b \<Longrightarrow> sealed_child (into_sealed b) l = map_option into_sealed (build_child b l)"
  unfolding sealed_child_def by (simp add: binary_search_map_of sealed_children)

interpretation seal_sim:
  tree_sim seal_rel "\<lambda>l. l" build_child sealed_child bn_exact bn_star bn_dot sn_exact sn_star sn_dot
proof
  fix n :: "'c build_node" and m l
  assume "seal_rel n m"
  then show "rel_option seal_rel (build_child n l) (sealed_child m l)"
    by (cases "build_child n l")
      (auto simp: seal_rel_def sealed_child_into_sealed dest: build_ok_child)
qed (auto simp: seal_rel_def)

interpretation seal_min:
  tree_min_sim seal_rel "\<lambda>l. l" build_child sealed_child bn_exact bn_star bn_dot sn_exact sn_star sn_dot
  by unfold_locales

subsection \<open>Mixed-case queries\<close>

lemma cmp_ascii_lower_to_mixed_Cons:
  "cmp_ascii_lower_to_mixed (a # k) (b # l) =
     (if a = lower_char b then cmp_ascii_lower_to_mixed k l
      else if a < lower_char b then Less else Greater)"
  by (simp add: cmp_ascii_lower_to_mixed_def)

lemma cmp_ascii_lower_to_mixed_eq: "cmp_ascii_lower_to_mixed k l = cmp_bytes k (to_ascii_lowercase l)"
proof (induction k arbitrary: l)
  case Nil
  show ?case by (cases l) (simp_all add: cmp_ascii_lower_to_mixed_def cmp_bytes_def)
next
  case (Cons a k)
  show ?case
  proof (cases l)
    case Nil
    then show ?thesis by (simp add: cmp_ascii_lower_to_mixed_def cmp_bytes_def)
  next
    case (Cons b l')
    show ?thesis
      unfolding Cons lower_Cons cmp_ascii_lower_to_mixed_Cons Cons.IH
      by (simp add: cmp_bytes_def)
  qed
qed

lemma find_key_map_of:
  "list_all (\<lambda>(k, _). is_lower k) cs \<Longrightarrow>
   map_option snd (List.find (\<lambda>(k, _). eq_ignore_ascii_case k l) cs) = map_of cs (to_ascii_lowercase l)"
  by (induction cs) (auto simp: eq_ignore_ascii_case_def is_lower_fixed)

lemma build_child_ci_eq:
  "build_ok n \<Longrightarrow> build_child_ci n l = build_child n (to_ascii_lowercase l)"
  by (cases n) (auto simp: build_child_ci_def build_child_def list_all_iff intro!: find_key_map_of)

lemma sealed_child_ci_eq: "sealed_child_ci n l = sealed_child n (to_ascii_lowercase l)"
  by (simp add: sealed_child_ci_def sealed_child_def cmp_ascii_lower_to_mixed_eq)

definition same_build :: "'a build_node \<Rightarrow> 'a build_node \<Rightarrow> bool" where
  "same_build n m \<longleftrightarrow> build_ok n \<and> m = n"

interpretation build_ci_sim:
  tree_sim same_build to_ascii_lowercase build_child_ci build_child
    bn_exact bn_star bn_dot bn_exact bn_star bn_dot
proof
  fix n m :: "'c build_node" and l
  assume "same_build n m"
  then show "rel_option same_build (build_child_ci n l) (build_child m (to_ascii_lowercase l))"
    by (cases "build_child n (to_ascii_lowercase l)")
      (auto simp: same_build_def build_child_ci_eq dest: build_ok_child)
qed (auto simp: same_build_def)

interpretation sealed_ci_sim:
  tree_sim "(=)" to_ascii_lowercase sealed_child_ci sealed_child
    sn_exact sn_star sn_dot sn_exact sn_star sn_dot
  by unfold_locales (auto simp: sealed_child_ci_eq option.rel_eq)

lemma label_count_lower [simp]: "label_count (to_ascii_lowercase q) = label_count q"
  by (simp add: label_count_def to_ascii_lowercase_def filter_map comp_def)

lemma rsplit_lower: "rsplit (CHR ''.'') (to_ascii_lowercase q) = map to_ascii_lowercase (rsplit (CHR ''.'') q)"
  by (simp add: rsplit_def split_on_dot_lower rev_map)

lemma search_build_ci_eq:
  "build_ok n \<Longrightarrow> search_build_case_insensitive n q = search_build n (to_ascii_lowercase q)"
  unfolding search_build_case_insensitive_def search_build_def rsplit_lower
  by (simp add: build_ci_sim.loop_sim [of n n] same_build_def)

lemma search_sealed_ci_eq: "search_sealed_case_insensitive n q = search_sealed n (to_ascii_lowercase q)"
  unfolding search_sealed_case_insensitive_def search_sealed_def rsplit_lower
  by (simp add: sealed_ci_sim.loop_sim [of n n])

lemma search_sealed_eq: "build_ok b \<Longrightarrow> search_sealed (into_sealed b) q = search_build b q"
  unfolding search_sealed_def search_build_def
  using seal_sim.loop_sim [of b "into_sealed b"] by (simp add: seal_rel_def)

lemma search_min_sealed_eq: "build_ok b \<Longrightarrow> search_min_sealed (into_sealed b) q = search_min_build b q"
  unfolding search_min_sealed_def search_min_build_def
  using seal_min.min_loop_sim [of b "into_sealed b"] by (simp add: seal_rel_def)

subsection \<open>What a search returns\<close>

text \<open>
  A stored path \<open>B\<close> of kind \<open>k\<close> matches the label path \<open>L\<close> of a query: an exact entry matches
  itself, a star entry one extra label, a dot entry one or more extra labels. Among the entries
  that match one query the more specific one has the greater rank.
\<close>

definition path_matches :: "string list \<Rightarrow> match_kind \<Rightarrow> string list \<Rightarrow> bool" where
  "path_matches B k L \<longleftrightarrow>
     B \<noteq> [] \<and> prefix B L \<and>
     (case k of Exact \<Rightarrow> length L = length B
      | Star \<Rightarrow> length L = length B + 1
      | Dot \<Rightarrow> length L > length B)"

definition rank :: "string list \<Rightarrow> match_kind \<Rightarrow> nat" where
  "rank B k = 2 * length B + (if k = Dot then 0 else 1)"

fun candidates :: "'a build_node \<Rightarrow> string list \<Rightarrow> 'a option list" where
  "candidates n [] = []"
| "candidates n (l # ls) =
     (case build_child n l of
        None \<Rightarrow> []
      | Some c \<Rightarrow> candidates c ls @
          (if ls = [] then [bn_exact c]
           else (if length ls = 1 then [bn_star c] else []) @ [bn_dot c]))"

lemma search_loop_candidates:
  "search_loop build_child bn_exact bn_star bn_dot (d + length ls) d n best ls =
     find_map (\<lambda>x. x) (candidates n ls @ [best])"
proof (induction ls arbitrary: n d best)
  case (Cons l ls)
  from Cons [of "d + 1"] show ?case
    by (auto simp: Let_def find_map_append split: option.splits)
qed (simp split: option.splits)

definition least_of :: "'a::linorder option set \<Rightarrow> 'a option" where
  "least_of C = (let S = Option.these C in if S = {} then None else Some (Min S))"

lemma finite_these: "finite C \<Longrightarrow> finite (Option.these C)"
  by (simp add: Option.these_def)

lemma least_of_simps [simp]:
  "least_of {} = None" "least_of (insert None C) = least_of C"
  by (simp_all add: least_of_def)

lemma least_of_fold_min:
  assumes "finite C"
  shows "least_of (insert (fold_min b c) C) = least_of (insert b (insert c C))"
proof (cases b; cases c)
  fix x y
  assume "b = Some x" "c = Some y"
  then show ?thesis
    using finite_these [OF assms]
    by (cases "Option.these C = {}") (auto simp: fold_min_def least_of_def min_def)
qed (simp_all add: fold_min_def insert_commute [of _ None])

lemma least_of_fold_min2:
  "finite C \<Longrightarrow> least_of (insert x (insert (fold_min b c) C)) = least_of (insert x (insert b (insert c C)))"
  using least_of_fold_min [of "insert x C" b c] by (simp add: insert_commute)

lemma search_min_loop_candidates:
  "search_min_loop build_child bn_exact bn_star bn_dot (d + length ls) d n best ls =
     least_of (insert best (set (candidates n ls)))"
proof (induction ls arbitrary: n d best)
  case Nil
  show ?case by (cases best) (simp_all add: least_of_def)
next
  case (Cons l ls)
  show ?case
  proof (cases "build_child n l")
    case None
    then show ?thesis by (cases best) (simp_all add: least_of_def)
  next
    case (Some c)
    with Cons.IH [of "d + 1"] show ?thesis
      by (auto simp: Let_def least_of_fold_min least_of_fold_min2 insert_commute)
  qed
qed

lemma least_of_Some_iff:
  assumes "finite C"
  shows "least_of C = Some v \<longleftrightarrow> Some v \<in> C \<and> (\<forall>w. Some w \<in> C \<longrightarrow> v \<le> w)"
proof -
  have "least_of C = Some v \<longleftrightarrow> v \<in> Option.these C \<and> (\<forall>w \<in> Option.these C. v \<le> w)"
    using finite_these [OF assms] by (auto simp: least_of_def Let_def Min_eq_iff)
  then show ?thesis by (simp add: Ball_def in_these_eq)
qed

lemma least_of_None_iff: "least_of C = None \<longleftrightarrow> (\<forall>w. Some w \<notin> C)"
  by (auto simp: least_of_def Let_def in_these_eq [symmetric])

lemma match_kind_ex: "(\<exists>k. P k) \<longleftrightarrow> P Exact \<or> P Star \<or> P Dot"
  by (metis match_kind.exhaust)

lemma candidates_slot:
  "Some v \<in> set (candidates n ls) \<longleftrightarrow> (\<exists>B k. slot n B k = Some v \<and> path_matches B k ls)"
proof (induction ls arbitrary: n)
  case Nil
  show ?case by (simp add: path_matches_def)
next
  case (Cons l ls)
  show ?case
  proof (cases "build_child n l")
    case None
    then have "slot n B k = None" if "path_matches B k (l # ls)" for B k
      using that by (cases B) (auto simp: path_matches_def)
    with None show ?thesis by fastforce
  next
    case (Some c)
    have split: "(\<exists>B k. slot n B k = Some v \<and> path_matches B k (l # ls)) \<longleftrightarrow>
        (\<exists>k. kind_value k c = Some v \<and> path_matches [l] k (l # ls)) \<or>
        (\<exists>B k. slot c B k = Some v \<and> path_matches B k ls)" (is "?a \<longleftrightarrow> ?b \<or> ?c")
    proof
      assume ?a
      then obtain B k where B: "slot n B k = Some v" "path_matches B k (l # ls)" by blast
      then obtain B' where "B = l # B'" by (cases B) (auto simp: path_matches_def)
      with B Some show "?b \<or> ?c"
        by (cases "B' = []") (auto simp: path_matches_def split: match_kind.splits)
    next
      assume "?b \<or> ?c"
      then show ?a
      proof
        assume ?b
        then obtain k where "slot n [l] k = Some v" "path_matches [l] k (l # ls)" using Some by auto
        then show ?a by blast
      next
        assume ?c
        then obtain B k where "slot c B k = Some v" "path_matches B k ls" by blast
        then have "slot n (l # B) k = Some v" "path_matches (l # B) k (l # ls)"
          using Some by (auto simp: path_matches_def split: match_kind.splits)
        then show ?a by blast
      qed
    qed
    have "(\<exists>k. kind_value k c = Some v \<and> path_matches [l] k (l # ls)) \<longleftrightarrow>
        (ls = [] \<and> bn_exact c = Some v) \<or> (length ls = 1 \<and> bn_star c = Some v) \<or>
        (ls \<noteq> [] \<and> bn_dot c = Some v)"
      by (cases ls) (auto simp: match_kind_ex path_matches_def)
    with Cons.IH [of c] Some show ?thesis unfolding split by auto
  qed
qed

lemma path_matches_Cons:
  "path_matches B k (l # ls) \<longleftrightarrow>
     (B = [l] \<and> (case k of Exact \<Rightarrow> ls = [] | Star \<Rightarrow> length ls = 1 | Dot \<Rightarrow> ls \<noteq> [])) \<or>
     (\<exists>B'. B = l # B' \<and> path_matches B' k ls)"
  by (cases B; cases k) (auto simp: path_matches_def)

lemma rank_Cons: "rank (l # B) k = rank B k + 2"
  by (simp add: rank_def)

lemma candidates_best:
  assumes "find_map (\<lambda>x. x) (candidates n ls) = Some v"
  shows "\<exists>B k. slot n B k = Some v \<and> path_matches B k ls \<and>
    (\<forall>B' k' w. slot n B' k' = Some w \<and> path_matches B' k' ls \<longrightarrow> rank B' k' \<le> rank B k)"
  using assms
proof (induction ls arbitrary: n)
  case (Cons l ls)
  then obtain c where c: "build_child n l = Some c" by (auto split: option.splits)
  show ?case
  proof (cases "find_map (\<lambda>x. x) (candidates c ls)")
    case (Some v')
    then have "v' = v" using Cons.prems c by (simp add: find_map_append)
    with Some Cons.IH obtain B k where B: "slot c B k = Some v" "path_matches B k ls"
      and best: "\<forall>B' k' w. slot c B' k' = Some w \<and> path_matches B' k' ls \<longrightarrow> rank B' k' \<le> rank B k"
      by blast
    have "rank B' k' \<le> rank (l # B) k" if "slot n B' k' = Some w" "path_matches B' k' (l # ls)" for B' k' w
    proof (cases "B' = [l]")
      case True
      moreover have "1 \<le> length B" using B(2) by (auto simp: path_matches_def Suc_le_eq)
      ultimately show ?thesis by (simp add: rank_def)
    next
      case False
      then show ?thesis using that best c by (auto simp: path_matches_Cons rank_Cons)
    qed
    moreover have "slot n (l # B) k = Some v" "path_matches (l # B) k (l # ls)"
      using B c by (simp_all add: path_matches_Cons)
    ultimately show ?thesis by blast
  next
    case None
    then have none: "\<not> (slot c B k = Some w \<and> path_matches B k ls)" for B k w
      using candidates_slot [of w c ls] by (auto simp: find_map_None)
    have only: "B = [l]" if "slot n B k = Some w" "path_matches B k (l # ls)" for B k w
      using that none c by (auto simp: path_matches_Cons)
    define k where "k = (if ls = [] then Exact else if length ls = 1 \<and> bn_star c \<noteq> None then Star else Dot)"
    have "slot n [l] k = Some v" "path_matches [l] k (l # ls)"
      using Cons.prems c None
      by (auto simp: k_def find_map_append path_matches_Cons split: option.splits if_splits)
    moreover have "rank [l] k' \<le> rank [l] k" if "slot n [l] k' = Some w" "path_matches [l] k' (l # ls)" for k' w
      using that c by (cases k') (auto simp: k_def rank_def path_matches_def)
    ultimately show ?thesis using only by blast
  qed
qed simp

lemma rank_unique:
  "path_matches B k L \<Longrightarrow> path_matches B' k' L \<Longrightarrow> rank B k = rank B' k' \<Longrightarrow> B = B' \<and> k = k'"
proof -
  assume m: "path_matches B k L" "path_matches B' k' L" and r: "rank B k = rank B' k'"
  have len: "length B = length B'" "(k = Dot) = (k' = Dot)"
    using r by (auto simp: rank_def split: if_splits, presburger+)
  moreover have "take (length B) L = B" "take (length B') L = B'"
    using m by (simp_all add: path_matches_def take_is_prefix prefix_def, metis append_eq_conv_conj)+
  ultimately have "B = B'" by metis
  with m len show ?thesis by (cases k; cases k') (auto simp: path_matches_def)
qed

lemma candidates_best_iff:
  "find_map (\<lambda>x. x) (candidates n ls) = Some v \<longleftrightarrow>
   (\<exists>B k. slot n B k = Some v \<and> path_matches B k ls \<and>
     (\<forall>B' k' w. slot n B' k' = Some w \<and> path_matches B' k' ls \<longrightarrow> rank B' k' \<le> rank B k))" (is "?l \<longleftrightarrow> ?r")
proof
  assume ?r
  then obtain B k where B: "slot n B k = Some v" "path_matches B k ls"
    and best: "\<And>B' k' w. slot n B' k' = Some w \<Longrightarrow> path_matches B' k' ls \<Longrightarrow> rank B' k' \<le> rank B k" by blast
  from B have "Some v \<in> set (candidates n ls)" unfolding candidates_slot by (intro exI conjI)
  then obtain v' where v': "find_map (\<lambda>x. x) (candidates n ls) = Some v'"
    by (cases "find_map (\<lambda>x. x) (candidates n ls)") (auto simp: find_map_None)
  from candidates_best [OF v'] obtain B' k' where B': "slot n B' k' = Some v'" "path_matches B' k' ls"
    and best': "\<forall>B k w. slot n B k = Some w \<and> path_matches B k ls \<longrightarrow> rank B k \<le> rank B' k'" by (elim exE conjE)
  have "rank B k = rank B' k'" using best [OF B'] best' [rule_format, OF conjI, OF B] by simp
  then have "B = B' \<and> k = k'" by (rule rank_unique [OF B(2) B'(2)])
  with B(1) B'(1) v' show ?l by simp
qed (rule candidates_best)

lemma label_count_rsplit: "length (rsplit (CHR ''.'') q) = label_count q"
proof -
  have "length (split_on (CHR ''.'') q) = length (filter (\<lambda>c. c = CHR ''.'') q) + 1"
    by (induction q) (auto split: list.split)
  then show ?thesis by (simp add: rsplit_def label_count_def)
qed

lemma search_build_candidates: "search_build n q = find_map (\<lambda>x. x) (candidates n (rsplit (CHR ''.'') q))"
  using search_loop_candidates [of 0 "rsplit (CHR ''.'') q" n None]
  by (simp add: search_build_def label_count_rsplit find_map_append split: option.splits)

lemma search_min_build_candidates:
  "search_min_build n q = least_of (set (candidates n (rsplit (CHR ''.'') q)))"
  using search_min_loop_candidates [of 0 "rsplit (CHR ''.'') q" n None]
  by (simp add: search_min_build_def label_count_rsplit)

subsection \<open>Domain patterns\<close>

text \<open>
  The entries one pattern stores, read off the pattern itself: \<open>+.b\<close> a star and a dot entry under
  \<open>b\<close>, \<open>*.b\<close> a star entry, \<open>.b\<close> a dot entry, and a plain domain an exact entry.
\<close>

definition domain_entries :: "string \<Rightarrow> (string \<times> match_kind) list" where
  "domain_entries domain =
     (let d = to_ascii_lowercase (trim domain) in
      if d = [] \<or> d = ''+.'' \<or> d = ''*.'' \<or> d = ''.'' then []
      else if starts_with ''+.'' d then [(drop 2 d, Star), (drop 2 d, Dot)]
      else if starts_with ''*.'' d then [(drop 2 d, Star)]
      else if starts_with ''.'' d then [(drop 1 d, Dot)]
      else [(d, Exact)])"

definition entry_matches :: "string \<times> match_kind \<Rightarrow> string \<Rightarrow> bool" where
  "entry_matches e q =
     (case e of
        (b, Exact) \<Rightarrow> q = b
      | (b, Star) \<Rightarrow> ends_with (CHR ''.'' # b) q \<and> CHR ''.'' \<notin> set (take (length q - length b - 1) q)
      | (b, Dot) \<Rightarrow> ends_with (CHR ''.'' # b) q)"

definition domain_pattern_matches :: "string \<Rightarrow> string \<Rightarrow> bool" where
  "domain_pattern_matches domain q \<longleftrightarrow> list_ex (\<lambda>e. entry_matches e q) (domain_entries domain)"

definition trie_of :: "(string \<times> 'a) list \<Rightarrow> 'a domain_trie" where
  "trie_of ps = fold (\<lambda>(d, v) t. fst (trie_insert t d v)) ps trie_new"

definition entry_value :: "(string \<times> 'a) list \<Rightarrow> string \<times> match_kind \<Rightarrow> 'a option" where
  "entry_value ps e = find_map (\<lambda>(d, v). if e \<in> set (domain_entries d) then Some v else None) ps"

lemma ends_with_iff: "ends_with p s \<longleftrightarrow> (\<exists>a. s = a @ p)"
  unfolding ends_with_def by (metis append_take_drop_id append_eq_conv_conj diff_le_self
    length_append length_drop le_add2 add_diff_cancel_right')

lemma prefix_same_length: "length b = length a \<Longrightarrow> prefix a b \<longleftrightarrow> a = b"
  by (auto simp: prefix_def)

lemma entry_matches_path:
  "entry_matches (b, k) q \<longleftrightarrow> path_matches (rsplit (CHR ''.'') b) k (rsplit (CHR ''.'') q)"
proof (cases k)
  case Exact
  then show ?thesis
    by (auto simp: entry_matches_def path_matches_def rsplit_def prefix_same_length split_on_inject)
next
  case Star
  have "entry_matches (b, Star) q \<longleftrightarrow> (\<exists>a. CHR ''.'' \<notin> set a \<and> q = a @ CHR ''.'' # b)"
    by (auto simp: entry_matches_def ends_with_iff)
  also have "\<dots> \<longleftrightarrow> (\<exists>x. split_on (CHR ''.'') q = x # split_on (CHR ''.'') b)"
    by (auto simp: split_on_cons_iff split_on_inject)
  also have "\<dots> \<longleftrightarrow> path_matches (rsplit (CHR ''.'') b) Star (rsplit (CHR ''.'') q)"
    by (auto simp: path_matches_def rsplit_def prefix_def rev_eq_append_conv)
      (metis One_nat_def Suc_eq_plus1_left add_right_cancel length_0_conv length_Suc_conv length_append length_rev
        append_Cons append_Nil rev_singleton_conv)
  finally show ?thesis using Star by simp
next
  case Dot
  have "entry_matches (b, Dot) q \<longleftrightarrow> (\<exists>a. q = a @ CHR ''.'' # b)"
    by (auto simp: entry_matches_def ends_with_iff)
  also have "\<dots> \<longleftrightarrow> (\<exists>xs. xs \<noteq> [] \<and> split_on (CHR ''.'') q = xs @ split_on (CHR ''.'') b)"
    by (simp add: split_on_suffix_iff)
  also have "\<dots> \<longleftrightarrow> path_matches (rsplit (CHR ''.'') b) Dot (rsplit (CHR ''.'') q)"
    by (auto simp: path_matches_def rsplit_def prefix_def rev_eq_append_conv) (metis rev_rev_ident)
  finally show ?thesis using Dot by simp
qed

definition insert_entries :: "(string \<times> match_kind) list \<Rightarrow> 'a \<Rightarrow> 'a build_node \<Rightarrow> 'a build_node" where
  "insert_entries es v root = fold (\<lambda>(b, k) n. insert_labels (rsplit (CHR ''.'') b) v k n) es root"

lemma trie_insert_entries:
  "trie_state t = Building root \<Longrightarrow>
   trie_insert t d v =
     (\<lparr>trie_state = Building (insert_entries (domain_entries d) v root),
       trie_len = trie_len t + length (domain_entries d)\<rparr>, domain_entries d \<noteq> [])"
proof -
  assume st: "trie_state t = Building root"
  obtain D where D: "to_ascii_lowercase (trim d) = D" by blast
  have "D = [] \<or> (\<exists>c. D = [c]) \<or> (\<exists>c c' D'. D = c # c' # D')"
    by (metis list.exhaust)
  then show ?thesis
    using st unfolding trie_insert_def domain_entries_def D
    by (cases t)
      (auto simp: insert_entries_def insert_into_tree_def Let_def strip_prefix_def starts_with_def)
qed

lemma rsplit_inject: "rsplit c a = rsplit c b \<longleftrightarrow> a = b"
  by (simp add: rsplit_def split_on_inject)

lemma get_or_insert_idem: "get_or_insert (get_or_insert s v) v = get_or_insert s v"
  by (cases s) (simp_all add: get_or_insert_def)

lemma slot_insert_entries:
  "slot (insert_entries es v root) (rsplit (CHR ''.'') b) k =
     (if (b, k) \<in> set es then get_or_insert (slot root (rsplit (CHR ''.'') b) k) v
      else slot root (rsplit (CHR ''.'') b) k)"
proof (induction es arbitrary: root)
  case (Cons e es)
  have "insert_entries (e # es) v root =
    insert_entries es v (insert_labels (rsplit (CHR ''.'') (fst e)) v (snd e) root)"
    by (simp add: insert_entries_def case_prod_beta)
  then show ?case
    by (cases e) (auto simp: Cons.IH slot_insert rsplit_inject get_or_insert_idem)
qed (simp add: insert_entries_def)

lemma slot_insert_entries_other:
  "(\<And>b. B \<noteq> rsplit (CHR ''.'') b) \<Longrightarrow> slot (insert_entries es v root) B k = slot root B k"
  by (induction es arbitrary: root) (auto simp: insert_entries_def slot_insert)

lemma rsplit_is_lower: "is_lower b \<Longrightarrow> list_all is_lower (rsplit (CHR ''.'') b)"
  by (auto simp: rsplit_def list_all_iff is_lower_def list_ex_iff dest: split_by_pieces)

lemma is_lower_drop: "is_lower d \<Longrightarrow> is_lower (drop n d)"
  by (auto simp: is_lower_def list_ex_iff dest: in_set_dropD)

lemma domain_entries_lower: "(b, k) \<in> set (domain_entries d) \<Longrightarrow> is_lower b"
  by (auto simp: domain_entries_def Let_def is_lower_drop split: if_splits)

lemma build_ok_insert_entries:
  "build_ok root \<Longrightarrow> (\<And>b k. (b, k) \<in> set es \<Longrightarrow> is_lower b) \<Longrightarrow> build_ok (insert_entries es v root)"
proof (induction es arbitrary: root)
  case (Cons e es)
  have "build_ok (insert_labels (rsplit (CHR ''.'') (fst e)) v (snd e) root)"
    using Cons.prems by (cases e) (auto intro!: build_ok_insert rsplit_is_lower)
  then have "build_ok (insert_entries es v (insert_labels (rsplit (CHR ''.'') (fst e)) v (snd e) root))"
    using Cons.prems(2) by (intro Cons.IH) auto
  then show ?case by (simp add: insert_entries_def case_prod_beta)
qed (simp add: insert_entries_def)

text \<open>The tree a list of insertions builds holds, for each entry, the value that came first.\<close>

definition tree_of :: "(string \<times> 'a) list \<Rightarrow> 'a build_node \<Rightarrow> 'a build_node" where
  "tree_of ps root = fold (\<lambda>(d, v) n. insert_entries (domain_entries d) v n) ps root"

fun entry_count :: "(string \<times> 'a) list \<Rightarrow> nat" where
  "entry_count [] = 0"
| "entry_count ((d, _) # ps) = length (domain_entries d) + entry_count ps"

lemma trie_fold_insert:
  "trie_state t = Building root \<Longrightarrow>
   fold (\<lambda>(d, v) t. fst (trie_insert t d v)) ps t =
     \<lparr>trie_state = Building (tree_of ps root),
      trie_len = trie_len t + entry_count ps\<rparr>"
proof (induction ps arbitrary: t root)
  case Nil
  then show ?case by (cases t) (simp add: tree_of_def)
next
  case (Cons p ps)
  then show ?case by (cases p) (simp add: trie_insert_entries tree_of_def)
qed

lemma trie_of_state:
  "trie_of ps = \<lparr>trie_state = Building (tree_of ps build_default),
     trie_len = entry_count ps\<rparr>"
  by (simp add: trie_of_def trie_fold_insert trie_new_def)

lemma build_ok_tree_of: "build_ok root \<Longrightarrow> build_ok (tree_of ps root)"
  by (induction ps arbitrary: root)
    (auto simp: tree_of_def intro!: build_ok_insert_entries dest: domain_entries_lower)

lemma slot_tree_of:
  "slot (tree_of ps root) (rsplit (CHR ''.'') b) k =
     (case slot root (rsplit (CHR ''.'') b) k of Some v \<Rightarrow> Some v | None \<Rightarrow> entry_value ps (b, k))"
proof (induction ps arbitrary: root)
  case Nil
  show ?case by (simp add: tree_of_def entry_value_def split: option.split)
next
  case (Cons p ps)
  have "tree_of (p # ps) root = tree_of ps (insert_entries (domain_entries (fst p)) (snd p) root)"
    by (simp add: tree_of_def case_prod_beta)
  then show ?case
    by (cases p) (auto simp: Cons.IH slot_insert_entries entry_value_def get_or_insert_def split: option.split)
qed

lemma slot_tree_of_other:
  "(\<And>b. B \<noteq> rsplit (CHR ''.'') b) \<Longrightarrow> slot (tree_of ps root) B k = slot root B k"
  by (induction ps arbitrary: root) (auto simp: tree_of_def slot_insert_entries_other)

lemma slot_tree_of_iff:
  "slot (tree_of ps build_default) B k = Some v \<longleftrightarrow>
   (\<exists>b. B = rsplit (CHR ''.'') b \<and> entry_value ps (b, k) = Some v)"
proof (cases "\<exists>b. B = rsplit (CHR ''.'') b")
  case True
  then show ?thesis by (auto simp: slot_tree_of rsplit_inject)
next
  case False
  then show ?thesis using slot_tree_of_other [of B ps build_default k] by auto
qed

lemma candidates_tree_of:
  "Some v \<in> set (candidates (tree_of ps build_default) (rsplit (CHR ''.'') q)) \<longleftrightarrow>
   (\<exists>e. entry_value ps e = Some v \<and> entry_matches e q)"
  unfolding candidates_slot slot_tree_of_iff by (auto simp: entry_matches_path)

lemma entry_value_SomeD: "entry_value ps e = Some v \<Longrightarrow> \<exists>d. (d, v) \<in> set ps \<and> e \<in> set (domain_entries d)"
  by (auto simp: entry_value_def dest!: find_map_SomeD split: if_splits)

lemma entry_value_sorted:
  "sorted (map snd ps) \<Longrightarrow> (d, v) \<in> set ps \<Longrightarrow> e \<in> set (domain_entries d) \<Longrightarrow>
   \<exists>w. entry_value ps e = Some w \<and> w \<le> v"
  by (induction ps) (auto simp: entry_value_def)

lemma empty_trie_matches:
  "entry_count ps = 0 \<Longrightarrow> entry_value ps e = None"
  by (induction ps) (auto simp: entry_value_def split: if_splits)

lemma domain_entries_ne: "e \<in> set (domain_entries d) \<Longrightarrow> fst e \<noteq> []"
proof -
  assume e: "e \<in> set (domain_entries d)"
  obtain D where D: "to_ascii_lowercase (trim d) = D" by blast
  have "D = [] \<or> (\<exists>c. D = [c]) \<or> (\<exists>c c' D'. D = c # c' # D')"
    by (metis list.exhaust)
  then show ?thesis
    using e unfolding domain_entries_def D by (auto simp: Let_def starts_with_def split: if_splits)
qed

lemma entry_matches_Nil: "entry_value ps e = Some v \<Longrightarrow> \<not> entry_matches e []"
  by (cases e) (auto simp: entry_matches_def ends_with_iff
    dest!: entry_value_SomeD domain_entries_ne split: match_kind.splits)

lemma no_candidates:
  assumes "entry_count ps = 0 \<or> q = []"
  shows "Some w \<notin> set (candidates (tree_of ps build_default) (rsplit (CHR ''.'') q))"
  using assms empty_trie_matches [of ps] entry_matches_Nil [of ps]
  unfolding candidates_tree_of by force

lemma no_best:
  "entry_count ps = 0 \<or> q = [] \<Longrightarrow>
   find_map (\<lambda>x. x) (candidates (tree_of ps build_default) (rsplit (CHR ''.'') q)) = None"
  using no_candidates [of ps q] by (simp add: find_map_None) (metis option.exhaust)

lemma no_least:
  "entry_count ps = 0 \<or> q = [] \<Longrightarrow>
   least_of (set (candidates (tree_of ps build_default) (rsplit (CHR ''.'') q))) = None"
  using no_candidates [of ps q] by (simp add: least_of_None_iff)

lemma build_ok_tree [simp]: "build_ok (tree_of ps build_default)"
  by (simp add: build_ok_tree_of)

lemma is_lower_trim_end: "is_lower s \<Longrightarrow> is_lower (trim_end_matches P s)"
  using trim_end_matches_prefix [of s P] by (metis is_lower_append)

lemma trie_search_candidates:
  "trie_search (trie_of ps) domain =
     find_map (\<lambda>x. x) (candidates (tree_of ps build_default)
       (rsplit (CHR ''.'') (to_ascii_lowercase (trim_end_dots (trim domain)))))"
proof -
  let ?q = "trim_end_dots (trim domain)"
  have "to_ascii_lowercase ?q = ?q" if "\<not> list_ex upper_char (trim domain)"
    using that is_lower_trim_end [of "trim domain"] by (simp add: is_lower_def is_lower_fixed)
  then show ?thesis
    by (auto simp: trie_search_def trie_of_state Let_def no_best search_inner_def
      search_ascii_case_insensitive_inner_def search_build_ci_eq search_build_candidates)
qed

lemma search_normalized_candidates:
  "search_normalized (trie_of ps) q =
     find_map (\<lambda>x. x) (candidates (tree_of ps build_default) (rsplit (CHR ''.'') (trim_end_dots q)))"
  by (auto simp: search_normalized_def trie_of_state no_best search_inner_def search_build_candidates)

lemma search_min_normalized_candidates:
  "search_min_normalized (trie_of ps) q =
     least_of (set (candidates (tree_of ps build_default) (rsplit (CHR ''.'') (trim_end_dots q))))"
  by (auto simp: search_min_normalized_def trie_of_state no_least Let_def search_min_build_candidates)

lemma search_min_least:
  assumes "sorted (map snd ps)"
  shows "search_min_normalized (trie_of ps) q = Some v \<longleftrightarrow>
    (\<exists>d. (d, v) \<in> set ps \<and> domain_pattern_matches d (trim_end_dots q)) \<and>
    (\<forall>d w. (d, w) \<in> set ps \<and> domain_pattern_matches d (trim_end_dots q) \<longrightarrow> v \<le> w)"
proof -
  let ?q = "trim_end_dots q"
  have "search_min_normalized (trie_of ps) q = Some v \<longleftrightarrow>
    (\<exists>e. entry_value ps e = Some v \<and> entry_matches e ?q) \<and>
    (\<forall>w. (\<exists>e. entry_value ps e = Some w \<and> entry_matches e ?q) \<longrightarrow> v \<le> w)"
    unfolding search_min_normalized_candidates by (simp add: least_of_Some_iff candidates_tree_of)
  also have "\<dots> \<longleftrightarrow>
    (\<exists>d. (d, v) \<in> set ps \<and> domain_pattern_matches d ?q) \<and>
    (\<forall>d w. (d, w) \<in> set ps \<and> domain_pattern_matches d ?q \<longrightarrow> v \<le> w)" (is "?l \<longleftrightarrow> ?r")
  proof
    assume l: ?l
    then obtain e where e: "entry_value ps e = Some v" "entry_matches e ?q" by blast
    then obtain d where "(d, v) \<in> set ps" "domain_pattern_matches d ?q"
      by (auto simp: domain_pattern_matches_def list_ex_iff dest!: entry_value_SomeD)
    moreover have "v \<le> w" if "(d', w) \<in> set ps" "domain_pattern_matches d' ?q" for d' w
      using that l entry_value_sorted [OF assms that(1)]
      by (auto simp: domain_pattern_matches_def list_ex_iff) (metis order_trans surj_pair)
    ultimately show ?r by blast
  next
    assume r: ?r
    then obtain d e where d: "(d, v) \<in> set ps" "e \<in> set (domain_entries d)" "entry_matches e ?q"
      by (auto simp: domain_pattern_matches_def list_ex_iff)
    have least: "v \<le> w" if "entry_value ps e' = Some w" "entry_matches e' ?q" for e' w
      using that r by (auto simp: domain_pattern_matches_def list_ex_iff dest!: entry_value_SomeD)
    moreover obtain w where "entry_value ps e = Some w" "w \<le> v"
      using entry_value_sorted [OF assms d(1,2)] by blast
    with least [OF _ d(3)] have "entry_value ps e = Some v" by force
    ultimately show ?l using d(3) by blast
  qed
  finally show ?thesis .
qed

lemma trie_search_seal: "trie_search (trie_seal (trie_of ps)) q = trie_search (trie_of ps) q"
  by (simp add: trie_seal_def trie_of_state trie_search_def search_inner_def
    search_ascii_case_insensitive_inner_def search_build_ci_eq search_sealed_ci_eq search_sealed_eq Let_def)

lemma entry_value_in: "(d, v) \<in> set ps \<Longrightarrow> e \<in> set (domain_entries d) \<Longrightarrow> \<exists>w. entry_value ps e = Some w"
  by (induction ps) (auto simp: entry_value_def)

lemma trie_search_found:
  "trie_search (trie_of ps) q \<noteq> None \<longleftrightarrow>
     list_ex (\<lambda>(d, _). domain_pattern_matches d (to_ascii_lowercase (trim_end_dots (trim q)))) ps"
proof -
  let ?q = "to_ascii_lowercase (trim_end_dots (trim q))"
  have "find_map (\<lambda>x. x) cs \<noteq> None \<longleftrightarrow> (\<exists>w. Some w \<in> set cs)" for cs :: "'a option list"
    by (induction cs) (auto split: option.splits)
  then have "trie_search (trie_of ps) q \<noteq> None \<longleftrightarrow> (\<exists>w e. entry_value ps e = Some w \<and> entry_matches e ?q)"
    by (simp only: trie_search_candidates candidates_tree_of)
  also have "\<dots> \<longleftrightarrow> list_ex (\<lambda>(d, _). domain_pattern_matches d ?q) ps"
  proof
    assume "\<exists>w e. entry_value ps e = Some w \<and> entry_matches e ?q"
    then show "list_ex (\<lambda>(d, _). domain_pattern_matches d ?q) ps"
      by (auto simp: list_ex_iff domain_pattern_matches_def dest!: entry_value_SomeD)
  next
    assume "list_ex (\<lambda>(d, _). domain_pattern_matches d ?q) ps"
    then obtain d v e where "(d, v) \<in> set ps" "e \<in> set (domain_entries d)" "entry_matches e ?q"
      by (auto simp: list_ex_iff domain_pattern_matches_def)
    with entry_value_in [of d v ps e] show "\<exists>w e. entry_value ps e = Some w \<and> entry_matches e ?q" by blast
  qed
  finally show ?thesis .
qed

lemma search_min_seal:
  "search_min_normalized (trie_seal (trie_of ps)) q = search_min_normalized (trie_of ps) q"
  by (simp add: trie_seal_def trie_of_state search_min_normalized_def search_min_sealed_eq Let_def)

subsection \<open>The contract of a least-index search\<close>

text \<open>
  What a client of the trie relies on when it numbers patterns in ascending order, freezes the
  structure and asks for the least number among the patterns that match: the answer is the first
  entry of the numbered list one of whose patterns matches.
\<close>

locale least_index =
  fixes new :: 't
    and ins :: "'t \<Rightarrow> string \<Rightarrow> nat \<Rightarrow> 't"
    and freeze :: "'t \<Rightarrow> 't"
    and least :: "'t \<Rightarrow> string \<Rightarrow> nat option"
    and matches :: "string \<Rightarrow> string \<Rightarrow> bool"
    and norm :: "string \<Rightarrow> string"
  assumes least_frozen: "sorted (map snd ps) \<Longrightarrow>
    least (freeze (fold (\<lambda>(d, v) t. ins t d v) ps new)) q = Some v \<longleftrightarrow>
      (\<exists>d. (d, v) \<in> set ps \<and> matches d (norm q)) \<and>
      (\<forall>d w. (d, w) \<in> set ps \<and> matches d (norm q) \<longrightarrow> v \<le> w)"
begin

lemma least_first:
  assumes "sorted (map fst ips)"
  shows "least (freeze (fold (\<lambda>(d, v) t. ins t d v) (concat (map (\<lambda>(i, ps). map (\<lambda>p. (p, i)) ps) ips)) new)) q =
    find_map (\<lambda>(i, ps). if list_ex (\<lambda>p. matches p (norm q)) ps then Some i else None) ips"
    (is "?least = find_map ?hit ips")
proof -
  let ?qs = "concat (map (\<lambda>(i, ps). map (\<lambda>p. (p, i)) ps) ips)"
  have "sorted (map snd ?qs)"
    using assms by (induction ips) (auto simp: sorted_append comp_def map_replicate_const)
  note spec = least_frozen [OF this, of q]
  have mem: "(d, v) \<in> set ?qs \<longleftrightarrow> (\<exists>ps. (v, ps) \<in> set ips \<and> d \<in> set ps)" for d v
    by auto
  show ?thesis
  proof (cases "find_map ?hit ips")
    case None
    then have "\<not> matches d (norm q)" if "(d, v) \<in> set ?qs" for d v
      using that unfolding mem by (force simp: find_map_None list_ex_iff split: if_splits)
    then have "?least \<noteq> Some v" for v unfolding spec by blast
    with None show ?thesis by (metis option.exhaust)
  next
    case (Some i)
    then obtain us x vs where ips: "ips = us @ x # vs" and x: "?hit x = Some i"
      and us: "\<forall>u \<in> set us. ?hit u = None" by (auto dest: find_map_SomeD)
    then obtain ps p where p: "x = (i, ps)" "p \<in> set ps" "matches p (norm q)"
      by (cases x) (auto simp: list_ex_iff split: if_splits)
    have "i \<le> w" if qs: "(d, w) \<in> set ?qs" and d: "matches d (norm q)" for d w
    proof -
      obtain ps' where "(w, ps') \<in> set ips" "d \<in> set ps'" using qs unfolding mem by blast
      moreover from this have "(w, ps') \<notin> set us"
        using us d by (force simp: list_ex_iff split: if_splits)
      ultimately show ?thesis using assms ips p(1) by (auto simp: sorted_append)
    qed
    moreover have "(p, i) \<in> set ?qs" using ips p by auto
    ultimately have "?least = Some i" unfolding spec using p(3) by blast
    with Some show ?thesis by simp
  qed
qed

end

interpretation trie_index:
  least_index trie_new "\<lambda>t d v. fst (trie_insert t d v)" trie_seal search_min_normalized
    domain_pattern_matches trim_end_dots
  by unfold_locales (simp add: trie_of_def [symmetric] search_min_seal search_min_least)

subsection \<open>Properties\<close>

text \<open>
  C5: the most-specific search. Inserting the patterns \<open>ps\<close> in order and searching for a domain
  returns \<open>v\<close> exactly when some entry stored for the patterns matches the normalised domain, no
  matching entry is more specific (an exact entry beats a wildcard, a longer wildcard a shorter one,
  and a star a dot at the same depth), and \<open>v\<close> is the value first inserted for that entry.
\<close>

theorem trie_search_most_specific:
  "trie_search (trie_of ps) domain = Some v \<longleftrightarrow>
   (\<exists>b k. entry_value ps (b, k) = Some v \<and>
      entry_matches (b, k) (to_ascii_lowercase (trim_end_dots (trim domain))) \<and>
      (\<forall>b' k' w. entry_value ps (b', k') = Some w \<and>
         entry_matches (b', k') (to_ascii_lowercase (trim_end_dots (trim domain))) \<longrightarrow>
         2 * label_count b' + (if k' = Dot then 0 else 1) \<le> 2 * label_count b + (if k = Dot then 0 else 1)))"
proof -
  have r: "rank (rsplit (CHR ''.'') b) k = 2 * label_count b + (if k = Dot then 0 else 1)" for b k
    by (simp add: rank_def label_count_rsplit)
  show ?thesis
    unfolding trie_search_candidates candidates_best_iff slot_tree_of_iff entry_matches_path
    by (simp only: r [symmetric]) blast
qed

theorem trie_search_most_specific_witness:
  "trie_search (trie_of [(''+.example.com'', 0), (''www.example.com'', 1::nat)]) ''WWW.Example.com.'' = Some 1"
proof -
  let ?ps = "[(''+.example.com'', 0), (''www.example.com'', 1::nat)]"
  let ?q = "to_ascii_lowercase (trim_end_dots (trim ''WWW.Example.com.''))"
  have q: "?q = ''www.example.com''" by code_simp
  have "entry_value ?ps (''www.example.com'', Exact) = Some 1" by code_simp
  moreover have "entry_matches (''www.example.com'', Exact) ?q" unfolding q by code_simp
  moreover have "2 * label_count b + (if k = Dot then 0 else 1) \<le>
      2 * label_count ''www.example.com'' + (if Exact = Dot then 0 else 1)"
    if "entry_value ?ps (b, k) = Some w" for b k w
  proof -
    have "(b, k) \<in> set (concat (map (\<lambda>(d, _). domain_entries d) ?ps))"
      using that by (auto simp: entry_value_def dest!: find_map_SomeD split: if_splits)
    moreover have "concat (map (\<lambda>(d, _). domain_entries d) ?ps) =
        [(''example.com'', Star), (''example.com'', Dot), (''www.example.com'', Exact)]" by code_simp
    ultimately have "(b, k) \<in> {(''example.com'', Star), (''example.com'', Dot), (''www.example.com'', Exact)}"
      by (simp only: set_simps)
    then show ?thesis by (auto simp: label_count_def)
  qed
  ultimately show ?thesis by (intro trie_search_most_specific [THEN iffD2]) blast
qed



text \<open>
  C6: sealing. Freezing the trie into sorted arrays changes no search: the binary searches over the
  sorted children find what the hash maps held, for the case-insensitive search as well.
\<close>

theorem trie_seal_preserves_searches:
  "trie_search (trie_seal (trie_of ps)) q = trie_search (trie_of ps) q \<and>
   search_normalized (trie_seal (trie_of ps)) q = search_normalized (trie_of ps) q \<and>
   search_min_normalized (trie_seal (trie_of ms)) q = search_min_normalized (trie_of ms) q"
  by (simp add: trie_search_seal search_min_seal)
    (simp add: trie_seal_def trie_of_state search_normalized_def search_inner_def search_sealed_eq)

end
