(* ===== verification/Geosite.thy ===== *)
theory Geosite
  imports External Trie
begin

text \<open>
  The geosite database of \<open>meow-rules/src/geosite.rs\<close>: categories of domains, keywords and compiled
  regular expressions, looked up by category with \<open>@attribute\<close> suffixes. The hash maps are
  association lists. \<open>resolve_keys\<close> and \<open>lookup_resolved\<close> are the split of \<open>lookup\<close> into a part done
  once per rule and a part done per connection; the lemmas show that they agree.
\<close>

record geosite_db =
  categories :: "(string \<times> unit domain_trie) list"
  counts :: "(string \<times> nat) list"
  regex_compiled :: "(string \<times> string list) list"
  geo_keywords :: "(string \<times> string list) list"

definition geosite_empty :: geosite_db where
  "geosite_empty = \<lparr>categories = [], counts = [], regex_compiled = [], geo_keywords = []\<rparr>"

definition geosite_insert :: "geosite_db \<Rightarrow> string \<Rightarrow> string \<Rightarrow> geosite_db" where
  "geosite_insert db cat domain =
     (let cat_key = to_ascii_lowercase cat;
          trie = (case map_of (categories db) cat_key of Some t \<Rightarrow> t | None \<Rightarrow> trie_new);
          (trie', inserted) = trie_insert trie (to_ascii_lowercase domain) ();
          db' = db\<lparr>categories := AList.update cat_key trie' (categories db)\<rparr>
      in if inserted
         then db'\<lparr>counts := AList.update cat_key
                (case map_of (counts db) cat_key of Some n \<Rightarrow> n + 1 | None \<Rightarrow> 1) (counts db)\<rparr>
         else db')"

definition split_category_attrs :: "string \<Rightarrow> string \<times> string list" where
  "split_category_attrs category =
     (case split_on (CHR ''@'') (trim category) of
        [] \<Rightarrow> ([], [])
      | p # ps \<Rightarrow> (trim p, map to_ascii_lowercase (filter (\<lambda>a. a \<noteq> []) (map trim ps))))"

definition category_key :: "geosite_db \<Rightarrow> string \<Rightarrow> string option" where
  "category_key db category =
     (if \<not> list_ex upper_char category then Some category
      else List.find (\<lambda>k. eq_ignore_ascii_case k category)
        (map fst (categories db) @ map fst (geo_keywords db) @ map fst (regex_compiled db)))"

definition bucket_exists :: "geosite_db \<Rightarrow> string \<Rightarrow> bool" where
  "bucket_exists db key \<longleftrightarrow>
     map_of (categories db) key \<noteq> None \<or> map_of (geo_keywords db) key \<noteq> None \<or>
     map_of (regex_compiled db) key \<noteq> None"

definition lookup_resolved :: "ext \<Rightarrow> geosite_db \<Rightarrow> string \<Rightarrow> string \<Rightarrow> bool" where
  "lookup_resolved X db key domain \<longleftrightarrow>
     (case map_of (categories db) key of Some t \<Rightarrow> trie_search t domain \<noteq> None | None \<Rightarrow> False) \<or>
     (case map_of (geo_keywords db) key of Some kws \<Rightarrow> list_ex (\<lambda>kw. contains_str kw domain) kws | None \<Rightarrow> False) \<or>
     (case map_of (regex_compiled db) key of
        Some res \<Rightarrow> list_ex (\<lambda>re. regex_is_match X re domain) res | None \<Rightarrow> False)"

definition lookup_one :: "ext \<Rightarrow> geosite_db \<Rightarrow> string \<Rightarrow> string \<Rightarrow> bool" where
  "lookup_one X db category domain =
     (case category_key db category of
        None \<Rightarrow> False
      | Some cat \<Rightarrow>
          (case map_of (categories db) cat of Some t \<Rightarrow> trie_search t domain \<noteq> None | None \<Rightarrow> False) \<or>
          (case map_of (geo_keywords db) cat of
             Some kws \<Rightarrow> list_ex (\<lambda>kw. contains_str kw domain) kws | None \<Rightarrow> False) \<or>
          (case map_of (regex_compiled db) cat of
             Some res \<Rightarrow> list_ex (\<lambda>re. regex_is_match X re domain) res | None \<Rightarrow> False))"

definition geosite_lookup :: "ext \<Rightarrow> geosite_db \<Rightarrow> string \<Rightarrow> string \<Rightarrow> bool" where
  "geosite_lookup X db category domain =
     (let (base, attrs) = split_category_attrs category in
      if attrs \<noteq> [] then list_all (\<lambda>attr. lookup_one X db (base @ ''@'' @ attr) domain) attrs
      else lookup_one X db base domain)"

text \<open>Collecting an iterator of options: all present, or none.\<close>

fun collect_opts :: "'a option list \<Rightarrow> 'a list option" where
  "collect_opts [] = Some []"
| "collect_opts (None # os) = None"
| "collect_opts (Some x # os) = map_option ((#) x) (collect_opts os)"

definition resolve_key :: "geosite_db \<Rightarrow> string \<Rightarrow> string option" where
  "resolve_key db key =
     (case category_key db key of
        None \<Rightarrow> None
      | Some canon \<Rightarrow> if bucket_exists db canon then Some canon else None)"

definition resolve_keys :: "geosite_db \<Rightarrow> string \<Rightarrow> string list option" where
  "resolve_keys db category =
     (let (base, attrs) = split_category_attrs category in
      if base = [] then None
      else collect_opts (map (resolve_key db)
        (if attrs = [] then [base] else map (\<lambda>attr. base @ ''@'' @ attr) attrs)))"

definition category_count :: "geosite_db \<Rightarrow> nat" where
  "category_count db = length (categories db)"

definition domain_count :: "geosite_db \<Rightarrow> string \<Rightarrow> nat option" where
  "domain_count db category = map_of (counts db) (to_ascii_lowercase category)"

definition geosite_from_parts ::
  "ext \<Rightarrow> (string \<times> unit domain_trie) list \<Rightarrow> (string \<times> nat) list \<Rightarrow>
   (string \<times> string list) list \<Rightarrow> (string \<times> string list) list \<Rightarrow> geosite_db" where
  "geosite_from_parts X cats cnts regex_patterns kws =
     \<lparr>categories = map (\<lambda>(c, t). (c, trie_seal t)) cats,
      counts = cnts,
      regex_compiled = map (\<lambda>(c, ps). (c, filter (regex_new X) ps)) regex_patterns,
      geo_keywords = kws\<rparr>"

subsection \<open>Resolved lookups\<close>

lemma collect_opts_Some: "collect_opts os = Some xs \<longleftrightarrow> os = map Some xs"
  by (induction os arbitrary: xs rule: collect_opts.induct) (auto simp: map_eq_Cons_conv)

lemma collect_opts_None: "collect_opts os = None \<longleftrightarrow> None \<in> set os"
  by (induction os rule: collect_opts.induct) auto

lemma lookup_one_key:
  "lookup_one X db category domain =
     (case category_key db category of None \<Rightarrow> False | Some key \<Rightarrow> lookup_resolved X db key domain)"
  by (simp add: lookup_one_def lookup_resolved_def split: option.split)

lemma lookup_resolved_bucket: "lookup_resolved X db key domain \<Longrightarrow> bucket_exists db key"
  by (auto simp: lookup_resolved_def bucket_exists_def split: option.splits)

lemma lookup_one_resolve:
  "lookup_one X db category domain =
     (case resolve_key db category of None \<Rightarrow> False | Some key \<Rightarrow> lookup_resolved X db key domain)"
  by (auto simp: lookup_one_key resolve_key_def split: option.splits dest: lookup_resolved_bucket)

lemma lookup_resolve_keys:
  assumes "fst (split_category_attrs category) \<noteq> []"
  shows "geosite_lookup X db category domain =
    (case resolve_keys db category of
       None \<Rightarrow> False
     | Some keys \<Rightarrow> list_all (\<lambda>key. lookup_resolved X db key domain) keys)"
proof -
  obtain base attrs where s: "split_category_attrs category = (base, attrs)" by fastforce
  define cs where "cs = (if attrs = [] then [base] else map (\<lambda>attr. base @ ''@'' @ attr) attrs)"
  have l: "geosite_lookup X db category domain = list_all (\<lambda>c. lookup_one X db c domain) cs"
    using s by (simp add: geosite_lookup_def cs_def list.pred_map comp_def)
  have r: "resolve_keys db category = collect_opts (map (resolve_key db) cs)"
    using s assms by (simp add: resolve_keys_def cs_def)
  show ?thesis
  proof (cases "collect_opts (map (resolve_key db) cs)")
    case None
    then obtain c where "c \<in> set cs" "resolve_key db c = None" by (auto simp: collect_opts_None)
    then have "\<not> list_all (\<lambda>c. lookup_one X db c domain) cs"
      by (auto simp: lookup_one_resolve list_all_iff intro!: bexI [of _ c])
    with None l r show ?thesis by simp
  next
    case (Some keys)
    then have "list_all2 (\<lambda>c key. resolve_key db c = Some key) cs keys"
      by (simp add: collect_opts_Some list_eq_iff_nth_eq list_all2_conv_all_nth)
    then have "list_all (\<lambda>c. lookup_one X db c domain) cs =
        list_all (\<lambda>key. lookup_resolved X db key domain) keys"
      by induction (simp_all add: lookup_one_resolve)
    with Some l r show ?thesis by simp
  qed
qed

end
