(* ===== verification/Rules.thy ===== *)
theory Rules
  imports Geosite
begin

text \<open>
  The rules of \<open>meow-rules/src\<close>: one constructor of \<open>rule\<close> per rule struct, with the struct's fields
  in order, the constructor functions \<open>new\<close> as \<open>*_new\<close> (errors as values of \<open>rule_error\<close>), and
  the methods of the \<open>Rule\<close> trait by recursion over rules and rule sets. \<open>wf_rule\<close> says that a rule
  is a value of its \<open>new\<close>; the lemmas at the end give the domain predicates a declarative reading.
\<close>

unbundle bit_operations_syntax

subsection \<open>Errors and small parts\<close>

datatype rule_error =
    InvalidRule string | NeedsThreeParts string | UnknownRuleType string
  | InvalidRegex string | InvalidCidr string
  | InvalidPort string | InvalidPortRange "16 word" "16 word" | EmptyPortList
  | UnknownNetwork string | InvalidDscp string | DscpTooBig "8 word" | InvalidUid string
  | InvalidWildcard string | InvalidProcessGlob string | UnknownInType string
  | InvalidIpSuffix string | IpSuffixTooLong nat
  | NoGeoIpDatabase | NoAsnDatabase | InvalidAsn string | NoCategory
  | ExpectedParen string | UnbalancedParens string | ExpectedAdapter string | MissingAdapter string
  | BadGroup char | UnbalancedGroup | EmptyPayload string | NotArity nat

datatype port_range = PortSingle "16 word" | PortSpan "16 word" "16 word"

datatype match_mode = Glob string | Prefix | ExactName

datatype family = FamV4 "32 word" "32 word" | FamV6 "128 word" "128 word"

datatype ip_ranges = IpRanges (ranges_v4: "iprange arc") (ranges_v6: "iprange arc")

definition parse_u16 :: "string \<Rightarrow> 16 word option" where
  "parse_u16 s = map_option of_nat (parse_uint 16 s)"

definition parse_u8 :: "string \<Rightarrow> 8 word option" where
  "parse_u8 s = map_option of_nat (parse_uint 8 s)"

definition parse_u32 :: "string \<Rightarrow> 32 word option" where
  "parse_u32 s = map_option of_nat (parse_uint 32 s)"

subsection \<open>The rules\<close>

datatype rule =
    DomainRule string string
  | DomainSuffixRule string string
  | DomainKeywordRule string string
  | DomainRegexRule string string string
  | DomainWildcardRule string string string
  | IpCidrRule ipnet string string bool bool
  | PortRule "port_range list" string string bool
  | InPortRule "port_range list" string string
  | DscpRule "8 word" string string
  | NetworkRule network string string
  | UidRule "32 word" string string
  | FinalRule string
  | ProcessRule string string
  | ProcessPathRule string match_mode string
  | InNameRule string string
  | InTypeRule string string bool bool bool bool bool
  | InUserRule string string
  | GeoIpRule string string bool ip_ranges
  | SrcGeoIpRule string string ip_ranges
  | IpAsnRule string string ip_ranges bool bool
  | IpSuffixRule string string family bool bool
  | GeoSiteRule string string string "geosite_db arc option" bool
  | RuleSetRule string "rule_set arc" string bool
  | SubRuleRule string "rule list arc"
  | AndRule "rule list" string string
  | OrRule "rule list" string string
  | NotRule rule string string
and rule_set =
    DomainRuleSet "unit domain_trie" nat
  | IpCidrRuleSet iprange iprange nat
  | ClassicalRuleSet "rule list"

fun rule_type :: "rule \<Rightarrow> rule_type" where
  "rule_type (DomainRule _ _) = RtDomain"
| "rule_type (DomainSuffixRule _ _) = RtDomainSuffix"
| "rule_type (DomainKeywordRule _ _) = RtDomainKeyword"
| "rule_type (DomainRegexRule _ _ _) = RtDomainRegex"
| "rule_type (DomainWildcardRule _ _ _) = RtDomainWildcard"
| "rule_type (IpCidrRule _ _ _ is_src _) = (if is_src then RtSrcIpCidr else RtIpCidr)"
| "rule_type (PortRule _ _ _ is_src) = (if is_src then RtSrcPort else RtDstPort)"
| "rule_type (InPortRule _ _ _) = RtInPort"
| "rule_type (DscpRule _ _ _) = RtDscp"
| "rule_type (NetworkRule _ _ _) = RtNetwork"
| "rule_type (UidRule _ _ _) = RtUid"
| "rule_type (FinalRule _) = RtMatch"
| "rule_type (ProcessRule _ _) = RtProcessName"
| "rule_type (ProcessPathRule _ _ _) = RtProcessPath"
| "rule_type (InNameRule _ _) = RtInName"
| "rule_type (InTypeRule _ _ _ _ _ _ _) = RtInType"
| "rule_type (InUserRule _ _) = RtInUser"
| "rule_type (GeoIpRule _ _ _ _) = RtGeoIp"
| "rule_type (SrcGeoIpRule _ _ _) = RtSrcGeoIp"
| "rule_type (IpAsnRule _ _ _ _ _) = RtIpAsn"
| "rule_type (IpSuffixRule _ _ _ _ _) = RtIpSuffix"
| "rule_type (GeoSiteRule _ _ _ _ _) = RtGeoSite"
| "rule_type (RuleSetRule _ _ _ _) = RtRuleSet"
| "rule_type (SubRuleRule _ _) = RtSubRule"
| "rule_type (AndRule _ _ _) = RtAnd"
| "rule_type (OrRule _ _ _) = RtOr"
| "rule_type (NotRule _ _ _) = RtNot"

fun rule_adapter :: "rule \<Rightarrow> string" where
  "rule_adapter (DomainRule _ a) = a"
| "rule_adapter (DomainSuffixRule _ a) = a"
| "rule_adapter (DomainKeywordRule _ a) = a"
| "rule_adapter (DomainRegexRule _ _ a) = a"
| "rule_adapter (DomainWildcardRule _ _ a) = a"
| "rule_adapter (IpCidrRule _ _ a _ _) = a"
| "rule_adapter (PortRule _ _ a _) = a"
| "rule_adapter (InPortRule _ _ a) = a"
| "rule_adapter (DscpRule _ _ a) = a"
| "rule_adapter (NetworkRule _ _ a) = a"
| "rule_adapter (UidRule _ _ a) = a"
| "rule_adapter (FinalRule a) = a"
| "rule_adapter (ProcessRule _ a) = a"
| "rule_adapter (ProcessPathRule _ _ a) = a"
| "rule_adapter (InNameRule _ a) = a"
| "rule_adapter (InTypeRule _ a _ _ _ _ _) = a"
| "rule_adapter (InUserRule _ a) = a"
| "rule_adapter (GeoIpRule _ a _ _) = a"
| "rule_adapter (SrcGeoIpRule _ a _) = a"
| "rule_adapter (IpAsnRule _ a _ _ _) = a"
| "rule_adapter (IpSuffixRule _ a _ _ _) = a"
| "rule_adapter (GeoSiteRule _ _ a _ _) = a"
| "rule_adapter (RuleSetRule _ _ a _) = a"
| "rule_adapter (SubRuleRule block_name _) = block_name"
| "rule_adapter (AndRule _ a _) = a"
| "rule_adapter (OrRule _ a _) = a"
| "rule_adapter (NotRule _ a _) = a"

fun rule_payload :: "rule \<Rightarrow> string" where
  "rule_payload (DomainRule domain _) = domain"
| "rule_payload (DomainSuffixRule sfx _) = sfx"
| "rule_payload (DomainKeywordRule keyword _) = keyword"
| "rule_payload (DomainRegexRule _ pattern _) = pattern"
| "rule_payload (DomainWildcardRule _ raw _) = raw"
| "rule_payload (IpCidrRule _ cidr_str _ _ _) = cidr_str"
| "rule_payload (PortRule _ raw _ _) = raw"
| "rule_payload (InPortRule _ raw _) = raw"
| "rule_payload (DscpRule _ raw _) = raw"
| "rule_payload (NetworkRule _ raw _) = raw"
| "rule_payload (UidRule _ raw _) = raw"
| "rule_payload (FinalRule _) = []"
| "rule_payload (ProcessRule process_name _) = process_name"
| "rule_payload (ProcessPathRule payload _ _) = payload"
| "rule_payload (InNameRule name _) = name"
| "rule_payload (InTypeRule raw _ _ _ _ _ _) = raw"
| "rule_payload (InUserRule username _) = username"
| "rule_payload (GeoIpRule country _ _ _) = country"
| "rule_payload (SrcGeoIpRule country _ _) = country"
| "rule_payload (IpAsnRule raw _ _ _ _) = raw"
| "rule_payload (IpSuffixRule payload_raw _ _ _ _) = payload_raw"
| "rule_payload (GeoSiteRule _ payload_raw _ _ _) = payload_raw"
| "rule_payload (RuleSetRule name _ _ _) = name"
| "rule_payload (SubRuleRule block_name _) = block_name"
| "rule_payload (AndRule _ _ payload) = payload"
| "rule_payload (OrRule _ _ payload) = payload"
| "rule_payload (NotRule _ _ payload) = payload"

subsection \<open>Constructors\<close>

definition domain_new :: "string \<Rightarrow> string \<Rightarrow> rule" where
  "domain_new domain adapter = DomainRule (to_ascii_lowercase domain) adapter"

definition domain_suffix_new :: "string \<Rightarrow> string \<Rightarrow> rule" where
  "domain_suffix_new sfx adapter = DomainSuffixRule (to_ascii_lowercase sfx) adapter"

definition domain_keyword_new :: "string \<Rightarrow> string \<Rightarrow> rule" where
  "domain_keyword_new keyword adapter = DomainKeywordRule (to_ascii_lowercase keyword) adapter"

definition domain_regex_new :: "ext \<Rightarrow> string \<Rightarrow> string \<Rightarrow> rule_error + rule" where
  "domain_regex_new X pattern adapter =
     (if regex_new X pattern then Inr (DomainRegexRule pattern pattern adapter)
      else Inl (InvalidRegex pattern))"

definition domain_wildcard_new :: "ext \<Rightarrow> string \<Rightarrow> string \<Rightarrow> rule_error + rule" where
  "domain_wildcard_new X pattern adapter =
     (let re = wildcard_regex X pattern in
      if regex_new X re then Inr (DomainWildcardRule re pattern adapter)
      else Inl (InvalidWildcard pattern))"

definition ipcidr_new :: "ext \<Rightarrow> string \<Rightarrow> string \<Rightarrow> bool \<Rightarrow> bool \<Rightarrow> rule_error + rule" where
  "ipcidr_new X cidr adapter is_src no_resolve =
     (case parse_net X cidr of
        None \<Rightarrow> Inl (InvalidCidr cidr)
      | Some parsed \<Rightarrow> Inr (IpCidrRule parsed cidr adapter is_src no_resolve))"

text \<open>One loop serves \<open>PORT\<close> and \<open>IN-PORT\<close> payloads; they differ only in the text of their errors.\<close>

fun parse_port_parts :: "string list \<Rightarrow> rule_error + port_range list" where
  "parse_port_parts [] = Inr []"
| "parse_port_parts (p # ps) =
     (let part = trim p in
      if part = [] then parse_port_parts ps
      else case split_once (CHR ''-'') part of
        Some (lo, hi) \<Rightarrow>
          (case parse_u16 (trim lo) of
             None \<Rightarrow> Inl (InvalidPort lo)
           | Some start \<Rightarrow>
             (case parse_u16 (trim hi) of
                None \<Rightarrow> Inl (InvalidPort hi)
              | Some stop \<Rightarrow>
                  if start > stop then Inl (InvalidPortRange start stop)
                  else map_sum id ((#) (PortSpan start stop)) (parse_port_parts ps)))
      | None \<Rightarrow>
          (case parse_u16 part of
             None \<Rightarrow> Inl (InvalidPort part)
           | Some port \<Rightarrow> map_sum id ((#) (PortSingle port)) (parse_port_parts ps)))"

definition parse_port_list :: "string \<Rightarrow> rule_error + port_range list" where
  "parse_port_list ports =
     (case parse_port_parts (split_by (\<lambda>c. c = CHR '','' \<or> c = CHR ''/'') ports) of
        Inl e \<Rightarrow> Inl e
      | Inr ranges \<Rightarrow> if ranges = [] then Inl EmptyPortList else Inr ranges)"

definition port_new :: "string \<Rightarrow> string \<Rightarrow> bool \<Rightarrow> rule_error + rule" where
  "port_new ports adapter is_src =
     map_sum id (\<lambda>ranges. PortRule ranges ports adapter is_src) (parse_port_list ports)"

definition in_port_new :: "string \<Rightarrow> string \<Rightarrow> rule_error + rule" where
  "in_port_new ports adapter =
     map_sum id (\<lambda>ranges. InPortRule ranges ports adapter) (parse_port_list ports)"

definition dscp_new :: "string \<Rightarrow> string \<Rightarrow> rule_error + rule" where
  "dscp_new d adapter =
     (case parse_u8 (trim d) of
        None \<Rightarrow> Inl (InvalidDscp (trim d))
      | Some v \<Rightarrow> if v > 63 then Inl (DscpTooBig v) else Inr (DscpRule v d adapter))"

definition network_new :: "string \<Rightarrow> string \<Rightarrow> rule_error + rule" where
  "network_new net adapter =
     (if to_ascii_lowercase net = ''tcp'' then Inr (NetworkRule Tcp net adapter)
      else if to_ascii_lowercase net = ''udp'' then Inr (NetworkRule Udp net adapter)
      else Inl (UnknownNetwork net))"

definition uid_new :: "string \<Rightarrow> string \<Rightarrow> rule_error + rule" where
  "uid_new u adapter =
     (case parse_u32 (trim u) of
        None \<Rightarrow> Inl (InvalidUid (trim u))
      | Some v \<Rightarrow> Inr (UidRule v u adapter))"

definition final_new :: "string \<Rightarrow> rule" where
  "final_new adapter = FinalRule adapter"

definition process_new :: "string \<Rightarrow> string \<Rightarrow> rule" where
  "process_new name adapter = ProcessRule name adapter"

definition in_name_new :: "string \<Rightarrow> string \<Rightarrow> rule_error + rule" where
  "in_name_new name adapter = Inr (InNameRule name adapter)"

definition in_user_new :: "string \<Rightarrow> string \<Rightarrow> rule_error + rule" where
  "in_user_new username adapter = Inr (InUserRule username adapter)"

definition rule_set_new :: "string \<Rightarrow> rule_set arc \<Rightarrow> string \<Rightarrow> bool \<Rightarrow> rule" where
  "rule_set_new name rs adapter no_resolve = RuleSetRule name rs adapter no_resolve"

definition sub_rule_new :: "string \<Rightarrow> rule list arc \<Rightarrow> rule" where
  "sub_rule_new block_name block = SubRuleRule block_name block"

definition process_path_new :: "ext \<Rightarrow> string \<Rightarrow> string \<Rightarrow> rule_error + rule" where
  "process_path_new X payload adapter =
     (if CHR ''*'' \<in> set payload then
        (if regex_new X (path_regex X payload)
         then Inr (ProcessPathRule payload (Glob (path_regex X payload)) adapter)
         else Inl (InvalidProcessGlob payload))
      else if starts_with ''/'' payload \<or> starts_with [CHR 0x5C] payload
        then Inr (ProcessPathRule payload Prefix adapter)
      else Inr (ProcessPathRule payload ExactName adapter))"

definition in_type_new :: "string \<Rightarrow> string \<Rightarrow> rule_error + rule" where
  "in_type_new type_str adapter =
     (let u = to_ascii_uppercase type_str in
      if u = ''HTTP'' then Inr (InTypeRule type_str adapter True True False False False)
      else if u = ''HTTPS'' then Inr (InTypeRule type_str adapter False True False False False)
      else if u = ''SOCKS5'' then Inr (InTypeRule type_str adapter False False True False False)
      else if u = ''TPROXY'' then Inr (InTypeRule type_str adapter False False False True False)
      else if u = ''INNER'' then Inr (InTypeRule type_str adapter False False False False True)
      else Inl (UnknownInType u))"

definition geoip_new :: "string \<Rightarrow> string \<Rightarrow> bool \<Rightarrow> ip_ranges \<Rightarrow> rule" where
  "geoip_new country adapter no_resolve ranges =
     GeoIpRule (to_ascii_uppercase country) adapter no_resolve ranges"

definition src_geoip_new :: "string \<Rightarrow> string \<Rightarrow> ip_ranges \<Rightarrow> rule" where
  "src_geoip_new country adapter ranges = SrcGeoIpRule (to_ascii_uppercase country) adapter ranges"

definition ip_asn_new :: "32 word \<Rightarrow> string \<Rightarrow> string \<Rightarrow> ip_ranges \<Rightarrow> bool \<Rightarrow> bool \<Rightarrow> rule" where
  "ip_asn_new asn raw adapter ranges src no_resolve = IpAsnRule raw adapter ranges src no_resolve"

text \<open>The low \<open>prefix\<close> bits of a word, with the two ends written out as in the code.\<close>

definition suffix_mask :: "nat \<Rightarrow> 'a::len word" where
  "suffix_mask plen =
     (if plen = 0 then 0
      else if plen \<ge> LENGTH('a) then - 1
      else push_bit plen 1 - 1)"

definition suffix_family :: "ipnet \<Rightarrow> rule_error + family" where
  "suffix_family net =
     (case net of
        NetV4 a plen \<Rightarrow>
          if plen > 32 then Inl (IpSuffixTooLong plen)
          else Inr (FamV4 (a AND suffix_mask plen) (suffix_mask plen))
      | NetV6 a plen \<Rightarrow>
          if plen > 128 then Inl (IpSuffixTooLong plen)
          else Inr (FamV6 (a AND suffix_mask plen) (suffix_mask plen)))"

definition ip_suffix_new :: "ext \<Rightarrow> string \<Rightarrow> string \<Rightarrow> bool \<Rightarrow> bool \<Rightarrow> rule_error + rule" where
  "ip_suffix_new X payload adapter src no_resolve =
     (case parse_net X payload of
        None \<Rightarrow> Inl (InvalidIpSuffix payload)
      | Some net \<Rightarrow>
          map_sum id (\<lambda>fam. IpSuffixRule payload adapter fam src no_resolve) (suffix_family net))"

definition geosite_new :: "string \<Rightarrow> string \<Rightarrow> geosite_db arc option \<Rightarrow> bool \<Rightarrow> rule" where
  "geosite_new payload adapter db no_resolve =
     GeoSiteRule (to_ascii_lowercase (trim payload)) payload adapter db no_resolve"

definition and_new :: "rule list \<Rightarrow> string \<Rightarrow> rule" where
  "and_new rs adapter = AndRule rs adapter (join '' AND '' (map rule_payload rs))"

definition or_new :: "rule list \<Rightarrow> string \<Rightarrow> rule" where
  "or_new rs adapter = OrRule rs adapter (join '' OR '' (map rule_payload rs))"

definition not_new :: "rule \<Rightarrow> string \<Rightarrow> rule" where
  "not_new r adapter = NotRule r adapter (''NOT '' @ rule_payload r)"

subsection \<open>Predicates\<close>

definition suffix_match :: "string \<Rightarrow> string \<Rightarrow> bool" where
  "suffix_match host sfx =
     (if length host = length sfx then eq_ignore_ascii_case host sfx
      else if length host > length sfx then
        (let dot_pos = length host - length sfx - 1 in
         host ! dot_pos = CHR ''.'' \<and> eq_ignore_ascii_case (drop (dot_pos + 1) host) sfx)
      else False)"

definition windows :: "nat \<Rightarrow> 'a list \<Rightarrow> 'a list list" where
  "windows n xs = map (\<lambda>i. take n (drop i xs)) [0..<Suc (length xs) - n]"

definition keyword_match :: "string \<Rightarrow> string \<Rightarrow> bool" where
  "keyword_match host needle =
     (if needle = [] then True
      else if length host < length needle then False
      else list_ex (\<lambda>w. eq_ignore_ascii_case w needle) (windows (length needle) host))"

fun port_range_matches :: "port_range \<Rightarrow> 16 word \<Rightarrow> bool" where
  "port_range_matches (PortSingle p) port = (port = p)"
| "port_range_matches (PortSpan lo hi) port = (port \<ge> lo \<and> port \<le> hi)"

definition matches_port :: "port_range list \<Rightarrow> 16 word \<Rightarrow> bool" where
  "matches_port ranges port = list_ex (\<lambda>r. port_range_matches r port) ranges"

text \<open>\<open>Path::file_name\<close> on Unix: the last component other than \<open>.\<close>, unless it is \<open>..\<close>.\<close>

definition file_name :: "string \<Rightarrow> string option" where
  "file_name path =
     (let cs = filter (\<lambda>c. c \<noteq> [] \<and> c \<noteq> ''.'') (split_on (CHR ''/'') path) in
      if cs = [] \<or> last cs = ''..'' then None else Some (last cs))"

definition process_path_match :: "ext \<Rightarrow> string \<Rightarrow> match_mode \<Rightarrow> string \<Rightarrow> bool" where
  "process_path_match X payload mode path =
     (if path = [] then False
      else case mode of
        Glob re \<Rightarrow> regex_is_match X re path
      | Prefix \<Rightarrow>
          path = payload \<or>
          (case strip_prefix payload path of
             Some rest \<Rightarrow> starts_with ''/'' rest \<or> starts_with [CHR 0x5C] rest
           | None \<Rightarrow> False)
      | ExactName \<Rightarrow> (case file_name path of Some f \<Rightarrow> f | None \<Rightarrow> path) = payload)"

definition in_type_match :: "bool \<Rightarrow> bool \<Rightarrow> bool \<Rightarrow> bool \<Rightarrow> bool \<Rightarrow> conn_type \<Rightarrow> bool" where
  "in_type_match http https socks5 tproxy inner ct =
     (case ct of Http \<Rightarrow> http | Https \<Rightarrow> https | Socks5 \<Rightarrow> socks5 | TProxy \<Rightarrow> tproxy | Inner \<Rightarrow> inner
      | _ \<Rightarrow> False)"

definition ranges_match :: "ext \<Rightarrow> ip_ranges \<Rightarrow> ipaddr option \<Rightarrow> bool" where
  "ranges_match X ranges ip =
     (case ip of
        Some (V4 a) \<Rightarrow> range_contains X (arc_val (ranges_v4 ranges)) (NetV4 a 32)
      | Some (V6 a) \<Rightarrow> range_contains X (arc_val (ranges_v6 ranges)) (NetV6 a 128)
      | None \<Rightarrow> False)"

definition suffix_matcher_matches :: "family \<Rightarrow> ipaddr \<Rightarrow> bool" where
  "suffix_matcher_matches fam ip =
     (case (fam, ip) of
        (FamV4 sfx low, V4 a) \<Rightarrow> (a AND low) = sfx
      | (FamV6 sfx low, V6 a) \<Rightarrow> (a AND low) = sfx
      | _ \<Rightarrow> False)"

definition geosite_match :: "ext \<Rightarrow> string \<Rightarrow> geosite_db arc option \<Rightarrow> string \<Rightarrow> bool" where
  "geosite_match X category db host =
     (case db of
        None \<Rightarrow> False
      | Some d \<Rightarrow>
          if category = [] then False
          else if host = [] then False
          else geosite_lookup X (arc_val d) category host)"

text \<open>The bodies of \<open>match_metadata\<close> of the rules that have no parts.\<close>

definition domain_match :: "string \<Rightarrow> metadata \<Rightarrow> bool" where
  [simp]: "domain_match domain m =
     eq_ignore_ascii_case (rule_host m) domain"

definition domain_regex_match :: "ext \<Rightarrow> string \<Rightarrow> metadata \<Rightarrow> bool" where
  [simp]: "domain_regex_match X regex m =
     regex_is_match X regex (rule_host m)"

definition domain_wildcard_match :: "ext \<Rightarrow> string \<Rightarrow> metadata \<Rightarrow> bool" where
  [simp]: "domain_wildcard_match X regex m =
     (rule_host m \<noteq> [] \<and> regex_is_match X regex (rule_host m))"

definition ipcidr_match :: "ext \<Rightarrow> ipnet \<Rightarrow> bool \<Rightarrow> metadata \<Rightarrow> bool" where
  [simp]: "ipcidr_match X cidr is_src m =
     (case (if is_src then md_src_ip m else md_dst_ip m) of
        Some a \<Rightarrow> net_contains X cidr a | None \<Rightarrow> False)"

definition port_match :: "port_range list \<Rightarrow> bool \<Rightarrow> metadata \<Rightarrow> bool" where
  [simp]: "port_match ranges is_src m =
     matches_port ranges (if is_src then md_src_port m else md_dst_port m)"

definition in_port_match :: "port_range list \<Rightarrow> metadata \<Rightarrow> bool" where
  [simp]: "in_port_match ranges m =
     (if md_in_port m = 0 then False else matches_port ranges (md_in_port m))"

definition dscp_match :: "8 word \<Rightarrow> metadata \<Rightarrow> bool" where
  [simp]: "dscp_match v m =
     (md_dscp m = Some v)"

definition network_match :: "network \<Rightarrow> metadata \<Rightarrow> bool" where
  [simp]: "network_match net m =
     (md_network m = net)"

definition uid_match :: "ext \<Rightarrow> 32 word \<Rightarrow> metadata \<Rightarrow> bool" where
  [simp]: "uid_match X u m =
     (if target_linux X then md_uid m = Some u else False)"

definition process_match :: "string \<Rightarrow> metadata \<Rightarrow> bool" where
  [simp]: "process_match name m =
     eq_ignore_ascii_case (md_process m) name"

definition in_name_match :: "string \<Rightarrow> metadata \<Rightarrow> bool" where
  [simp]: "in_name_match name m =
     (md_in_name m \<noteq> [] \<and> md_in_name m = name)"

definition in_user_match :: "string \<Rightarrow> metadata \<Rightarrow> bool" where
  [simp]: "in_user_match username m =
     (md_in_user m = Some username)"

definition geoip_match :: "ext \<Rightarrow> ip_ranges \<Rightarrow> metadata \<Rightarrow> bool" where
  [simp]: "geoip_match X ranges m =
     ranges_match X ranges (md_dst_ip m)"

definition src_geoip_match :: "ext \<Rightarrow> ip_ranges \<Rightarrow> metadata \<Rightarrow> bool" where
  [simp]: "src_geoip_match X ranges m =
     ranges_match X ranges (md_src_ip m)"

definition ip_asn_match :: "ext \<Rightarrow> ip_ranges \<Rightarrow> bool \<Rightarrow> metadata \<Rightarrow> bool" where
  [simp]: "ip_asn_match X ranges src m =
     ranges_match X ranges (if src then md_src_ip m else md_dst_ip m)"

definition ip_suffix_match :: "family \<Rightarrow> bool \<Rightarrow> metadata \<Rightarrow> bool" where
  [simp]: "ip_suffix_match fam src m =
     (case (if src then md_src_ip m else md_dst_ip m) of
        Some ip \<Rightarrow> suffix_matcher_matches fam ip | None \<Rightarrow> False)"

definition domain_set_matches :: "unit domain_trie \<Rightarrow> metadata \<Rightarrow> bool" where
  [simp]: "domain_set_matches trie m =
     (if rule_host m = [] then False else trie_search trie (rule_host m) \<noteq> None)"

definition ipcidr_set_matches :: "ext \<Rightarrow> iprange \<Rightarrow> iprange \<Rightarrow> metadata \<Rightarrow> bool" where
  [simp]: "ipcidr_set_matches X v4 v6 m =
     (case md_dst_ip m of
        None \<Rightarrow> False
      | Some (V4 a) \<Rightarrow> range_contains X v4 (NetV4 a 32)
      | Some (V6 a) \<Rightarrow> range_contains X v6 (NetV6 a 128))"

fun match_metadata :: "ext \<Rightarrow> rule \<Rightarrow> metadata \<Rightarrow> bool"
  and rule_set_matches :: "ext \<Rightarrow> rule_set \<Rightarrow> metadata \<Rightarrow> bool" where
  "match_metadata X (DomainRule domain _) m = domain_match domain m"
| "match_metadata X (DomainSuffixRule sfx _) m = suffix_match (rule_host m) sfx"
| "match_metadata X (DomainKeywordRule keyword _) m = keyword_match (rule_host m) keyword"
| "match_metadata X (DomainRegexRule regex _ _) m = domain_regex_match X regex m"
| "match_metadata X (DomainWildcardRule regex _ _) m = domain_wildcard_match X regex m"
| "match_metadata X (IpCidrRule cidr _ _ is_src _) m = ipcidr_match X cidr is_src m"
| "match_metadata X (PortRule ranges _ _ is_src) m = port_match ranges is_src m"
| "match_metadata X (InPortRule ranges _ _) m = in_port_match ranges m"
| "match_metadata X (DscpRule v _ _) m = dscp_match v m"
| "match_metadata X (NetworkRule net _ _) m = network_match net m"
| "match_metadata X (UidRule u _ _) m = uid_match X u m"
| "match_metadata X (FinalRule _) m = True"
| "match_metadata X (ProcessRule name _) m = process_match name m"
| "match_metadata X (ProcessPathRule payload mode _) m =
     process_path_match X payload mode (md_process_path m)"
| "match_metadata X (InNameRule name _) m = in_name_match name m"
| "match_metadata X (InTypeRule _ _ http https socks5 tproxy inner) m =
     in_type_match http https socks5 tproxy inner (md_conn_type m)"
| "match_metadata X (InUserRule username _) m = in_user_match username m"
| "match_metadata X (GeoIpRule _ _ _ ranges) m = geoip_match X ranges m"
| "match_metadata X (SrcGeoIpRule _ _ ranges) m = src_geoip_match X ranges m"
| "match_metadata X (IpAsnRule _ _ ranges src _) m = ip_asn_match X ranges src m"
| "match_metadata X (IpSuffixRule _ _ fam src _) m = ip_suffix_match fam src m"
| "match_metadata X (GeoSiteRule category _ _ db _) m = geosite_match X category db (rule_host m)"
| "match_metadata X (RuleSetRule _ (Arc _ rset) _ _) m = rule_set_matches X rset m"
| "match_metadata X (SubRuleRule _ (Arc _ block)) m = list_ex (\<lambda>r. match_metadata X r m) block"
| "match_metadata X (AndRule rs _ _) m = list_all (\<lambda>r. match_metadata X r m) rs"
| "match_metadata X (OrRule rs _ _) m = list_ex (\<lambda>r. match_metadata X r m) rs"
| "match_metadata X (NotRule r _ _) m = (\<not> match_metadata X r m)"
| "rule_set_matches X (DomainRuleSet trie _) m = domain_set_matches trie m"
| "rule_set_matches X (IpCidrRuleSet v4 v6 _) m = ipcidr_set_matches X v4 v6 m"
| "rule_set_matches X (ClassicalRuleSet rs) m = list_ex (\<lambda>r. match_metadata X r m) rs"

subsection \<open>Demands, constants and targets\<close>

fun should_resolve_ip :: "rule \<Rightarrow> bool"
  and set_should_resolve_ip :: "rule_set \<Rightarrow> bool" where
  "should_resolve_ip (IpCidrRule _ _ _ is_src no_resolve) = (\<not> is_src \<and> \<not> no_resolve)"
| "should_resolve_ip (GeoIpRule _ _ no_resolve _) = (\<not> no_resolve)"
| "should_resolve_ip (IpAsnRule _ _ _ _ no_resolve) = (\<not> no_resolve)"
| "should_resolve_ip (IpSuffixRule _ _ _ _ no_resolve) = (\<not> no_resolve)"
| "should_resolve_ip (GeoSiteRule _ _ _ _ no_resolve) = (\<not> no_resolve)"
| "should_resolve_ip (RuleSetRule _ (Arc _ rset) _ no_resolve) = (set_should_resolve_ip rset \<and> \<not> no_resolve)"
| "should_resolve_ip (SubRuleRule _ (Arc _ block)) = list_ex should_resolve_ip block"
| "should_resolve_ip (AndRule rs _ _) = list_ex should_resolve_ip rs"
| "should_resolve_ip (OrRule rs _ _) = list_ex should_resolve_ip rs"
| "should_resolve_ip (NotRule r _ _) = should_resolve_ip r"
| "should_resolve_ip _ = False"
| "set_should_resolve_ip (DomainRuleSet _ _) = False"
| "set_should_resolve_ip (IpCidrRuleSet _ _ _) = True"
| "set_should_resolve_ip (ClassicalRuleSet rs) = list_ex should_resolve_ip rs"

fun should_find_process :: "rule \<Rightarrow> bool"
  and set_should_find_process :: "rule_set \<Rightarrow> bool" where
  "should_find_process (UidRule _ _ _) = True"
| "should_find_process (ProcessRule _ _) = True"
| "should_find_process (ProcessPathRule _ _ _) = True"
| "should_find_process (RuleSetRule _ (Arc _ rset) _ _) = set_should_find_process rset"
| "should_find_process (SubRuleRule _ (Arc _ block)) = list_ex should_find_process block"
| "should_find_process (AndRule rs _ _) = list_ex should_find_process rs"
| "should_find_process (OrRule rs _ _) = list_ex should_find_process rs"
| "should_find_process (NotRule r _ _) = should_find_process r"
| "should_find_process _ = False"
| "set_should_find_process (DomainRuleSet _ _) = False"
| "set_should_find_process (IpCidrRuleSet _ _ _) = False"
| "set_should_find_process (ClassicalRuleSet rs) = list_ex should_find_process rs"

fun never_matches :: "rule \<Rightarrow> bool" where
  "never_matches (GeoSiteRule category _ _ db _) =
     (category = [] \<or>
      (case db of None \<Rightarrow> True | Some d \<Rightarrow> resolve_keys (arc_val d) category = None))"
| "never_matches _ = False"

fun match_and_resolve :: "ext \<Rightarrow> rule \<Rightarrow> metadata \<Rightarrow> string option" where
  "match_and_resolve X (SubRuleRule _ (Arc _ block)) m =
     find_map (\<lambda>r. match_and_resolve X r m) block"
| "match_and_resolve X r m = (if match_metadata X r m then Some (rule_adapter r) else None)"

datatype rule_set_behavior = BehDomain | BehIpCidr | BehClassical

fun set_behavior :: "rule_set \<Rightarrow> rule_set_behavior" where
  "set_behavior (DomainRuleSet _ _) = BehDomain"
| "set_behavior (IpCidrRuleSet _ _ _) = BehIpCidr"
| "set_behavior (ClassicalRuleSet _) = BehClassical"

fun set_len :: "rule_set \<Rightarrow> nat" where
  "set_len (DomainRuleSet _ n) = n"
| "set_len (IpCidrRuleSet _ _ n) = n"
| "set_len (ClassicalRuleSet rs) = length rs"

fun set_matches_domain :: "ext \<Rightarrow> rule_set \<Rightarrow> string \<Rightarrow> bool" where
  "set_matches_domain X (DomainRuleSet trie _) domain = (trie_search trie domain \<noteq> None)"
| "set_matches_domain X (IpCidrRuleSet _ _ _) domain = False"
| "set_matches_domain X (ClassicalRuleSet rs) domain =
     list_ex (\<lambda>r. match_metadata X r (default_metadata\<lparr>md_host := domain\<rparr>)) rs"

subsection \<open>Well-formed rules\<close>

text \<open>
  A rule is well formed when its fields are those its \<open>new\<close> computes from a trimmed payload, the
  form in which the parser hands payloads over. Logic rules have well-formed parts; rule sets and
  sub-rule blocks are opaque to the compiler and unconstrained.
\<close>

fun wf_rule :: "ext \<Rightarrow> rule \<Rightarrow> bool" where
  "wf_rule X (DomainRule domain _) \<longleftrightarrow> is_lower domain \<and> trimmed domain"
| "wf_rule X (DomainSuffixRule sfx _) \<longleftrightarrow> is_lower sfx \<and> trimmed sfx"
| "wf_rule X (DomainKeywordRule keyword _) \<longleftrightarrow> is_lower keyword"
| "wf_rule X (DomainRegexRule regex pattern _) \<longleftrightarrow> regex = pattern \<and> regex_new X pattern"
| "wf_rule X (DomainWildcardRule regex raw _) \<longleftrightarrow>
     regex = wildcard_regex X raw \<and> regex_new X regex \<and> is_ascii raw \<and> trimmed raw"
| "wf_rule X (IpCidrRule cidr cidr_str _ _ _) \<longleftrightarrow> parse_net X cidr_str = Some cidr"
| "wf_rule X (PortRule ranges raw _ _) \<longleftrightarrow> parse_port_list raw = Inr ranges"
| "wf_rule X (InPortRule ranges raw _) \<longleftrightarrow> parse_port_list raw = Inr ranges"
| "wf_rule X (DscpRule v raw _) \<longleftrightarrow> parse_u8 (trim raw) = Some v \<and> v \<le> 63"
| "wf_rule X (NetworkRule net raw a) \<longleftrightarrow> network_new raw a = Inr (NetworkRule net raw a)"
| "wf_rule X (UidRule v raw _) \<longleftrightarrow> parse_u32 (trim raw) = Some v"
| "wf_rule X (ProcessPathRule payload mode a) \<longleftrightarrow>
     process_path_new X payload a = Inr (ProcessPathRule payload mode a)"
| "wf_rule X (InTypeRule raw a h hs s t i) \<longleftrightarrow> in_type_new raw a = Inr (InTypeRule raw a h hs s t i)"
| "wf_rule X (GeoSiteRule category payload _ _ _) \<longleftrightarrow>
     category = to_ascii_lowercase (trim payload) \<and> fst (split_category_attrs category) \<noteq> [] \<and>
     CHR '','' \<notin> set category"
| "wf_rule X (AndRule rs _ payload) \<longleftrightarrow>
     payload = join '' AND '' (map rule_payload rs) \<and> list_all (wf_rule X) rs"
| "wf_rule X (OrRule rs _ payload) \<longleftrightarrow>
     payload = join '' OR '' (map rule_payload rs) \<and> list_all (wf_rule X) rs"
| "wf_rule X (NotRule r _ payload) \<longleftrightarrow> payload = ''NOT '' @ rule_payload r \<and> wf_rule X r"
| "wf_rule X _ \<longleftrightarrow> True"

subsection \<open>Domain predicates\<close>

lemma drop_eq_append_iff:
  "length p \<le> length s \<Longrightarrow> drop (length s - length p) s = p \<longleftrightarrow> (\<exists>a. s = a @ p)"
  by (metis append_eq_conv_conj append_take_drop_id diff_le_self length_append add_diff_cancel_right')

lemma suffix_match_iff:
  "suffix_match host sfx \<longleftrightarrow>
     to_ascii_lowercase host = to_ascii_lowercase sfx \<or>
     ends_with (CHR ''.'' # to_ascii_lowercase sfx) (to_ascii_lowercase host)"
proof -
  consider (eq) "length host = length sfx" | (gt) "length host > length sfx" | (lt) "length host < length sfx"
    by linarith
  then show ?thesis
  proof cases
    case eq
    then show ?thesis by (auto simp: suffix_match_def eq_ignore_ascii_case_def ends_with_def)
  next
    case gt
    define d where "d = length host - length sfx - 1"
    have d: "d < length host" "length host - length sfx = d + 1" using gt by (auto simp: d_def)
    have "drop d (to_ascii_lowercase host) = lower_char (host ! d) # drop (d + 1) (to_ascii_lowercase host)"
      using d by (simp add: Cons_nth_drop_Suc [symmetric] to_ascii_lowercase_def)
    moreover have "length (to_ascii_lowercase host) - length (CHR ''.'' # to_ascii_lowercase sfx) = d"
      using gt by (simp add: d_def)
    moreover have "to_ascii_lowercase host \<noteq> to_ascii_lowercase sfx"
      using gt by (metis length_lower less_irrefl)
    ultimately show ?thesis
      using gt d by (simp add: suffix_match_def Let_def d_def [symmetric] eq_ignore_ascii_case_def
        ends_with_def lower_drop)
  next
    case lt
    moreover have "to_ascii_lowercase host \<noteq> to_ascii_lowercase sfx"
      using lt by (metis length_lower less_irrefl)
    ultimately show ?thesis by (simp add: suffix_match_def ends_with_def)
  qed
qed

lemma windows_sublist: "n \<le> length xs \<Longrightarrow> w \<in> set (windows n xs) \<longleftrightarrow> length w = n \<and> sublist w xs"
proof
  assume n: "n \<le> length xs" and "w \<in> set (windows n xs)"
  then obtain i where i: "i + n \<le> length xs" "w = take n (drop i xs)"
    by (auto simp: windows_def) (metis Suc_diff_le less_Suc_eq_le le_diff_conv2)
  then have "xs = take i xs @ w @ drop (i + n) xs"
    by (metis append_take_drop_id drop_drop add.commute)
  with i show "length w = n \<and> sublist w xs" by (auto simp: sublist_def)
next
  assume "n \<le> length xs" and "length w = n \<and> sublist w xs"
  then obtain a b where "xs = a @ w @ b" "length w = n" by (auto simp: sublist_def)
  then show "w \<in> set (windows n xs)"
    by (auto simp: windows_def image_iff intro!: bexI [of _ "length a"])
qed

lemma keyword_match_iff:
  "keyword_match host kw \<longleftrightarrow> contains_str (to_ascii_lowercase kw) (to_ascii_lowercase host)"
proof (cases "kw = [] \<or> length host < length kw")
  case True
  moreover have "\<not> sublist (to_ascii_lowercase kw) (to_ascii_lowercase host)" if "length host < length kw"
    using that sublist_length_le [of "to_ascii_lowercase kw" "to_ascii_lowercase host"] by auto
  ultimately show ?thesis by (auto simp: keyword_match_def contains_str_sublist)
next
  case False
  have "(\<exists>w. length w = length kw \<and> sublist w host \<and> to_ascii_lowercase w = to_ascii_lowercase kw) \<longleftrightarrow>
        sublist (to_ascii_lowercase kw) (to_ascii_lowercase host)" (is "?l \<longleftrightarrow> ?r")
  proof
    assume ?l
    then show ?r by (force simp: sublist_def)
  next
    assume ?r
    then obtain a b where ab: "to_ascii_lowercase host = a @ to_ascii_lowercase kw @ b" by (auto simp: sublist_def)
    define w where "w = take (length kw) (drop (length a) host)"
    have "to_ascii_lowercase w = to_ascii_lowercase kw"
      using ab by (simp add: w_def lower_take lower_drop)
    moreover from this have "length w = length kw" by (metis length_lower)
    moreover have "host = take (length a) host @ w @ drop (length kw) (drop (length a) host)"
      unfolding w_def by (metis append_take_drop_id)
    then have "sublist w host" by (metis sublist_appendI)
    ultimately show ?l by blast
  qed
  with False show ?thesis
    by (auto simp: keyword_match_def contains_str_sublist list_ex_iff windows_sublist eq_ignore_ascii_case_def)
qed

lemma never_matches_sound:
  "never_matches r \<Longrightarrow> wf_rule X r \<Longrightarrow> \<not> match_metadata X r m"
  by (cases r rule: never_matches.cases)
    (auto simp: geosite_match_def lookup_resolve_keys split: option.splits)

end
