(* ===== verification/Matchers.thy ===== *)
theory Matchers
  imports Rules "HOL-Library.Product_Lexorder"
begin

text \<open>
  The compiled matchers of \<open>meow-tunnel/src/rule_ir.rs\<close>: port lists canonicalised into sorted,
  merged spans, wildcard patterns compiled to anchored pieces, regular expressions with a required
  literal, process paths and inbound types. Each is compared with the rule it was compiled from.
\<close>

subsection \<open>Ports\<close>

datatype port_matcher =
    PmSingle "16 word" | PmRange "16 word" "16 word" | PmMultiple "port_range list"

fun port_matcher_matches :: "port_matcher \<Rightarrow> 16 word \<Rightarrow> bool" where
  "port_matcher_matches (PmSingle v) port = (port = v)"
| "port_matcher_matches (PmRange lo hi) port = (port \<ge> lo \<and> port \<le> hi)"
| "port_matcher_matches (PmMultiple ranges) port = list_ex (\<lambda>r. port_range_matches r port) ranges"

fun compile_spans :: "string list \<Rightarrow> (16 word \<times> 16 word) list option" where
  "compile_spans [] = Some []"
| "compile_spans (p # ps) =
     (let part = trim p in
      if part = [] then compile_spans ps
      else case split_once (CHR ''-'') part of
        Some (lo, hi) \<Rightarrow>
          (case parse_u16 (trim lo) of
             None \<Rightarrow> None
           | Some start \<Rightarrow>
             (case parse_u16 (trim hi) of
                None \<Rightarrow> None
              | Some stop \<Rightarrow>
                  if start > stop then None
                  else map_option ((#) (start, stop)) (compile_spans ps)))
      | None \<Rightarrow>
          (case parse_u16 part of
             None \<Rightarrow> None
           | Some v \<Rightarrow> map_option ((#) (v, v)) (compile_spans ps)))"

definition merge_span :: "(16 word \<times> 16 word) list \<Rightarrow> 16 word \<times> 16 word \<Rightarrow> (16 word \<times> 16 word) list" where
  "merge_span merged span =
     (if merged \<noteq> [] \<and> unat (fst span) \<le> unat (snd (last merged)) + 1
      then butlast merged @ [(fst (last merged), max (snd (last merged)) (snd span))]
      else merged @ [span])"

definition merge_spans :: "(16 word \<times> 16 word) list \<Rightarrow> (16 word \<times> 16 word) list" where
  "merge_spans spans = foldl merge_span [] (sort spans)"

definition port_matcher_of_spans :: "(16 word \<times> 16 word) list \<Rightarrow> port_matcher option" where
  "port_matcher_of_spans merged =
     (case merged of
        [] \<Rightarrow> None
      | [(lo, hi)] \<Rightarrow> Some (if lo = hi then PmSingle lo else PmRange lo hi)
      | _ \<Rightarrow> Some (PmMultiple (map (\<lambda>(lo, hi). if lo = hi then PortSingle lo else PortSpan lo hi) merged)))"

definition compile_port_matcher :: "string \<Rightarrow> port_matcher option" where
  "compile_port_matcher payload =
     (case compile_spans (split_by (\<lambda>c. c = CHR '','' \<or> c = CHR ''/'') payload) of
        None \<Rightarrow> None
      | Some spans \<Rightarrow> port_matcher_of_spans (merge_spans spans))"

fun span_str :: "port_range \<Rightarrow> string" where
  "span_str (PortSingle v) = show_nat (unat v)"
| "span_str (PortSpan lo hi) = show_nat (unat lo) @ ''-'' @ show_nat (unat hi)"

fun port_fingerprint :: "port_matcher \<Rightarrow> string" where
  "port_fingerprint (PmSingle v) = show_nat (unat v)"
| "port_fingerprint (PmRange lo hi) = show_nat (unat lo) @ ''-'' @ show_nat (unat hi)"
| "port_fingerprint (PmMultiple ranges) = join '','' (map span_str ranges)"

text \<open>Spans as sets of ports.\<close>

definition in_spans :: "16 word \<Rightarrow> (16 word \<times> 16 word) list \<Rightarrow> bool" where
  "in_spans p spans \<longleftrightarrow> (\<exists>(lo, hi) \<in> set spans. lo \<le> p \<and> p \<le> hi)"

fun span_of :: "port_range \<Rightarrow> 16 word \<times> 16 word" where
  "span_of (PortSingle p) = (p, p)"
| "span_of (PortSpan lo hi) = (lo, hi)"

lemma port_range_matches_span: "port_range_matches r p \<longleftrightarrow> fst (span_of r) \<le> p \<and> p \<le> snd (span_of r)"
  by (cases r) auto

lemma matches_port_spans: "matches_port ranges p \<longleftrightarrow> in_spans p (map span_of ranges)"
  by (auto simp: matches_port_def in_spans_def list_ex_iff port_range_matches_span case_prod_beta)

lemma in_spans_append: "in_spans p (xs @ ys) \<longleftrightarrow> in_spans p xs \<or> in_spans p ys"
  by (auto simp: in_spans_def)

lemma compile_spans_parts:
  "compile_spans ps = (case parse_port_parts ps of Inl _ \<Rightarrow> None | Inr rs \<Rightarrow> Some (map span_of rs))"
  by (induction ps rule: compile_spans.induct)
    (auto simp: Let_def split: option.splits sum.splits if_splits)

lemma in_spans_merge_span:
  assumes "merged \<noteq> [] \<Longrightarrow> fst (last merged) \<le> fst span"
  shows "in_spans p (merge_span merged span) \<longleftrightarrow> in_spans p merged \<or> in_spans p [span]"
proof (cases "merged \<noteq> [] \<and> unat (fst span) \<le> unat (snd (last merged)) + 1")
  case True
  obtain a b where l: "last merged = (a, b)" by fastforce
  obtain lo hi where s: "span = (lo, hi)" by fastforce
  from True l s assms have le: "a \<le> lo" "unat lo \<le> unat b + 1" by auto
  have m: "merged = butlast merged @ [(a, b)]" using True l by (metis append_butlast_last_id)
  have "a \<le> p \<and> p \<le> max b hi \<longleftrightarrow> (a \<le> p \<and> p \<le> b) \<or> (lo \<le> p \<and> p \<le> hi)"
    using le by (auto simp: word_le_nat_alt max_def)
  then have "in_spans p [(a, max b hi)] \<longleftrightarrow> in_spans p [(a, b)] \<or> in_spans p [(lo, hi)]"
    by (simp add: in_spans_def)
  then show ?thesis
    using True l s by (subst (2) m) (auto simp: merge_span_def in_spans_append)
next
  case False
  then have "merge_span merged span = merged @ [span]" unfolding merge_span_def by (simp only: if_False)
  then show ?thesis by (simp add: in_spans_append)
qed

lemma fst_last_merge_span:
  "fst (last (merge_span merged span)) = fst span \<or>
   (merged \<noteq> [] \<and> fst (last (merge_span merged span)) = fst (last merged))"
  by (simp add: merge_span_def)

lemma in_spans_foldl_merge:
  assumes "sorted (map fst spans)" and "\<forall>s \<in> set spans. merged \<noteq> [] \<longrightarrow> fst (last merged) \<le> fst s"
  shows "in_spans p (foldl merge_span merged spans) \<longleftrightarrow> in_spans p merged \<or> in_spans p spans"
  using assms
proof (induction spans arbitrary: merged)
  case Nil
  then show ?case by (simp add: in_spans_def)
next
  case (Cons s spans)
  have "\<forall>t \<in> set spans. merge_span merged s \<noteq> [] \<longrightarrow> fst (last (merge_span merged s)) \<le> fst t"
    using Cons.prems fst_last_merge_span [of merged s] by fastforce
  with Cons have "in_spans p (foldl merge_span (merge_span merged s) spans) \<longleftrightarrow>
      in_spans p (merge_span merged s) \<or> in_spans p spans" by simp
  moreover have "in_spans p (merge_span merged s) \<longleftrightarrow> in_spans p merged \<or> in_spans p [s]"
    using Cons.prems by (intro in_spans_merge_span) simp
  ultimately show ?case by (auto simp: in_spans_def)
qed

lemma in_spans_merge_spans: "in_spans p (merge_spans spans) \<longleftrightarrow> in_spans p spans"
proof -
  have "sorted (map fst (sort spans))"
  proof -
    have "sorted (sort spans)" by simp
    then show ?thesis by (rule sorted_map_mono) (auto simp: mono_on_def less_eq_prod_def)
  qed
  then show ?thesis
    unfolding merge_spans_def by (simp add: in_spans_foldl_merge) (simp add: in_spans_def)
qed

lemma merge_spans_Nil: "merge_spans spans = [] \<longleftrightarrow> spans = []"
proof -
  have "foldl merge_span acc xs \<noteq> []" if "acc \<noteq> [] \<or> xs \<noteq> []" for acc xs
    using that by (induction xs arbitrary: acc) (auto simp: merge_span_def)
  then show ?thesis by (metis foldl_Nil merge_spans_def sort_key_simps(1) set_empty set_sort)
qed

fun matcher_ranges :: "port_matcher \<Rightarrow> port_range list" where
  "matcher_ranges (PmSingle v) = [PortSingle v]"
| "matcher_ranges (PmRange lo hi) = [PortSpan lo hi]"
| "matcher_ranges (PmMultiple ranges) = ranges"

lemma port_matcher_ranges: "port_matcher_matches pm p \<longleftrightarrow> matches_port (matcher_ranges pm) p"
  by (cases pm) (simp_all add: matches_port_def)

lemma port_matcher_of_spans_ranges:
  assumes "spans \<noteq> []"
  obtains pm where "port_matcher_of_spans spans = Some pm"
    "matcher_ranges pm = map (\<lambda>(lo, hi). if lo = hi then PortSingle lo else PortSpan lo hi) spans"
proof -
  from assms consider (one) lo hi where "spans = [(lo, hi)]" | (many) x y zs where "spans = x # y # zs"
    by (metis list.exhaust surj_pair)
  then show thesis
  proof cases
    case (one lo hi)
    then show thesis
      by (intro that [of "if lo = hi then PmSingle lo else PmRange lo hi"])
        (simp_all add: port_matcher_of_spans_def)
  next
    case (many x y zs)
    then show thesis
      by (intro that [of "PmMultiple (map (\<lambda>(lo, hi). if lo = hi then PortSingle lo else PortSpan lo hi) spans)"])
        (simp_all add: port_matcher_of_spans_def split: prod.split)
  qed
qed

lemma span_range_matches:
  "port_range_matches (if lo = hi then PortSingle lo else PortSpan lo hi) p \<longleftrightarrow> lo \<le> p \<and> p \<le> hi"
  by auto

lemma matches_span_ranges:
  "matches_port (map (\<lambda>(lo, hi). if lo = hi then PortSingle lo else PortSpan lo hi) spans) p \<longleftrightarrow> in_spans p spans"
  by (induction spans) (auto simp: matches_port_def in_spans_def span_range_matches)

lemma compile_port_matcher_parsed:
  assumes "parse_port_list raw = Inr ranges"
  obtains pm where "compile_port_matcher raw = Some pm"
    "\<And>p. port_matcher_matches pm p \<longleftrightarrow> matches_port ranges p"
proof -
  let ?parts = "split_by (\<lambda>c. c = CHR '','' \<or> c = CHR ''/'') raw"
  from assms have r: "parse_port_parts ?parts = Inr ranges" "ranges \<noteq> []"
    by (auto simp: parse_port_list_def split: sum.splits if_splits)
  then have c: "compile_spans ?parts = Some (map span_of ranges)" by (simp add: compile_spans_parts)
  have "merge_spans (map span_of ranges) \<noteq> []" using r(2) by (simp add: merge_spans_Nil)
  then obtain pm where pm: "port_matcher_of_spans (merge_spans (map span_of ranges)) = Some pm"
    and ranges: "matcher_ranges pm =
      map (\<lambda>(lo, hi). if lo = hi then PortSingle lo else PortSpan lo hi) (merge_spans (map span_of ranges))"
    by (rule port_matcher_of_spans_ranges)
  show thesis
  proof
    show "compile_port_matcher raw = Some pm" using c pm by (simp add: compile_port_matcher_def)
    show "port_matcher_matches pm p \<longleftrightarrow> matches_port ranges p" for p
      unfolding port_matcher_ranges ranges matches_span_ranges
      by (simp add: in_spans_merge_spans matches_port_spans)
  qed
qed

lemma span_str_no_comma: "CHR '','' \<notin> set (span_str r)"
proof -
  have "CHR '','' \<notin> set (show_nat n)" for n
    using show_nat_digits [of n] digit_not_plus by (auto simp: list_all_iff)
  then show ?thesis by (cases r) auto
qed

lemma span_str_inject: "span_str a = span_str b \<longleftrightarrow> a = b"
proof -
  have no: "CHR ''-'' \<notin> set (show_nat n)" for n
    using show_nat_digits [of n] digit_not_plus by (auto simp: list_all_iff)
  have "show_nat x @ CHR ''-'' # show_nat y = show_nat x' @ CHR ''-'' # show_nat y' \<longleftrightarrow> x = x' \<and> y = y'" for x y x' y'
    using sep_inject [of "CHR ''-''" "show_nat x" "show_nat x'"] no by auto
  moreover have "show_nat x \<noteq> show_nat y @ CHR ''-'' # show_nat z" for x y z
    using no [of x] by (metis in_set_conv_decomp)
  ultimately show ?thesis by (cases a; cases b) (auto dest: sym unsigned_word_eqI)
qed

lemma port_fingerprint_ranges: "port_fingerprint pm = join '','' (map span_str (matcher_ranges pm))"
  by (cases pm) simp_all

lemma port_fingerprint_inject:
  assumes "port_fingerprint a = port_fingerprint b" "matcher_ranges a \<noteq> []" "matcher_ranges b \<noteq> []"
  shows "port_matcher_matches a p \<longleftrightarrow> port_matcher_matches b p"
proof -
  have "map span_str (matcher_ranges a) = map span_str (matcher_ranges b)"
    using assms span_str_no_comma
    by (subst join_inject [of _ _ "CHR '',''", symmetric]) (auto simp: port_fingerprint_ranges)
  then have "matcher_ranges a = matcher_ranges b"
    by (rule inj_map_eq_map [THEN iffD1, rotated]) (simp add: inj_def span_str_inject)
  then show ?thesis by (simp add: port_matcher_ranges)
qed

lemma compile_port_matcher_ranges_ne:
  "compile_port_matcher raw = Some pm \<Longrightarrow> matcher_ranges pm \<noteq> []"
proof -
  assume "compile_port_matcher raw = Some pm"
  then obtain spans where s: "port_matcher_of_spans (merge_spans spans) = Some pm"
    by (auto simp: compile_port_matcher_def split: option.splits)
  then have "merge_spans spans \<noteq> []" by (auto simp: port_matcher_of_spans_def)
  moreover from this obtain pm' where "port_matcher_of_spans (merge_spans spans) = Some pm'"
    "matcher_ranges pm' = map (\<lambda>(lo, hi). if lo = hi then PortSingle lo else PortSpan lo hi) (merge_spans spans)"
    by (rule port_matcher_of_spans_ranges)
  ultimately show ?thesis using s by simp
qed

subsection \<open>Wildcard globs\<close>

function gap_loop :: "string \<Rightarrow> string \<Rightarrow> nat \<Rightarrow> nat option" where
  "gap_loop host needle start =
     (if start + length needle \<le> length host then
        (if host ! (start - 1) = CHR ''.'' then None
         else if eq_ignore_ascii_case (take (length needle) (drop start host)) needle then Some start
         else gap_loop host needle (start + 1))
      else None)"
  by pat_completeness auto
termination by (relation "measure (\<lambda>(host, needle, start). Suc (length host) - start)") auto

declare gap_loop.simps [simp del]

definition find_after_dotfree_gap :: "string \<Rightarrow> nat \<Rightarrow> string \<Rightarrow> nat option" where
  "find_after_dotfree_gap host pos needle = gap_loop host needle (pos + 1)"

definition glob_compile :: "string \<Rightarrow> string list option" where
  "glob_compile pattern =
     (let parts = split_on (CHR ''*'') pattern in
      if length parts \<ge> 3 \<and> list_ex (\<lambda>p. p = []) (butlast (tl parts)) then None else Some parts)"

fun glob_interior :: "string \<Rightarrow> nat \<Rightarrow> string list \<Rightarrow> nat option" where
  "glob_interior host pos [] = Some pos"
| "glob_interior host pos (mid # mids) =
     (case find_after_dotfree_gap host pos mid of
        Some start \<Rightarrow> glob_interior host (start + length mid) mids
      | None \<Rightarrow> None)"

definition glob_matches :: "string list \<Rightarrow> string \<Rightarrow> bool" where
  "glob_matches pieces host =
     (if length pieces = 1 then eq_ignore_ascii_case host (pieces ! 0)
      else let first = pieces ! 0 in
        if length host < length first \<or> \<not> eq_ignore_ascii_case (take (length first) host) first then False
        else case glob_interior host (length first) (butlast (tl pieces)) of
          None \<Rightarrow> False
        | Some pos \<Rightarrow>
            (let final = last pieces in
             if length host < length final then False
             else let tail_start = length host - length final in
               if tail_start \<le> pos then False
               else if \<not> eq_ignore_ascii_case (drop tail_start host) final then False
               else CHR ''.'' \<notin> set (take (tail_start - pos) (drop pos host))))"

text \<open>Positions: a needle at a place, and a stretch without dots.\<close>

definition occurs_at :: "string \<Rightarrow> nat \<Rightarrow> string \<Rightarrow> bool" where
  "occurs_at h i n \<longleftrightarrow> i + length n \<le> length h \<and> eq_ignore_ascii_case (take (length n) (drop i h)) n"

definition dotfree :: "string \<Rightarrow> nat \<Rightarrow> nat \<Rightarrow> bool" where
  "dotfree h i j \<longleftrightarrow> (\<forall>k. i \<le> k \<and> k < j \<longrightarrow> h ! k \<noteq> CHR ''.'')"

definition gap_start :: "string \<Rightarrow> nat \<Rightarrow> string \<Rightarrow> nat \<Rightarrow> bool" where
  "gap_start h pos n i \<longleftrightarrow> pos < i \<and> dotfree h pos i \<and> occurs_at h i n"

lemma occurs_at_nth:
  assumes "occurs_at h i n" and "k < length n"
  shows "lower_char (h ! (i + k)) = lower_char (n ! k)"
proof -
  from assms have fits: "i + length n \<le> length h"
    and "map lower_char (take (length n) (drop i h)) ! k = map lower_char n ! k"
    by (simp_all add: occurs_at_def eq_ignore_ascii_case_def to_ascii_lowercase_def)
  moreover have "k < length (take (length n) (drop i h))" using fits assms(2) by simp
  ultimately show ?thesis using assms(2) by simp
qed

lemma occurs_at_dot:
  "occurs_at h i n \<Longrightarrow> k < length n \<Longrightarrow> h ! (i + k) = CHR ''.'' \<longleftrightarrow> n ! k = CHR ''.''"
  using occurs_at_nth [of h i n k] by (metis lower_char_punct(1))

lemma gap_loop_least:
  assumes "dotfree h pos (i - 1)" and "pos < i" and "\<forall>j. pos < j \<and> j < i \<longrightarrow> \<not> occurs_at h j n"
  shows "case gap_loop h n i of
      None \<Rightarrow> \<forall>j. \<not> gap_start h pos n j
    | Some s \<Rightarrow> gap_start h pos n s \<and> (\<forall>j. gap_start h pos n j \<longrightarrow> s \<le> j)"
  using assms
proof (induction h n i rule: gap_loop.induct)
  case (1 h n i)
  show ?case
  proof (cases "i + length n \<le> length h")
    case False
    then have "\<not> gap_start h pos n j" for j
      using 1 by (cases "j < i") (auto simp: gap_start_def occurs_at_def)
    with False show ?thesis by (simp add: gap_loop.simps)
  next
    case fits: True
    show ?thesis
    proof (cases "h ! (i - 1) = CHR ''.''")
      case True
      have "\<not> gap_start h pos n j" for j
      proof (cases "j < i")
        case False
        then have "pos \<le> i - 1 \<and> i - 1 < j" using 1 by linarith
        with True show ?thesis by (auto simp: gap_start_def dotfree_def)
      qed (use 1 in \<open>auto simp: gap_start_def\<close>)
      with fits True show ?thesis by (simp add: gap_loop.simps)
    next
      case False
      have "dotfree h pos i"
        unfolding dotfree_def
      proof (intro allI impI)
        fix k assume "pos \<le> k \<and> k < i"
        with False 1(2) show "h ! k \<noteq> CHR ''.''"
          by (cases "k = i - 1") (auto simp: dotfree_def)
      qed
      note free = this
      show ?thesis
      proof (cases "occurs_at h i n")
        case True
        then have "gap_loop h n i = Some i"
          using fits False by (simp add: gap_loop.simps [of h n i] occurs_at_def)
        moreover have "i \<le> j" if "gap_start h pos n j" for j
          using that 1(4) by (auto simp: gap_start_def not_less [symmetric])
        ultimately show ?thesis using True free 1(3) by (simp add: gap_start_def)
      next
        case no: False
        then have "gap_loop h n i = gap_loop h n (i + 1)"
          using fits False by (simp add: gap_loop.simps [of h n i] occurs_at_def)
        moreover have "\<forall>j. pos < j \<and> j < i + 1 \<longrightarrow> \<not> occurs_at h j n"
          using 1(4) no by (auto simp: less_Suc_eq)
        moreover have "\<not> eq_ignore_ascii_case (take (length n) (drop i h)) n"
          using no fits by (simp add: occurs_at_def)
        ultimately show ?thesis
          using 1(1) [OF fits False] free 1(3) by simp
      qed
    qed
  qed
qed

lemma find_gap_least:
  "case find_after_dotfree_gap h pos n of
      None \<Rightarrow> \<forall>j. \<not> gap_start h pos n j
    | Some s \<Rightarrow> gap_start h pos n s \<and> (\<forall>j. gap_start h pos n j \<longrightarrow> s \<le> j)"
  unfolding find_after_dotfree_gap_def by (rule gap_loop_least) (auto simp: dotfree_def)

definition glob_rest :: "string \<Rightarrow> nat \<Rightarrow> string list \<Rightarrow> bool" where
  "glob_rest h pos ps \<longleftrightarrow>
     (\<exists>s. pos < s \<and> s \<le> length h \<and> dotfree h pos s \<and> wildcard_lang ps (drop s h))"

lemma dotfree_slice: "j \<le> length h \<Longrightarrow> dotfree h i j \<longleftrightarrow> CHR ''.'' \<notin> set (take (j - i) (drop i h))"
  by (auto simp: dotfree_def in_set_conv_nth) (metis le_add_diff_inverse less_diff_conv2 diff_less_mono)

lemma glob_rest_split:
  "glob_rest h pos ps \<longleftrightarrow>
     (\<exists>g t. drop pos h = g @ t \<and> g \<noteq> [] \<and> CHR ''.'' \<notin> set g \<and> wildcard_lang ps t)"
proof
  assume "glob_rest h pos ps"
  then obtain s where s: "pos < s" "s \<le> length h" "dotfree h pos s" "wildcard_lang ps (drop s h)"
    by (auto simp: glob_rest_def)
  have "drop pos h = take (s - pos) (drop pos h) @ drop s h"
    using s(1) by (metis append_take_drop_id drop_drop le_add_diff_inverse2 less_imp_le)
  moreover have "take (s - pos) (drop pos h) \<noteq> []" using s by simp
  ultimately show "\<exists>g t. drop pos h = g @ t \<and> g \<noteq> [] \<and> CHR ''.'' \<notin> set g \<and> wildcard_lang ps t"
    using s dotfree_slice by blast
next
  assume "\<exists>g t. drop pos h = g @ t \<and> g \<noteq> [] \<and> CHR ''.'' \<notin> set g \<and> wildcard_lang ps t"
  then obtain g t where g: "drop pos h = g @ t" "g \<noteq> []" "CHR ''.'' \<notin> set g" "wildcard_lang ps t" by blast
  have len: "pos + length g \<le> length h" using arg_cong [OF g(1), of length] g(2) by (cases g) auto
  have "drop (pos + length g) h = drop (length g) (drop pos h)" by (simp add: add.commute)
  then have "drop (pos + length g) h = t" using g(1) by simp
  moreover have "take (length g) (drop pos h) = g" using g(1) by simp
  then have "dotfree h pos (pos + length g)" using len g(3) by (simp add: dotfree_slice)
  ultimately show "glob_rest h pos ps"
    unfolding glob_rest_def using g len by (intro exI [of _ "pos + length g"]) simp
qed

lemma wildcard_lang_Cons:
  "wildcard_lang (p # q # ps) h \<longleftrightarrow> occurs_at h 0 p \<and> glob_rest h (length p) (q # ps)"
proof
  assume "wildcard_lang (p # q # ps) h"
  then obtain a g t where h: "h = a @ g @ t" "eq_ignore_ascii_case p a" "g \<noteq> []" "CHR ''.'' \<notin> set g"
    "wildcard_lang (q # ps) t" by auto
  have len: "length a = length p" using h(2) by (metis eq_ignore_ascii_case_def length_lower)
  then have "occurs_at h 0 p" using h(1,2) by (simp add: occurs_at_def eq_ignore_ascii_case_def)
  moreover have "drop (length p) h = g @ t" using h(1) len by simp
  then have "glob_rest h (length p) (q # ps)" unfolding glob_rest_split using h by blast
  ultimately show "occurs_at h 0 p \<and> glob_rest h (length p) (q # ps)" by blast
next
  assume r: "occurs_at h 0 p \<and> glob_rest h (length p) (q # ps)"
  then obtain g t where g: "drop (length p) h = g @ t" "g \<noteq> []" "CHR ''.'' \<notin> set g" "wildcard_lang (q # ps) t"
    unfolding glob_rest_split by blast
  have "h = take (length p) h @ g @ t" using g(1) by (metis append_take_drop_id)
  moreover have "eq_ignore_ascii_case p (take (length p) h)"
    using r by (simp add: occurs_at_def eq_ignore_ascii_case_def)
  ultimately show "wildcard_lang (p # q # ps) h" using g by auto
qed

lemma occurs_at_drop: "s \<le> length h \<Longrightarrow> occurs_at (drop s h) 0 p \<longleftrightarrow> occurs_at h s p"
  by (auto simp: occurs_at_def)

lemma glob_rest_drop: "glob_rest (drop s h) n ps \<longleftrightarrow> glob_rest h (s + n) ps"
  unfolding glob_rest_split by (simp add: add.commute)

lemma glob_rest_Cons:
  "glob_rest h pos (p # q # ps) \<longleftrightarrow> (\<exists>s. gap_start h pos p s \<and> glob_rest h (s + length p) (q # ps))"
proof -
  have "s \<le> length h" if "occurs_at h s p" for s using that by (simp add: occurs_at_def)
  then show ?thesis
    unfolding glob_rest_def [of h pos] wildcard_lang_Cons glob_rest_drop gap_start_def
    by (metis occurs_at_drop)
qed

lemma glob_rest_final:
  "glob_rest h pos [f] \<longleftrightarrow>
     length f \<le> length h \<and> pos < length h - length f \<and>
     eq_ignore_ascii_case (drop (length h - length f) h) f \<and> dotfree h pos (length h - length f)"
proof
  assume "glob_rest h pos [f]"
  then obtain s where s: "pos < s" "s \<le> length h" "dotfree h pos s" "eq_ignore_ascii_case f (drop s h)"
    by (auto simp: glob_rest_def)
  then have "length f = length h - s" by (metis eq_ignore_ascii_case_def length_drop length_lower)
  with s have "s = length h - length f" "length f \<le> length h" by simp_all
  with s show "length f \<le> length h \<and> pos < length h - length f \<and>
     eq_ignore_ascii_case (drop (length h - length f) h) f \<and> dotfree h pos (length h - length f)"
    by (simp add: eq_ignore_ascii_case_def)
next
  assume "length f \<le> length h \<and> pos < length h - length f \<and>
     eq_ignore_ascii_case (drop (length h - length f) h) f \<and> dotfree h pos (length h - length f)"
  then show "glob_rest h pos [f]"
    unfolding glob_rest_def
    by (intro exI [of _ "length h - length f"]) (simp add: eq_ignore_ascii_case_def)
qed

text \<open>
  The earliest place for an interior piece is as good as any later one: between the two there is no
  dot, because the piece itself has none when it can occur at two places within one label.
\<close>

lemma piece_dotfree:
  assumes "occurs_at h s0 p" "occurs_at h s p" "s0 < s" "dotfree h s0 s"
  shows "CHR ''.'' \<notin> set p"
proof
  assume "CHR ''.'' \<in> set p"
  then obtain i where i: "i < length p \<and> p ! i = CHR ''.''" by (auto simp: in_set_conv_nth)
  define k where "k = (LEAST k. k < length p \<and> p ! k = CHR ''.'')"
  have k: "k < length p" "p ! k = CHR ''.''"
    using LeastI [of "\<lambda>k. k < length p \<and> p ! k = CHR ''.''", OF i] by (auto simp: k_def)
  have least: "p ! j \<noteq> CHR ''.''" if "j < k" for j
    using not_less_Least [of j "\<lambda>k. k < length p \<and> p ! k = CHR ''.''"] that k(1) by (auto simp: k_def)
  from k have dot: "h ! (s0 + k) = CHR ''.''" using assms(1) by (simp add: occurs_at_dot)
  then have "s \<le> s0 + k" using assms(4) by (metis dotfree_def le_add1 not_le)
  define j where "j = s0 + k - s"
  have "j < k" "s + j = s0 + k" using assms(3) \<open>s \<le> s0 + k\<close> by (auto simp: j_def)
  then have "p ! j = CHR ''.''" using dot occurs_at_dot [OF assms(2), of j] k(1) by simp
  with least \<open>j < k\<close> show False by blast
qed

lemma glob_rest_earlier:
  assumes "gap_start h pos p s0" "gap_start h pos p s" "s0 \<le> s" "glob_rest h (s + length p) qs"
  shows "glob_rest h (s0 + length p) qs"
proof (cases "s0 = s")
  case False
  then have lt: "s0 < s" using assms(3) by simp
  have o: "occurs_at h s0 p" "occurs_at h s p" and f: "dotfree h pos s" "pos < s0"
    using assms(1,2) by (auto simp: gap_start_def)
  have "dotfree h s0 s" using f by (auto simp: dotfree_def)
  then have nd: "CHR ''.'' \<notin> set p" using piece_dotfree [OF o lt] by simp
  obtain u where u: "s + length p < u" "u \<le> length h" "dotfree h (s + length p) u" "wildcard_lang qs (drop u h)"
    using assms(4) by (auto simp: glob_rest_def)
  have "h ! k \<noteq> CHR ''.''" if k: "s0 + length p \<le> k" "k < u" for k
  proof -
    consider "k < s" | "s \<le> k" "k < s + length p" | "s + length p \<le> k" by linarith
    then show ?thesis
    proof cases
      case 1
      then show ?thesis using f k by (simp add: dotfree_def)
    next
      case 2
      then have "k - s < length p" "s + (k - s) = k" by linarith+
      then show ?thesis using occurs_at_dot [OF o(2), of "k - s"] nd nth_mem by force
    next
      case 3
      then show ?thesis using u k by (simp add: dotfree_def)
    qed
  qed
  then have "dotfree h (s0 + length p) u" by (simp add: dotfree_def)
  with u lt show ?thesis unfolding glob_rest_def by (intro exI [of _ u]) simp
qed (use assms in simp)

lemma glob_interior_spec:
  "glob_rest h pos (mids @ [f]) \<longleftrightarrow>
     (case glob_interior h pos mids of None \<Rightarrow> False | Some q \<Rightarrow> glob_rest h q [f])"
proof (induction mids arbitrary: pos)
  case (Cons mid mids)
  obtain q qs where qs: "mids @ [f] = q # qs" by (cases mids) auto
  have step: "glob_rest h pos ((mid # mids) @ [f]) \<longleftrightarrow>
      (\<exists>s. gap_start h pos mid s \<and> glob_rest h (s + length mid) (mids @ [f]))"
    unfolding append_Cons qs by (rule glob_rest_Cons)
  show ?case
  proof (cases "find_after_dotfree_gap h pos mid")
    case None
    then show ?thesis using find_gap_least [of h pos mid] by (simp add: step [simplified])
  next
    case (Some s0)
    then have s0: "gap_start h pos mid s0" "\<And>s. gap_start h pos mid s \<Longrightarrow> s0 \<le> s"
      using find_gap_least [of h pos mid] by auto
    then have "glob_rest h pos ((mid # mids) @ [f]) \<longleftrightarrow> glob_rest h (s0 + length mid) (mids @ [f])"
      unfolding step using glob_rest_earlier by blast
    then show ?thesis using Some Cons.IH by simp
  qed
qed simp

lemma glob_matches_lang: "pieces \<noteq> [] \<Longrightarrow> glob_matches pieces h \<longleftrightarrow> wildcard_lang pieces h"
proof -
  assume "pieces \<noteq> []"
  then consider (one) p where "pieces = [p]" | (more) p mids f where "pieces = p # mids @ [f]"
    by (metis list.exhaust rev_exhaust append_Nil)
  then show ?thesis
  proof cases
    case one
    then show ?thesis by (auto simp: glob_matches_def eq_ignore_ascii_case_def)
  next
    case more
    obtain q qs where qs: "mids @ [f] = q # qs" by (cases mids) auto
    have "wildcard_lang pieces h \<longleftrightarrow> occurs_at h 0 p \<and> glob_rest h (length p) (mids @ [f])"
      unfolding more qs by (rule wildcard_lang_Cons)
    then show ?thesis
      unfolding glob_interior_spec
      by (auto simp: more glob_matches_def Let_def glob_rest_final occurs_at_def dotfree_slice not_le not_less
        split: option.splits)
  qed
qed

subsection \<open>Suffixes, keywords and regular expressions\<close>

definition domain_suffix_matches :: "string \<Rightarrow> string \<Rightarrow> bool" where
  "domain_suffix_matches host sfx =
     (if length host = length sfx then eq_ignore_ascii_case host sfx
      else if length host > length sfx then
        (let dot_pos = length host - length sfx - 1 in
         host ! dot_pos = CHR ''.'' \<and> eq_ignore_ascii_case (drop (dot_pos + 1) host) sfx)
      else False)"

definition domain_keyword_matches :: "string \<Rightarrow> string \<Rightarrow> bool" where
  "domain_keyword_matches host needle =
     (if needle = [] then True
      else if length host < length needle then False
      else list_ex (\<lambda>w. eq_ignore_ascii_case w needle) (windows (length needle) host))"

datatype regex_matcher = RegexMatcher (rm_regex: string) (rm_required_literal: "string option")

definition regex_matcher_matches :: "ext \<Rightarrow> regex_matcher \<Rightarrow> string \<Rightarrow> bool" where
  "regex_matcher_matches X rm host =
     (case rm_required_literal rm of
        Some lit \<Rightarrow> domain_keyword_matches host lit \<and> regex_is_match X (rm_regex rm) host
      | None \<Rightarrow> regex_is_match X (rm_regex rm) host)"

definition required_literal_from_plain_regex :: "string \<Rightarrow> string option" where
  "required_literal_from_plain_regex pattern =
     (if pattern = [] \<or> list_ex is_regex_meta_byte pattern then None
      else Some (to_ascii_lowercase pattern))"

text \<open>\<open>max_by_key\<close> keeps the last of several longest parts.\<close>

definition longest :: "string list \<Rightarrow> string option" where
  "longest ps =
     foldl (\<lambda>best p. case best of None \<Rightarrow> Some p | Some b \<Rightarrow> Some (if length b \<le> length p then p else b)) None ps"

definition required_literal_from_wildcard :: "string \<Rightarrow> string option" where
  "required_literal_from_wildcard pattern =
     map_option to_ascii_lowercase (longest (filter (\<lambda>p. p \<noteq> []) (split_on (CHR ''*'') pattern)))"

definition compile_domain_regex :: "ext \<Rightarrow> string \<Rightarrow> regex_matcher option" where
  "compile_domain_regex X pattern =
     (if regex_new X pattern
      then Some (RegexMatcher pattern (required_literal_from_plain_regex pattern)) else None)"

datatype wildcard_matcher = WmGlob "string list" | WmRegex regex_matcher

fun wildcard_matcher_matches :: "ext \<Rightarrow> wildcard_matcher \<Rightarrow> string \<Rightarrow> bool" where
  "wildcard_matcher_matches X (WmGlob pieces) host = glob_matches pieces host"
| "wildcard_matcher_matches X (WmRegex rm) host = regex_matcher_matches X rm host"

definition compile_domain_wildcard :: "ext \<Rightarrow> string \<Rightarrow> wildcard_matcher option" where
  "compile_domain_wildcard X pattern =
     (case glob_compile pattern of
        Some pieces \<Rightarrow> Some (WmGlob pieces)
      | None \<Rightarrow>
          (if regex_new X (wildcard_regex X pattern)
           then Some (WmRegex (RegexMatcher (wildcard_regex X pattern) (required_literal_from_wildcard pattern)))
           else None))"

lemma domain_suffix_matches_eq: "domain_suffix_matches = suffix_match"
  by (simp add: fun_eq_iff domain_suffix_matches_def suffix_match_def)

lemma domain_keyword_matches_eq: "domain_keyword_matches = keyword_match"
  by (simp add: fun_eq_iff domain_keyword_matches_def keyword_match_def)

lemma contains_str_lower: "contains_str p h \<Longrightarrow> contains_str (to_ascii_lowercase p) (to_ascii_lowercase h)"
  unfolding contains_str_sublist sublist_def by (metis lower_append)

lemma compile_domain_regex_matches:
  assumes "ext_laws X" and "compile_domain_regex X pattern = Some rm"
  shows "regex_matcher_matches X rm h = regex_is_match X pattern h"
  using assms regex_literal [of X pattern h]
  by (auto simp: compile_domain_regex_def regex_matcher_matches_def required_literal_from_plain_regex_def
    domain_keyword_matches_eq keyword_match_iff intro: contains_str_lower split: if_splits)

lemma longest_in: "longest ps = Some p \<Longrightarrow> p \<in> set ps"
proof (induction ps arbitrary: p rule: rev_induct)
  case (snoc q ps)
  then show ?case by (auto simp: longest_def split: option.splits if_splits)
qed (simp add: longest_def)

lemma wildcard_lang_piece:
  "wildcard_lang ps h \<Longrightarrow> p \<in> set ps \<Longrightarrow> contains_str (to_ascii_lowercase p) (to_ascii_lowercase h)"
proof (induction ps arbitrary: h)
  case (Cons q ps)
  show ?case
  proof (cases ps)
    case Nil
    then show ?thesis using Cons.prems by (auto simp: eq_ignore_ascii_case_def contains_str_sublist)
  next
    case (Cons r rs)
    then obtain a g t where h: "h = a @ g @ t" "eq_ignore_ascii_case q a" "wildcard_lang ps t"
      using Cons.prems(1) by auto
    show ?thesis
    proof (cases "p = q")
      case True
      then show ?thesis using h by (auto simp: eq_ignore_ascii_case_def contains_str_sublist sublist_def)
    next
      case False
      then have "sublist (to_ascii_lowercase p) (to_ascii_lowercase t)"
        using Cons.IH [OF h(3)] Cons.prems(2) by (simp add: contains_str_sublist)
      then show ?thesis
        using sublist_order.order_trans [OF _ sublist_append_leftI [of "to_ascii_lowercase t" "to_ascii_lowercase (a @ g)"]]
        by (simp add: contains_str_sublist h(1))
    qed
  qed
qed simp

lemma wildcard_lang_Nil: "wildcard_lang (split_on (CHR ''*'') p) [] \<longleftrightarrow> p = []"
proof
  assume l: "wildcard_lang (split_on (CHR ''*'') p) []"
  then have "split_on (CHR ''*'') p = [[]]"
    by (cases "split_on (CHR ''*'') p"; cases "tl (split_on (CHR ''*'') p)") (auto simp: eq_ignore_ascii_case_def)
  then show "p = []" using join_split_on [of "CHR ''*''" p] by simp
qed (simp add: eq_ignore_ascii_case_def)

lemma compile_domain_wildcard_matches:
  assumes X: "ext_laws X" and "is_ascii raw" "is_ascii h" "raw \<noteq> []"
    and c: "compile_domain_wildcard X raw = Some w"
  shows "wildcard_matcher_matches X w h \<longleftrightarrow> h \<noteq> [] \<and> regex_is_match X (wildcard_regex X raw) h"
proof -
  let ?ps = "split_on (CHR ''*'') raw"
  have re: "regex_is_match X (wildcard_regex X raw) h = wildcard_lang ?ps h"
    using assms by (simp add: wildcard_regex_match)
  have ne: "wildcard_lang ?ps h \<Longrightarrow> h \<noteq> []" using wildcard_lang_Nil [of raw] assms(4) by blast
  show ?thesis
  proof (cases w)
    case (WmGlob pieces)
    then have "pieces = ?ps"
      using c by (auto simp: compile_domain_wildcard_def glob_compile_def Let_def split: option.splits if_splits)
    then show ?thesis using WmGlob ne by (auto simp: re glob_matches_lang)
  next
    case (WmRegex rm)
    then have rm: "rm = RegexMatcher (wildcard_regex X raw) (required_literal_from_wildcard raw)"
      using c by (auto simp: compile_domain_wildcard_def split: option.splits if_splits)
    have "domain_keyword_matches h lit"
      if "required_literal_from_wildcard raw = Some lit" "wildcard_lang ?ps h" for lit
      using that by (auto simp: required_literal_from_wildcard_def domain_keyword_matches_eq keyword_match_iff
        dest!: longest_in intro: wildcard_lang_piece)
    then show ?thesis
      using WmRegex ne by (auto simp: rm regex_matcher_matches_def re split: option.split)
  qed
qed

subsection \<open>Networks, inbound types and process paths\<close>

datatype in_type_mask = InTypeMask bool bool bool bool bool

definition compile_in_type :: "string \<Rightarrow> in_type_mask option" where
  "compile_in_type payload =
     (let u = to_ascii_uppercase payload in
      if u = ''HTTP'' then Some (InTypeMask True True False False False)
      else if u = ''HTTPS'' then Some (InTypeMask False True False False False)
      else if u = ''SOCKS5'' then Some (InTypeMask False False True False False)
      else if u = ''TPROXY'' then Some (InTypeMask False False False True False)
      else if u = ''INNER'' then Some (InTypeMask False False False False True)
      else None)"

fun in_type_matches :: "in_type_mask \<Rightarrow> conn_type \<Rightarrow> bool" where
  "in_type_matches (InTypeMask http https socks5 tproxy inner) ct =
     (case ct of Http \<Rightarrow> http | Https \<Rightarrow> https | Socks5 \<Rightarrow> socks5 | TProxy \<Rightarrow> tproxy | Inner \<Rightarrow> inner
      | _ \<Rightarrow> False)"

datatype process_path_op = PpGlob string | PpPrefix string | PpExact string

definition compile_process_path :: "ext \<Rightarrow> string \<Rightarrow> process_path_op option" where
  "compile_process_path X payload =
     (if CHR ''*'' \<in> set payload then
        (if regex_new X (path_regex X payload) then Some (PpGlob (path_regex X payload)) else None)
      else if starts_with ''/'' payload \<or> starts_with [CHR 0x5C] payload then Some (PpPrefix payload)
      else Some (PpExact payload))"

definition process_path_matches :: "ext \<Rightarrow> process_path_op \<Rightarrow> string \<Rightarrow> bool" where
  "process_path_matches X op path =
     (if path = [] then False
      else case op of
        PpGlob re \<Rightarrow> regex_is_match X re path
      | PpPrefix pre \<Rightarrow>
          path = pre \<or>
          (case strip_prefix pre path of
             Some rest \<Rightarrow> starts_with ''/'' rest \<or> starts_with [CHR 0x5C] rest
           | None \<Rightarrow> False)
      | PpExact exact \<Rightarrow> (case file_name path of Some f \<Rightarrow> f | None \<Rightarrow> path) = exact)"

definition uid_matches :: "ext \<Rightarrow> metadata \<Rightarrow> 32 word \<Rightarrow> bool" where
  "uid_matches X m u = (if target_linux X then md_uid m = Some u else False)"

lemma compile_process_path_matches:
  "process_path_new X payload a = Inr (ProcessPathRule payload mode a) \<Longrightarrow>
   \<exists>op. compile_process_path X payload = Some op \<and>
     (\<forall>path. process_path_matches X op path = process_path_match X payload mode path)"
  by (auto simp: process_path_new_def compile_process_path_def process_path_matches_def
    process_path_match_def split: if_splits)

lemma compile_in_type_matches:
  "in_type_new raw a = Inr (InTypeRule raw a h hs s t i) \<Longrightarrow>
   compile_in_type raw = Some (InTypeMask h hs s t i)"
  by (auto simp: in_type_new_def compile_in_type_def Let_def split: if_splits)

end
