(* ===== verification/RuleOps.thy ===== *)
theory RuleOps
  imports Matchers
begin

text \<open>
  The opcodes of \<open>meow-tunnel/src/rule_ir.rs\<close>: the type \<open>RuleOp\<close>, lowering of rules to opcodes
  (\<open>compile_op\<close> from the payload, \<open>lower_native\<close> from the rule's state), their evaluation and the
  constant folding of logic trees. The lemmas show that an opcode matches what its rule matches and
  that folding keeps the meaning of an opcode.
\<close>

datatype rule_op =
    OpDomain string
  | OpDomainSuffix string
  | OpDomainKeyword string
  | OpDomainRegex regex_matcher
  | OpDomainWildcard wildcard_matcher
  | OpIpCidr ipnet bool
  | OpSrcPort port_matcher
  | OpDstPort port_matcher
  | OpInPort port_matcher
  | OpDscp "8 word"
  | OpProcessName string
  | OpProcessPath process_path_op
  | OpNetwork network
  | OpUid "32 word"
  | OpInName string
  | OpInType in_type_mask
  | OpInUser string
  | OpMatch
  | OpGeoSite "geosite_db arc" "string list"
  | OpRuleSetRef "rule_set arc"
  | OpIpRanges "iprange arc" "iprange arc" bool
  | OpIpSuffix family bool
  | OpAllOf "rule_op list"
  | OpAnyOf "rule_op list"
  | OpNotOp rule_op
  | OpTrieOwned
  | OpFallback

record match_input =
  mi_metadata :: metadata
  mi_host :: string

definition match_input_new :: "metadata \<Rightarrow> match_input" where
  "match_input_new m = \<lparr>mi_metadata = m, mi_host = rule_host m\<rparr>"

definition ip_ranges_contain :: "ext \<Rightarrow> iprange \<Rightarrow> iprange \<Rightarrow> ipaddr option \<Rightarrow> bool" where
  "ip_ranges_contain X v4 v6 ip =
     (case ip of
        Some (V4 a) \<Rightarrow> range_contains X v4 (NetV4 a 32)
      | Some (V6 a) \<Rightarrow> range_contains X v6 (NetV6 a 128)
      | None \<Rightarrow> False)"

text \<open>
  The source splits the evaluation into \<open>matches_op\<close> and \<open>matches_native_op\<close> for inlining only; one
  function has the arms of both.
\<close>

fun matches_op :: "ext \<Rightarrow> rule_op \<Rightarrow> match_input \<Rightarrow> bool" where
  "matches_op X (OpGeoSite db ks) i =
     (mi_host i \<noteq> [] \<and> list_all (\<lambda>k. lookup_resolved X (arc_val db) k (mi_host i)) ks)"
| "matches_op X (OpRuleSetRef handle) i = rule_set_matches X (arc_val handle) (mi_metadata i)"
| "matches_op X (OpIpRanges v4 v6 src) i =
     ip_ranges_contain X (arc_val v4) (arc_val v6)
       (if src then md_src_ip (mi_metadata i) else md_dst_ip (mi_metadata i))"
| "matches_op X (OpIpSuffix fam src) i =
     (case (if src then md_src_ip (mi_metadata i) else md_dst_ip (mi_metadata i)) of
        Some a \<Rightarrow> suffix_matcher_matches fam a | None \<Rightarrow> False)"
| "matches_op X (OpAllOf children) i = list_all (\<lambda>op. matches_op X op i) children"
| "matches_op X (OpAnyOf children) i = list_ex (\<lambda>op. matches_op X op i) children"
| "matches_op X (OpNotOp child) i = (\<not> matches_op X child i)"
| "matches_op X (OpDomain domain) i = eq_ignore_ascii_case (mi_host i) domain"
| "matches_op X (OpDomainSuffix sfx) i = domain_suffix_matches (mi_host i) sfx"
| "matches_op X (OpDomainKeyword keyword) i = domain_keyword_matches (mi_host i) keyword"
| "matches_op X (OpDomainRegex regex) i = regex_matcher_matches X regex (mi_host i)"
| "matches_op X (OpDomainWildcard matcher) i = wildcard_matcher_matches X matcher (mi_host i)"
| "matches_op X (OpIpCidr net src) i =
     (case (if src then md_src_ip (mi_metadata i) else md_dst_ip (mi_metadata i)) of
        Some a \<Rightarrow> net_contains X net a | None \<Rightarrow> False)"
| "matches_op X (OpSrcPort matcher) i = port_matcher_matches matcher (md_src_port (mi_metadata i))"
| "matches_op X (OpDstPort matcher) i = port_matcher_matches matcher (md_dst_port (mi_metadata i))"
| "matches_op X (OpInPort matcher) i =
     (md_in_port (mi_metadata i) \<noteq> 0 \<and> port_matcher_matches matcher (md_in_port (mi_metadata i)))"
| "matches_op X (OpDscp v) i = (md_dscp (mi_metadata i) = Some v)"
| "matches_op X (OpProcessName name) i = eq_ignore_ascii_case (md_process (mi_metadata i)) name"
| "matches_op X (OpProcessPath op) i = process_path_matches X op (md_process_path (mi_metadata i))"
| "matches_op X (OpNetwork net) i = (md_network (mi_metadata i) = net)"
| "matches_op X (OpUid u) i = uid_matches X (mi_metadata i) u"
| "matches_op X (OpInName name) i = (md_in_name (mi_metadata i) \<noteq> [] \<and> md_in_name (mi_metadata i) = name)"
| "matches_op X (OpInType msk) i = in_type_matches msk (md_conn_type (mi_metadata i))"
| "matches_op X (OpInUser user) i = (md_in_user (mi_metadata i) = Some user)"
| "matches_op X OpMatch i = True"
| "matches_op X OpTrieOwned i = False"
| "matches_op X OpFallback i = False"

subsection \<open>Lowering\<close>

definition compile_in_port :: "string \<Rightarrow> rule_op option" where
  "compile_in_port payload = map_option OpInPort (compile_port_matcher payload)"

definition compile_network :: "string \<Rightarrow> rule_op option" where
  "compile_network payload =
     (if to_ascii_lowercase payload = ''tcp'' then Some (OpNetwork Tcp)
      else if to_ascii_lowercase payload = ''udp'' then Some (OpNetwork Udp)
      else None)"

fun compile_op :: "ext \<Rightarrow> rule_type \<Rightarrow> string \<Rightarrow> rule_op option" where
  "compile_op X RtDomain payload = Some (OpDomain (to_ascii_lowercase payload))"
| "compile_op X RtDomainSuffix payload = Some (OpDomainSuffix (to_ascii_lowercase payload))"
| "compile_op X RtDomainKeyword payload = Some (OpDomainKeyword (to_ascii_lowercase payload))"
| "compile_op X RtDomainRegex payload = map_option OpDomainRegex (compile_domain_regex X payload)"
| "compile_op X RtDomainWildcard payload = map_option OpDomainWildcard (compile_domain_wildcard X payload)"
| "compile_op X RtIpCidr payload = map_option (\<lambda>net. OpIpCidr (trunc_net X net) False) (parse_net X payload)"
| "compile_op X RtSrcIpCidr payload = map_option (\<lambda>net. OpIpCidr (trunc_net X net) True) (parse_net X payload)"
| "compile_op X RtSrcPort payload = map_option OpSrcPort (compile_port_matcher payload)"
| "compile_op X RtDstPort payload = map_option OpDstPort (compile_port_matcher payload)"
| "compile_op X RtInPort payload = compile_in_port payload"
| "compile_op X RtDscp payload =
     (case parse_u8 (trim payload) of
        None \<Rightarrow> None | Some v \<Rightarrow> if v \<le> 63 then Some (OpDscp v) else None)"
| "compile_op X RtProcessName payload = Some (OpProcessName payload)"
| "compile_op X RtProcessPath payload = map_option OpProcessPath (compile_process_path X payload)"
| "compile_op X RtNetwork payload = compile_network payload"
| "compile_op X RtUid payload = map_option OpUid (parse_u32 (trim payload))"
| "compile_op X RtInName payload = Some (OpInName payload)"
| "compile_op X RtInType payload = map_option OpInType (compile_in_type payload)"
| "compile_op X RtInUser payload = Some (OpInUser payload)"
| "compile_op X RtMatch payload = Some OpMatch"
| "compile_op X RtGeoSite payload = None"
| "compile_op X RtGeoIp payload = None"
| "compile_op X RtSrcGeoIp payload = None"
| "compile_op X RtRuleSet payload = None"
| "compile_op X RtAnd payload = None"
| "compile_op X RtOr payload = None"
| "compile_op X RtNot payload = None"
| "compile_op X RtIpSuffix payload = None"
| "compile_op X RtIpAsn payload = None"
| "compile_op X RtSubRule payload = None"

definition or_else :: "'a option \<Rightarrow> 'a option \<Rightarrow> 'a option" where
  "or_else a b = (case a of Some x \<Rightarrow> Some x | None \<Rightarrow> b)"

fun lower_native :: "ext \<Rightarrow> rule \<Rightarrow> rule_op option" where
  "lower_native X (GeoSiteRule category _ _ db _) =
     (case db of
        None \<Rightarrow> None
      | Some d \<Rightarrow> map_option (OpGeoSite d) (resolve_keys (arc_val d) category))"
| "lower_native X (RuleSetRule _ handle _ _) = Some (OpRuleSetRef handle)"
| "lower_native X (GeoIpRule _ _ _ ranges) = Some (OpIpRanges (ranges_v4 ranges) (ranges_v6 ranges) False)"
| "lower_native X (SrcGeoIpRule _ _ ranges) = Some (OpIpRanges (ranges_v4 ranges) (ranges_v6 ranges) True)"
| "lower_native X (IpAsnRule _ _ ranges src _) = Some (OpIpRanges (ranges_v4 ranges) (ranges_v6 ranges) src)"
| "lower_native X (IpSuffixRule _ _ fam src _) = Some (OpIpSuffix fam src)"
| "lower_native X (AndRule rs _ _) =
     map_option OpAllOf (collect_opts (map (\<lambda>r.
       or_else (compile_op X (rule_type r) (rule_payload r)) (lower_native X r)) rs))"
| "lower_native X (OrRule rs _ _) =
     map_option OpAnyOf (collect_opts (map (\<lambda>r.
       or_else (compile_op X (rule_type r) (rule_payload r)) (lower_native X r)) rs))"
| "lower_native X (NotRule r _ _) =
     map_option OpNotOp (or_else (compile_op X (rule_type r) (rule_payload r)) (lower_native X r))"
| "lower_native X _ = None"

definition lower_rule :: "ext \<Rightarrow> rule \<Rightarrow> rule_op option" where
  "lower_rule X r = or_else (compile_op X (rule_type r) (rule_payload r)) (lower_native X r)"

definition lower_children :: "ext \<Rightarrow> rule list \<Rightarrow> rule_op list option" where
  "lower_children X rs = collect_opts (map (lower_rule X) rs)"

lemma lower_native_logic [simp]:
  "lower_native X (AndRule rs a p) = map_option OpAllOf (lower_children X rs)"
  "lower_native X (OrRule rs a p) = map_option OpAnyOf (lower_children X rs)"
  "lower_native X (NotRule r a p) = map_option OpNotOp (lower_rule X r)"
  by (simp_all add: lower_children_def lower_rule_def [abs_def])

declare lower_native.simps(7-9) [simp del]

subsection \<open>Constant folding\<close>

datatype folded = FNever | FAlways | FOp rule_op

definition op_never_matches :: "ext \<Rightarrow> rule_op \<Rightarrow> bool" where
  "op_never_matches X op \<longleftrightarrow> (case op of OpUid _ \<Rightarrow> True | _ \<Rightarrow> False) \<and> \<not> target_linux X"

fun fold_op :: "ext \<Rightarrow> rule_op \<Rightarrow> folded"
  and fold_all :: "ext \<Rightarrow> rule_op list \<Rightarrow> rule_op list option"
  and fold_any :: "ext \<Rightarrow> rule_op list \<Rightarrow> rule_op list option" where
  "fold_op X op =
     (if op_never_matches X op then FNever
      else case op of
        OpMatch \<Rightarrow> FAlways
      | OpAllOf children \<Rightarrow>
          (case fold_all X children of
             None \<Rightarrow> FNever
           | Some [] \<Rightarrow> FAlways
           | Some [kept] \<Rightarrow> FOp kept
           | Some kept \<Rightarrow> FOp (OpAllOf kept))
      | OpAnyOf children \<Rightarrow>
          (case fold_any X children of
             None \<Rightarrow> FAlways
           | Some [] \<Rightarrow> FNever
           | Some [kept] \<Rightarrow> FOp kept
           | Some kept \<Rightarrow> FOp (OpAnyOf kept))
      | OpNotOp child \<Rightarrow>
          (case fold_op X child of
             FNever \<Rightarrow> FAlways
           | FAlways \<Rightarrow> FNever
           | FOp o' \<Rightarrow> FOp (OpNotOp o'))
      | other \<Rightarrow> FOp other)"
| "fold_all X [] = Some []"
| "fold_all X (c # cs) =
     (case fold_op X c of
        FNever \<Rightarrow> None
      | FAlways \<Rightarrow> fold_all X cs
      | FOp o' \<Rightarrow> map_option ((#) o') (fold_all X cs))"
| "fold_any X [] = Some []"
| "fold_any X (c # cs) =
     (case fold_op X c of
        FAlways \<Rightarrow> None
      | FNever \<Rightarrow> fold_any X cs
      | FOp o' \<Rightarrow> map_option ((#) o') (fold_any X cs))"

declare fold_op.simps [simp del]

subsection \<open>Lowered rules match what their rules match\<close>

text \<open>
  A \<open>DOMAIN-WILDCARD\<close> with an empty pattern is the one rule whose opcode differs from it: the glob
  of the empty pattern accepts the empty host, which the rule rejects.
\<close>

fun no_empty_wildcard :: "rule \<Rightarrow> bool" where
  "no_empty_wildcard (DomainWildcardRule _ raw _) \<longleftrightarrow> raw \<noteq> []"
| "no_empty_wildcard (AndRule rs _ _) \<longleftrightarrow> list_all no_empty_wildcard rs"
| "no_empty_wildcard (OrRule rs _ _) \<longleftrightarrow> list_all no_empty_wildcard rs"
| "no_empty_wildcard (NotRule r _ _) \<longleftrightarrow> no_empty_wildcard r"
| "no_empty_wildcard _ \<longleftrightarrow> True"

lemma match_input_new_simps [simp]:
  "mi_metadata (match_input_new m) = m" "mi_host (match_input_new m) = rule_host m"
  by (simp_all add: match_input_new_def)

lemma eq_ignore_lower [simp]: "eq_ignore_ascii_case h (to_ascii_lowercase p) = eq_ignore_ascii_case h p"
  by (simp add: eq_ignore_ascii_case_def)

lemma suffix_match_lower [simp]: "suffix_match h (to_ascii_lowercase p) = suffix_match h p"
  by (simp add: suffix_match_iff)

lemma keyword_match_lower [simp]: "keyword_match h (to_ascii_lowercase p) = keyword_match h p"
  by (simp add: keyword_match_iff)

lemma compile_port_matches:
  "parse_port_list raw = Inr ranges \<Longrightarrow> compile_port_matcher raw = Some pm \<Longrightarrow>
   port_matcher_matches pm p = matches_port ranges p"
  by (metis compile_port_matcher_parsed option.inject)

lemma compile_op_correct:
  assumes X: "ext_laws X" and wf: "wf_rule X r" and ne: "no_empty_wildcard r" and h: "is_ascii (rule_host m)"
    and c: "compile_op X (rule_type r) (rule_payload r) = Some op"
  shows "matches_op X op (match_input_new m) = match_metadata X r m"
proof (cases r)
  case (DomainWildcardRule re raw a)
  then obtain w where "op = OpDomainWildcard w" "compile_domain_wildcard X raw = Some w" using c by auto
  with DomainWildcardRule wf ne h X show ?thesis by (simp add: compile_domain_wildcard_matches)
next
  case (DomainRegexRule re pat a)
  with c wf X show ?thesis by (auto simp: compile_domain_regex_matches)
next
  case (ProcessPathRule payload mode a)
  then obtain pp where "compile_process_path X payload = Some pp"
    "\<forall>path. process_path_matches X pp path = process_path_match X payload mode path"
    using wf compile_process_path_matches [of X payload a mode] by (simp only: wf_rule.simps) blast
  with ProcessPathRule c show ?thesis by (simp add: eq_commute [of _ op])
next
  case (InTypeRule raw a b1 b2 b3 b4 b5)
  with c wf compile_in_type_matches [of raw a b1 b2 b3 b4 b5] show ?thesis
    by (auto simp: in_type_match_def split: conn_type.split)
next
  case (NetworkRule net raw a)
  with c wf show ?thesis by (auto simp: network_new_def compile_network_def split: if_splits)
next
  case (PortRule ranges raw a src)
  with c wf show ?thesis by (auto simp: compile_port_matches split: if_splits)
next
  case (InPortRule ranges raw a)
  with c wf show ?thesis by (auto simp: compile_in_port_def compile_port_matches)
next
  case (IpCidrRule net raw a src nr)
  with c wf X show ?thesis by (auto split: if_splits option.split)
next
  case (DscpRule v raw a)
  with c wf show ?thesis by (auto split: option.splits)
next
  case (UidRule v raw a)
  with c wf show ?thesis by (auto simp: uid_matches_def)
next
  case (DomainRule d a)
  with c show ?thesis by auto
next
  case (DomainSuffixRule d a)
  with c show ?thesis by (auto simp: domain_suffix_matches_eq)
next
  case (DomainKeywordRule d a)
  with c show ?thesis by (auto simp: domain_keyword_matches_eq)
qed (use c in auto)

lemma ranges_match_contain:
  "ip_ranges_contain X (arc_val (ranges_v4 r)) (arc_val (ranges_v6 r)) ip = ranges_match X r ip"
  by (simp add: ip_ranges_contain_def ranges_match_def)

lemma list_all_ops:
  assumes "lower_children X rs = Some ops"
    and "\<And>r op. r \<in> set rs \<Longrightarrow> lower_rule X r = Some op \<Longrightarrow> matches_op X op i = match_metadata X r m"
  shows "list_all (\<lambda>op. matches_op X op i) ops = list_all (\<lambda>r. match_metadata X r m) rs"
    and "list_ex (\<lambda>op. matches_op X op i) ops = list_ex (\<lambda>r. match_metadata X r m) rs"
proof -
  have "map (lower_rule X) rs = map Some ops" using assms(1) by (simp add: lower_children_def collect_opts_Some)
  then have "list_all2 (\<lambda>r op. lower_rule X r = Some op) rs ops"
    by (simp add: list_eq_iff_nth_eq list_all2_conv_all_nth)
  then have "map (\<lambda>op. matches_op X op i) ops = map (\<lambda>r. match_metadata X r m) rs"
    using assms(2) by (induction rs ops rule: list_all2_induct) auto
  then have "list_all id (map (\<lambda>op. matches_op X op i) ops) = list_all id (map (\<lambda>r. match_metadata X r m) rs)"
    "list_ex id (map (\<lambda>op. matches_op X op i) ops) = list_ex id (map (\<lambda>r. match_metadata X r m) rs)" by simp_all
  then show "list_all (\<lambda>op. matches_op X op i) ops = list_all (\<lambda>r. match_metadata X r m) rs"
    "list_ex (\<lambda>op. matches_op X op i) ops = list_ex (\<lambda>r. match_metadata X r m) rs"
    by (simp_all add: list_all_iff list_ex_iff)
qed

lemma lower_rule_cases:
  "lower_rule X r = Some op \<Longrightarrow>
   compile_op X (rule_type r) (rule_payload r) = Some op \<or>
   (compile_op X (rule_type r) (rule_payload r) = None \<and> lower_native X r = Some op)"
  by (auto simp: lower_rule_def or_else_def split: option.splits)

lemma split_category_attrs_Nil [simp]: "fst (split_category_attrs []) = []"
  by (simp add: split_category_attrs_def)

lemma lower_native_correct:
  assumes X: "ext_laws X" and h: "is_ascii (rule_host m)"
  shows "wf_rule X r \<Longrightarrow> no_empty_wildcard r \<Longrightarrow> lower_native X r = Some op \<Longrightarrow>
    matches_op X op (match_input_new m) = match_metadata X r m"
proof (induction "size r" arbitrary: r op rule: less_induct)
  case less
  have child: "matches_op X op (match_input_new m) = match_metadata X c m"
    if "size c < size r" "wf_rule X c" "no_empty_wildcard c" "lower_rule X c = Some op" for c op
    using less(1) [OF that(1-3)] compile_op_correct [OF X that(2,3) h] lower_rule_cases [OF that(4)] by blast
  show ?case
  proof (cases r)
    case (GeoSiteRule category p a db nr)
    with less show ?thesis
      by (cases "category = []")
        (auto simp: geosite_match_def lookup_resolve_keys split: option.splits)
  next
    case (RuleSetRule n handle a nr)
    with less show ?thesis by (cases handle) auto
  next
    case (AndRule rs a p)
    with less obtain ops where ops: "op = OpAllOf ops" "lower_children X rs = Some ops" by auto
    have "matches_op X op (match_input_new m) = match_metadata X c m"
      if "c \<in> set rs" "lower_rule X c = Some op" for c op
      using that less(2,3) AndRule by (intro child) (auto simp: list_all_iff less_Suc_eq_le intro: size_list_estimation')
    from list_all_ops(1) [OF ops(2) this] show ?thesis using AndRule ops(1) by simp
  next
    case (OrRule rs a p)
    with less obtain ops where ops: "op = OpAnyOf ops" "lower_children X rs = Some ops" by auto
    have "matches_op X op (match_input_new m) = match_metadata X c m"
      if "c \<in> set rs" "lower_rule X c = Some op" for c op
      using that less(2,3) OrRule by (intro child) (auto simp: list_all_iff less_Suc_eq_le intro: size_list_estimation')
    from list_all_ops(2) [OF ops(2) this] show ?thesis using OrRule ops(1) by simp
  next
    case (NotRule c a p)
    with less child [of c] show ?thesis by auto
  qed (use less(4) in \<open>auto simp: ranges_match_contain\<close>)
qed

lemma lower_rule_correct:
  assumes "ext_laws X" "wf_rule X r" "no_empty_wildcard r" "is_ascii (rule_host m)" "lower_rule X r = Some op"
  shows "matches_op X op (match_input_new m) = match_metadata X r m"
  using compile_op_correct [OF assms(1-4)] lower_native_correct [OF assms(1,4) assms(2,3)] lower_rule_cases [OF assms(5)]
  by blast

subsection \<open>Folding keeps the meaning\<close>

fun folded_matches :: "ext \<Rightarrow> folded \<Rightarrow> match_input \<Rightarrow> bool" where
  "folded_matches X FNever i = False"
| "folded_matches X FAlways i = True"
| "folded_matches X (FOp op) i = matches_op X op i"

fun is_leaf :: "rule_op \<Rightarrow> bool" where
  "is_leaf OpMatch = False"
| "is_leaf (OpAllOf _) = False"
| "is_leaf (OpAnyOf _) = False"
| "is_leaf (OpNotOp _) = False"
| "is_leaf _ = True"

lemma fold_op_leaf: "is_leaf op \<Longrightarrow> fold_op X op = (if op_never_matches X op then FNever else FOp op)"
  by (subst fold_op.simps) (cases op; simp)

lemma fold_op_logic:
  "fold_op X OpMatch = FAlways"
  "fold_op X (OpAllOf cs) =
     (case fold_all X cs of None \<Rightarrow> FNever | Some [] \<Rightarrow> FAlways | Some [kept] \<Rightarrow> FOp kept
      | Some kept \<Rightarrow> FOp (OpAllOf kept))"
  "fold_op X (OpAnyOf cs) =
     (case fold_any X cs of None \<Rightarrow> FAlways | Some [] \<Rightarrow> FNever | Some [kept] \<Rightarrow> FOp kept
      | Some kept \<Rightarrow> FOp (OpAnyOf kept))"
  "fold_op X (OpNotOp c) =
     (case fold_op X c of FNever \<Rightarrow> FAlways | FAlways \<Rightarrow> FNever | FOp o' \<Rightarrow> FOp (OpNotOp o'))"
  by (subst fold_op.simps, simp add: op_never_matches_def)+

lemma fold_op_sound:
  "folded_matches X (fold_op X op) i = matches_op X op i"
  "(case fold_all X ops of None \<Rightarrow> False | Some kept \<Rightarrow> list_all (\<lambda>op. matches_op X op i) kept) =
     list_all (\<lambda>op. matches_op X op i) ops"
  "(case fold_any X ops of None \<Rightarrow> True | Some kept \<Rightarrow> list_ex (\<lambda>op. matches_op X op i) kept) =
     list_ex (\<lambda>op. matches_op X op i) ops"
proof (induction X op and X ops and X ops rule: fold_op_fold_all_fold_any.induct)
  case (1 X op)
  show ?case
  proof (cases "is_leaf op")
    case True
    then show ?thesis
      by (cases "op_never_matches X op"; cases op)
        (simp_all add: fold_op_leaf op_never_matches_def uid_matches_def)
  next
    case False
    then have live: "\<not> op_never_matches X op" by (cases op) (simp_all add: op_never_matches_def)
    show ?thesis
    proof (cases op)
      case (OpAllOf cs)
      show ?thesis
        using 1(1) [OF live OpAllOf]
        by (auto simp: OpAllOf fold_op_logic split: option.splits list.splits)
    next
      case (OpAnyOf cs)
      show ?thesis
        using 1(2) [OF live OpAnyOf]
        by (auto simp: OpAnyOf fold_op_logic split: option.splits list.splits)
    next
      case (OpNotOp c)
      show ?thesis
        using 1(3) [OF live OpNotOp]
        by (cases "fold_op X c") (simp_all add: OpNotOp fold_op_logic)
    qed (use False in \<open>simp_all add: fold_op_logic\<close>)
  qed
qed (auto split: folded.splits option.splits)

end
