(* ===== verification/Reference.thy ===== *)
theory Reference
  imports External
begin

text \<open>
  One instance of the external interface: IPv4 networks in dotted notation, address ranges as lists
  of networks, and a matcher for the two kinds of regular expression whose behaviour the laws
  describe. It satisfies \<open>ext_laws\<close>, so the theorems that assume the laws apply to it, and it is
  executable, so concrete rule lists can be run with it.
\<close>

definition ref_special :: "char \<Rightarrow> bool" where
  "ref_special c \<longleftrightarrow> c \<in> set (CHR 0x5C # ''.+*?()|[]{}^$#&-~'')"

fun ref_escape :: "string \<Rightarrow> string" where
  "ref_escape [] = []"
| "ref_escape (c # s) = (if ref_special c then CHR 0x5C # c # ref_escape s else c # ref_escape s)"

fun ref_unglob :: "string \<Rightarrow> nat \<Rightarrow> bool \<Rightarrow> string" where
  "ref_unglob [] skip lit = []"
| "ref_unglob (c # s) skip lit =
     (if skip > 0 then ref_unglob s (skip - 1) False
      else if lit then c # ref_unglob s 0 False
      else if c = CHR 0x5C then ref_unglob s 0 True
      else if starts_with ''[^.]+'' (c # s) then CHR ''*'' # ref_unglob s 4 False
      else c # ref_unglob s 0 False)"

definition ref_is_match :: "string \<Rightarrow> string \<Rightarrow> bool" where
  "ref_is_match re h =
     (case strip_prefix ''^(?i)'' re of
        Some body \<Rightarrow> wildcard_lang (split_on (CHR ''*'') (ref_unglob (butlast body) 0 False)) h
      | None \<Rightarrow> contains_str re h)"

fun ref_net_contains :: "ipnet \<Rightarrow> ipaddr \<Rightarrow> bool" where
  "ref_net_contains (NetV4 a p) (V4 b) = (drop_bit (32 - p) a = drop_bit (32 - p) b)"
| "ref_net_contains (NetV6 a p) (V6 b) = (drop_bit (128 - p) a = drop_bit (128 - p) b)"
| "ref_net_contains _ _ = False"

fun ref_trunc :: "ipnet \<Rightarrow> ipnet" where
  "ref_trunc (NetV4 a p) = NetV4 (push_bit (32 - p) (drop_bit (32 - p) a)) p"
| "ref_trunc (NetV6 a p) = NetV6 (push_bit (128 - p) (drop_bit (128 - p) a)) p"

fun ref_show_net :: "ipnet \<Rightarrow> string" where
  "ref_show_net (NetV4 a p) = CHR ''4'' # show_nat (unat a) @ CHR ''/'' # show_nat p"
| "ref_show_net (NetV6 a p) = CHR ''6'' # show_nat (unat a) @ CHR ''/'' # show_nat p"

definition ref_parse_net :: "string \<Rightarrow> ipnet option" where
  "ref_parse_net s =
     (case split_once (CHR ''/'') s of
        None \<Rightarrow> None
      | Some (addr, len) \<Rightarrow>
          (case (map (parse_uint 8) (split_on (CHR ''.'') addr), parse_uint 8 len) of
             ([Some a, Some b, Some c, Some d], Some p) \<Rightarrow>
               if p \<le> 32 then Some (NetV4 (of_nat (((a * 256 + b) * 256 + c) * 256 + d)) p) else None
           | _ \<Rightarrow> None))"

fun ref_nets :: "iprange \<Rightarrow> ipnet list" where
  "ref_nets RangeNew = []"
| "ref_nets (RangeAdd n r) = n # ref_nets r"
| "ref_nets (RangeSimplify r) = ref_nets r"

fun ref_covers :: "ipnet \<Rightarrow> ipnet \<Rightarrow> bool" where
  "ref_covers (NetV4 a p) (NetV4 b q) = (32 - q \<le> 32 - p \<and> drop_bit (32 - p) a = drop_bit (32 - p) b)"
| "ref_covers (NetV6 a p) (NetV6 b q) = (128 - q \<le> 128 - p \<and> drop_bit (128 - p) a = drop_bit (128 - p) b)"
| "ref_covers _ _ = False"

definition ref_range_contains :: "iprange \<Rightarrow> ipnet \<Rightarrow> bool" where
  "ref_range_contains r n = list_ex (\<lambda>m. ref_covers m n) (ref_nets r)"

fun ref_net_new :: "ipaddr \<Rightarrow> nat \<Rightarrow> ipnet option" where
  "ref_net_new (V4 a) p = (if p \<le> 32 then Some (NetV4 a p) else None)"
| "ref_net_new (V6 a) p = (if p \<le> 128 then Some (NetV6 a p) else None)"

definition ref_range_is_empty :: "iprange \<Rightarrow> bool" where
  "ref_range_is_empty r \<longleftrightarrow> ref_nets r = []"

definition ref_ext :: ext where
  "ref_ext =
     \<lparr>parse_net = ref_parse_net, net_new = ref_net_new, show_net = ref_show_net, trunc_net = ref_trunc,
      net_contains = ref_net_contains, range_contains = ref_range_contains,
      range_is_empty = ref_range_is_empty,
      regex_new = (\<lambda>_. True), regex_is_match = ref_is_match, regex_escape = ref_escape,
      target_linux = True\<rparr>"

lemma ref_ext_simps [simp]:
  "parse_net ref_ext = ref_parse_net" "show_net ref_ext = ref_show_net" "trunc_net ref_ext = ref_trunc"
  "net_contains ref_ext = ref_net_contains" "range_contains ref_ext = ref_range_contains"
  "net_new ref_ext = ref_net_new" "range_is_empty ref_ext = ref_range_is_empty"
  "regex_new ref_ext = (\<lambda>_. True)" "regex_is_match ref_ext = ref_is_match"
  "regex_escape ref_ext = ref_escape" "target_linux ref_ext"
  by (simp_all add: ref_ext_def)

lemma ref_escape_head: "ref_escape p \<noteq> CHR ''*'' # s"
  by (cases p) (auto simp: ref_special_def)

lemma ref_unglob_plain: "\<not> ref_special c \<Longrightarrow> ref_unglob (c # s) 0 False = c # ref_unglob s 0 False"
  by (auto simp: ref_special_def starts_with_def)

lemma ref_unglob_escape:
  "ref_unglob (replace_str (CHR 0x5C # ''*'') ''[^.]+'' (ref_escape p) 0) 0 False = p"
proof (induction p)
  case (Cons c p)
  consider (plain) "\<not> ref_special c" | (star) "c = CHR ''*''" | (special) "ref_special c" "c \<noteq> CHR ''*''" by blast
  then show ?case
  proof cases
    case plain
    then have "c \<noteq> CHR 0x5C" by (auto simp: ref_special_def)
    with plain Cons show ?thesis by (simp add: ref_unglob_plain starts_with_def del: ref_unglob.simps(2))
  next
    case star
    then show ?thesis using Cons by (simp add: ref_special_def starts_with_def)
  next
    case special
    have "\<not> starts_with (CHR 0x5C # ''*'') (c # ref_escape p)"
      using ref_escape_head [of p] by (cases "ref_escape p") (auto simp: starts_with_def)
    with special Cons show ?thesis by (simp add: starts_with_def)
  qed
qed simp

lemma ref_wildcard_match: "ref_is_match (wildcard_regex ref_ext p) h = wildcard_lang (split_on (CHR ''*'') p) h"
proof -
  have "strip_prefix ''^(?i)'' (wildcard_regex ref_ext p) =
      Some (replace_str (CHR 0x5C # ''*'') ''[^.]+'' (ref_escape p) 0 @ ''$'')"
    unfolding strip_prefix_Some wildcard_regex_def glob_regex_def by simp
  then show ?thesis by (simp add: ref_is_match_def butlast_append ref_unglob_escape)
qed

lemma drop_bit_mono_eq:
  fixes a b :: "'a::len word"
  shows "drop_bit m a = drop_bit m b \<Longrightarrow> m \<le> n \<Longrightarrow> drop_bit n a = drop_bit n b"
  by (metis drop_bit_drop_bit le_add_diff_inverse2)

lemma drop_push_drop: "drop_bit n (push_bit n (drop_bit n a)) = (drop_bit n a :: 'a::len word)"
  by (rule bit_word_eqI) (auto simp: bit_simps dest: bit_imp_le_length)

lemma ref_covers_sound: "ref_covers m n \<Longrightarrow> ref_net_contains n ip \<Longrightarrow> ref_net_contains m ip"
  by (cases m; cases n; cases ip) (auto dest: drop_bit_mono_eq)

lemma ref_covers_host: "ref_net_contains m ip \<Longrightarrow> ref_covers m (host_net ip)"
  by (cases m; cases ip) auto

lemma ref_range_has: "range_has ref_ext r ip \<longleftrightarrow> list_ex (\<lambda>m. ref_net_contains m ip) (ref_nets r)"
  by (induction r) auto

lemma ref_show_inject: "ref_show_net a = ref_show_net b \<Longrightarrow> a = b"
proof -
  have no: "CHR ''/'' \<notin> set (show_nat n)" for n
    using show_nat_digits [of n] by (auto simp: list_all_iff is_digit_def)
  show "ref_show_net a = ref_show_net b \<Longrightarrow> a = b"
    by (cases a; cases b) (auto simp: sep_inject [OF no no] dest: unsigned_word_eqI)
qed

lemma ref_ext_laws: "ext_laws ref_ext"
  unfolding ext_laws_def
proof (intro conjI)
  have "ref_net_contains (ref_trunc n) ip = ref_net_contains n ip" for n ip
    by (cases n; cases ip) (simp_all add: drop_push_drop)
  then show "ipnet_laws ref_ext" using ref_show_inject
    by (auto simp: ipnet_laws_def split: ipaddr.split if_splits)
  have "ref_net_contains (host_net ip) ip" for ip by (cases ip) simp_all
  then show "iprange_laws ref_ext"
    by (auto simp: iprange_laws_def ref_range_has ref_range_contains_def ref_range_is_empty_def list_ex_iff
      intro: ref_covers_sound ref_covers_host)
  have "strip_prefix ''^(?i)'' p = None" if "\<not> list_ex is_regex_meta_byte p" for p
    using that by (cases p) (auto simp: strip_prefix_def is_regex_meta_byte_def)
  then have "ref_is_match p h = contains_str p h" if "\<not> list_ex is_regex_meta_byte p" for p h
    using that by (simp add: ref_is_match_def)
  then show "regex_laws ref_ext" by (auto simp: regex_laws_def ref_wildcard_match)
qed

end
