(* ===== verification/MatchEngine.thy ===== *)
theory MatchEngine
  imports Rules Reference
begin

text \<open>
  The domain index and the rule scan of \<open>meow-tunnel/src/match_engine.rs\<close>. \<open>naive_match\<close> is the
  reference both engines are compared with: the first rule, in order, that matches. The index is
  used through the contract \<open>least_index\<close> of the trie.
\<close>

record domain_index =
  di_trie :: "nat domain_trie"

definition domain_index_empty :: domain_index where
  "domain_index_empty = \<lparr>di_trie = trie_new\<rparr>"

definition indexable_pattern :: "string \<Rightarrow> bool" where
  "indexable_pattern payload \<longleftrightarrow>
     payload \<noteq> [] \<and> is_ascii payload \<and>
     \<not> (starts_with ''.'' payload \<or> starts_with ''*'' payload \<or> starts_with ''+'' payload) \<and>
     \<not> ends_with ''.'' payload \<and> \<not> contains_str ''..'' payload"

definition star_wildcard_indexable :: "string \<Rightarrow> bool" where
  "star_wildcard_indexable payload =
     (case strip_prefix ''*.'' payload of
        Some rest \<Rightarrow> indexable_pattern rest \<and> CHR ''*'' \<notin> set rest
      | None \<Rightarrow> False)"

definition insert_rule :: "domain_index \<Rightarrow> nat \<Rightarrow> rule_type \<Rightarrow> string \<Rightarrow> domain_index \<times> bool" where
  "insert_rule d idx rt payload =
     (case rt of
        RtDomain \<Rightarrow>
          if indexable_pattern payload
          then (let (t, ok) = trie_insert (di_trie d) payload idx in (\<lparr>di_trie = t\<rparr>, ok))
          else (d, False)
      | RtDomainSuffix \<Rightarrow>
          if \<not> indexable_pattern payload then (d, False)
          else (let (t1, subdomains) = trie_insert (di_trie d) (''+.'' @ payload) idx;
                    (t2, apex) = trie_insert t1 payload idx
                in (\<lparr>di_trie = t2\<rparr>, subdomains \<and> apex))
      | RtDomainWildcard \<Rightarrow>
          if star_wildcard_indexable payload
          then (let (t, ok) = trie_insert (di_trie d) payload idx in (\<lparr>di_trie = t\<rparr>, ok))
          else (d, False)
      | _ \<Rightarrow> (d, False))"

definition domain_index_seal :: "domain_index \<Rightarrow> domain_index" where
  "domain_index_seal d = \<lparr>di_trie = trie_seal (di_trie d)\<rparr>"

definition domain_index_search :: "domain_index \<Rightarrow> string \<Rightarrow> nat option" where
  "domain_index_search d host = search_min_normalized (di_trie d) host"

definition domain_index_build :: "rule list \<Rightarrow> domain_index" where
  "domain_index_build rules =
     domain_index_seal
       (fold (\<lambda>(idx, r) d. fst (insert_rule d idx (rule_type r) (rule_payload r)))
         (enumerate 0 rules) domain_index_empty)"

record match_result =
  mr_adapter_name :: string
  mr_rule_type :: rule_type
  mr_rule_payload :: string

text \<open>The scan over a slice of rules, which the function does before and after the trie hit.\<close>

fun scan_rules :: "ext \<Rightarrow> metadata \<Rightarrow> rule list \<Rightarrow> match_result option" where
  "scan_rules X m [] = None"
| "scan_rules X m (r # rs) =
     (case match_and_resolve X r m of
        Some a \<Rightarrow>
          Some \<lparr>mr_adapter_name = a, mr_rule_type = rule_type r, mr_rule_payload = rule_payload r\<rparr>
      | None \<Rightarrow> scan_rules X m rs)"

definition engine_match_rules :: "ext \<Rightarrow> metadata \<Rightarrow> rule list \<Rightarrow> domain_index \<Rightarrow> match_result option" where
  "engine_match_rules X m rules index =
     (let host = rule_host m;
          trie_hit = (if host = [] then None else domain_index_search index host);
          scan_end = (case trie_hit of Some i \<Rightarrow> i | None \<Rightarrow> length rules)
      in case scan_rules X m (take scan_end rules) of
           Some r \<Rightarrow> Some r
         | None \<Rightarrow>
             (case trie_hit of
                Some trie_idx \<Rightarrow>
                  (let r = rules ! trie_idx in
                   Some \<lparr>mr_adapter_name = rule_adapter r, mr_rule_type = rule_type r,
                         mr_rule_payload = rule_payload r\<rparr>)
              | None \<Rightarrow> scan_rules X m (drop scan_end rules)))"

text \<open>
  Process lookup is a query to the operating system, so it is an argument. It answers with the
  process name, its path and the owner of the socket.
\<close>

definition maybe_enrich_with_process ::
  "(network \<Rightarrow> ipaddr \<Rightarrow> 16 word \<Rightarrow> (string \<times> string \<times> 32 word option) option) \<Rightarrow>
   metadata \<Rightarrow> metadata option" where
  "maybe_enrich_with_process find_process m =
     (if md_process m \<noteq> [] then None
      else case md_src_ip m of
        None \<Rightarrow> None
      | Some src_ip \<Rightarrow>
          if md_src_port m = 0 then None
          else (case find_process (md_network m) src_ip (md_src_port m) of
                  None \<Rightarrow> None
                | Some (name, path, owner) \<Rightarrow>
                    (let e = m\<lparr>md_process := name, md_process_path := path\<rparr> in
                     Some (if md_uid e = None then e\<lparr>md_uid := owner\<rparr> else e))))"

subsection \<open>The reference: first match in order\<close>

definition naive_match :: "ext \<Rightarrow> rule list \<Rightarrow> metadata \<Rightarrow> (string \<times> rule_type \<times> string \<times> nat) option" where
  "naive_match X rules m =
     find_map (\<lambda>(i, r). map_option (\<lambda>a. (a, rule_type r, rule_payload r, i)) (match_and_resolve X r m))
       (enumerate 0 rules)"

text \<open>
  What the index needs of a host: it is the lowered host name of a connection, with neither a
  leading nor a trailing dot.
\<close>

definition host_ok :: "string \<Rightarrow> bool" where
  "host_ok h \<longleftrightarrow> is_lower h \<and> is_ascii h \<and> \<not> starts_with ''.'' h \<and> \<not> ends_with ''.'' h"

lemma match_and_resolve_static:
  "rule_type r \<noteq> RtSubRule \<Longrightarrow>
   match_and_resolve X r m = (if match_metadata X r m then Some (rule_adapter r) else None)"
  by (cases r) (auto split: if_splits)

lemma match_and_resolve_iff: "match_and_resolve X r m \<noteq> None \<longleftrightarrow> match_metadata X r m"
  by (induction X r m rule: match_and_resolve.induct) (auto simp: find_map_None list_ex_iff)

subsection \<open>The patterns a rule contributes\<close>

definition index_patterns :: "rule_type \<Rightarrow> string \<Rightarrow> string list" where
  "index_patterns rt p =
     (case rt of
        RtDomain \<Rightarrow> if indexable_pattern p then [p] else []
      | RtDomainSuffix \<Rightarrow> if indexable_pattern p then [''+.'' @ p, p] else []
      | RtDomainWildcard \<Rightarrow> if star_wildcard_indexable p then [p] else []
      | _ \<Rightarrow> [])"

lemma indexable_head:
  "indexable_pattern p \<Longrightarrow> \<exists>c s. p = c # s \<and> c \<noteq> CHR ''.'' \<and> c \<noteq> CHR ''*'' \<and> c \<noteq> CHR ''+''"
  by (cases p) (auto simp: indexable_pattern_def starts_with_def)

lemma entries_plain:
  "indexable_pattern p \<Longrightarrow> trimmed p \<Longrightarrow> is_lower p \<Longrightarrow> domain_entries p = [(p, Exact)]"
  using indexable_head [of p]
  by (auto simp: domain_entries_def trimmed_def is_lower_fixed starts_with_def)

lemma trimmed_dot_prefix: "p \<noteq> [] \<Longrightarrow> trimmed p \<Longrightarrow> \<not> is_ws c \<Longrightarrow> trimmed (c # CHR ''.'' # p)"
  by (auto simp: trimmed_iff)

lemma entries_suffix:
  assumes "indexable_pattern p" and "trimmed p" and "is_lower p"
  shows "domain_entries (''+.'' @ p) = [(p, Star), (p, Dot)]"
proof -
  have ne: "p \<noteq> []" using assms(1) by (simp add: indexable_pattern_def)
  have t: "trim (''+.'' @ p) = ''+.'' @ p"
    using trimmed_dot_prefix [OF ne assms(2), of "CHR ''+''"] by (simp add: trimmed_def is_ws_def)
  have l: "to_ascii_lowercase (''+.'' @ p) = ''+.'' @ p" using assms(3) by (simp add: is_lower_fixed)
  show ?thesis using ne unfolding domain_entries_def t l by (simp add: starts_with_def)
qed

lemma entries_star:
  assumes "star_wildcard_indexable p" and "trimmed p"
  obtains rest where "p = ''*.'' @ rest" "rest \<noteq> []" "CHR ''*'' \<notin> set rest"
    "domain_entries p = [(to_ascii_lowercase rest, Star)]"
proof -
  from assms(1) obtain rest where p: "p = ''*.'' @ rest" "indexable_pattern rest" "CHR ''*'' \<notin> set rest"
    by (auto simp: star_wildcard_indexable_def strip_prefix_Some split: option.splits)
  then have "rest \<noteq> []" by (simp add: indexable_pattern_def)
  moreover have "trim p = p" using assms(2) by (simp add: trimmed_def)
  with p(1) \<open>rest \<noteq> []\<close> have "domain_entries p = [(to_ascii_lowercase rest, Star)]"
    by (simp add: domain_entries_def starts_with_def)
  ultimately show thesis using that p by blast
qed

lemma index_patterns_entries:
  assumes "wf_rule X r" and "p \<in> set (index_patterns (rule_type r) (rule_payload r))"
  shows "domain_entries p \<noteq> []"
  using assms
  by (cases r) (auto simp: index_patterns_def entries_plain entries_suffix [simplified]
    elim: entries_star split: if_splits)

lemma entry_matches_Star:
  "entry_matches (b, Star) q \<longleftrightarrow> (\<exists>a. CHR ''.'' \<notin> set a \<and> q = a @ CHR ''.'' # b)"
  by (auto simp: entry_matches_def ends_with_iff)

lemma wildcard_star:
  assumes "CHR ''*'' \<notin> set rest"
  shows "wildcard_lang (split_on (CHR ''*'') (''*.'' @ rest)) h \<longleftrightarrow>
    (\<exists>g t. h = g @ t \<and> g \<noteq> [] \<and> CHR ''.'' \<notin> set g \<and>
       to_ascii_lowercase t = CHR ''.'' # to_ascii_lowercase rest)"
proof -
  have "split_on (CHR ''*'') (CHR ''.'' # rest) = [CHR ''.'' # rest]"
    using assms by (intro split_by_no_sep) auto
  then have "split_on (CHR ''*'') (''*.'' @ rest) = [[], CHR ''.'' # rest]"
    using split_by_append_sep [of "\<lambda>x. x = CHR ''*''" "CHR ''*''" "[]" "CHR ''.'' # rest"] by simp
  moreover have "eq_ignore_ascii_case [] a \<longleftrightarrow> a = []" for a
    by (auto simp: eq_ignore_ascii_case_def dest: sym)
  ultimately show ?thesis
    by (simp add: eq_ignore_ascii_case_def eq_commute [of _ "CHR ''.'' # to_ascii_lowercase rest"])
qed

lemma wildcard_star_entry:
  assumes "host_ok h" and "CHR ''*'' \<notin> set rest"
  shows "wildcard_lang (split_on (CHR ''*'') (''*.'' @ rest)) h \<longleftrightarrow>
    entry_matches (to_ascii_lowercase rest, Star) h"
proof
  assume "wildcard_lang (split_on (CHR ''*'') (''*.'' @ rest)) h"
  then obtain g t where g: "h = g @ t" "g \<noteq> []" "CHR ''.'' \<notin> set g"
    "to_ascii_lowercase t = CHR ''.'' # to_ascii_lowercase rest"
    unfolding wildcard_star [OF assms(2)] by blast
  moreover from g(1) have "to_ascii_lowercase t = t"
    using assms(1) by (simp add: host_ok_def is_lower_fixed)
  ultimately show "entry_matches (to_ascii_lowercase rest, Star) h"
    unfolding entry_matches_Star by (metis)
next
  assume "entry_matches (to_ascii_lowercase rest, Star) h"
  then obtain a where a: "CHR ''.'' \<notin> set a" "h = a @ CHR ''.'' # to_ascii_lowercase rest"
    unfolding entry_matches_Star by blast
  moreover from a have "a \<noteq> []" using assms(1) by (auto simp: host_ok_def starts_with_def)
  ultimately show "wildcard_lang (split_on (CHR ''*'') (''*.'' @ rest)) h"
    unfolding wildcard_star [OF assms(2)]
    by (intro exI [of _ a] exI [of _ "CHR ''.'' # to_ascii_lowercase rest"]) simp
qed

lemma host_ok_trim: "host_ok h \<Longrightarrow> trim_end_dots h = h"
proof (rule trim_end_matches_fixed)
  assume "host_ok h"
  then have "\<not> ends_with ''.'' h" by (simp add: host_ok_def)
  then show "h = [] \<or> \<not> last h = CHR ''.''"
    unfolding ends_with_iff by (metis append_butlast_last_id)
qed

text \<open>A rule whose patterns are in the index is matched by them exactly when it matches.\<close>

definition index_hit :: "string \<Rightarrow> rule_type \<Rightarrow> string \<Rightarrow> bool" where
  "index_hit h rt p \<longleftrightarrow> list_ex (\<lambda>q. domain_pattern_matches q (trim_end_dots h)) (index_patterns rt p)"

lemma index_hit_iff:
  assumes X: "ext_laws X" and wf: "wf_rule X r" and h: "host_ok (rule_host m)"
  shows "index_hit (rule_host m) (rule_type r) (rule_payload r) \<longleftrightarrow>
    index_patterns (rule_type r) (rule_payload r) \<noteq> [] \<and> match_metadata X r m"
proof -
  let ?h = "rule_host m"
  have lh: "to_ascii_lowercase ?h = ?h" using h by (simp add: host_ok_def is_lower_fixed)
  have hit: "index_hit ?h rt p \<longleftrightarrow> (\<exists>q \<in> set (index_patterns rt p). \<exists>e \<in> set (domain_entries q). entry_matches e ?h)" for rt p
    by (simp add: index_hit_def host_ok_trim [OF h] domain_pattern_matches_def list_ex_iff)
  show ?thesis
  proof (cases r)
    case (DomainRule d a)
    with wf show ?thesis
      by (auto simp: hit index_patterns_def entries_plain entry_matches_def eq_ignore_ascii_case_def lh is_lower_fixed)
  next
    case (DomainSuffixRule d a)
    with wf show ?thesis
      by (auto simp: hit index_patterns_def entries_plain entries_suffix [simplified] entry_matches_def
        suffix_match_iff lh is_lower_fixed)
  next
    case (DomainWildcardRule re raw a)
    show ?thesis
    proof (cases "star_wildcard_indexable raw")
      case True
      moreover have "trimmed raw" using wf DomainWildcardRule by simp
      ultimately obtain rest where rest: "raw = ''*.'' @ rest" "CHR ''*'' \<notin> set rest"
        "domain_entries raw = [(to_ascii_lowercase rest, Star)]" by (rule entries_star)
      have "regex_is_match X re ?h = wildcard_lang (split_on (CHR ''*'') raw) ?h"
        using wf h X DomainWildcardRule by (auto simp: wildcard_regex_match host_ok_def)
      also have "\<dots> = entry_matches (to_ascii_lowercase rest, Star) ?h"
        unfolding rest(1) by (rule wildcard_star_entry [OF h rest(2)])
      finally have "regex_is_match X re ?h = entry_matches (to_ascii_lowercase rest, Star) ?h" .
      moreover have "\<not> entry_matches (to_ascii_lowercase rest, Star) []"
        by (simp add: entry_matches_Star)
      ultimately show ?thesis
        using True rest(3) DomainWildcardRule by (auto simp: hit index_patterns_def)
    qed (simp add: DomainWildcardRule hit index_patterns_def)
  qed (simp_all add: hit index_patterns_def)
qed

subsection \<open>What the index finds\<close>

lemma insert_rule_fst:
  "fst (insert_rule d idx rt p) =
     \<lparr>di_trie = fold (\<lambda>(q, v) t. fst (trie_insert t q v)) (map (\<lambda>q. (q, idx)) (index_patterns rt p)) (di_trie d)\<rparr>"
  by (simp add: insert_rule_def index_patterns_def case_prod_beta Let_def split: rule_type.split)

lemma insert_rules_trie:
  "fold (\<lambda>(i, rt, p) d. fst (insert_rule d i rt p)) xs d =
     \<lparr>di_trie = fold (\<lambda>(q, v) t. fst (trie_insert t q v))
        (concat (map (\<lambda>(i, ps). map (\<lambda>q. (q, i)) ps) (map (\<lambda>(i, rt, p). (i, index_patterns rt p)) xs)))
        (di_trie d)\<rparr>"
  by (induction xs arbitrary: d) (auto simp: insert_rule_fst)

lemma index_search_first:
  assumes "sorted (map fst xs)"
  shows "domain_index_search
      (domain_index_seal (fold (\<lambda>(i, rt, p) d. fst (insert_rule d i rt p)) xs domain_index_empty)) h =
    find_map (\<lambda>(i, rt, p). if index_hit h rt p then Some i else None) xs"
proof -
  have "sorted (map fst (map (\<lambda>(i, rt, p). (i, index_patterns rt p)) xs))"
    using assms by (simp add: comp_def case_prod_beta)
  note first = trie_index.least_first [OF this, of h]
  show ?thesis
    unfolding domain_index_search_def domain_index_seal_def insert_rules_trie domain_index_empty_def
      domain_index.simps first
    by (auto simp: index_hit_def find_map_map intro!: find_map_cong)
qed

lemma insert_rule_snd:
  assumes "trie_state (di_trie d) = Building root"
    and "\<forall>q \<in> set (index_patterns rt p). domain_entries q \<noteq> []"
  shows "snd (insert_rule d idx rt p) \<longleftrightarrow> index_patterns rt p \<noteq> []"
  using assms
  by (auto simp: insert_rule_def index_patterns_def trie_insert_entries Let_def split: rule_type.splits if_splits)

lemma domain_index_build_search:
  "domain_index_search (domain_index_build rules) h =
     find_map (\<lambda>(i, r). if index_hit h (rule_type r) (rule_payload r) then Some i else None) (enumerate 0 rules)"
proof -
  let ?xs = "map (\<lambda>(i, r). (i, rule_type r, rule_payload r)) (enumerate 0 rules)"
  have "map fst ?xs = [0..<length rules]"
    by (simp add: comp_def case_prod_unfold enumerate_eq_zip)
  then have "sorted (map fst ?xs)" by simp
  from index_search_first [OF this, of h] show ?thesis
    by (auto simp: domain_index_build_def fold_map comp_def find_map_map case_prod_unfold intro!: find_map_cong)
qed

subsection \<open>The engine returns the first match\<close>

definition result_of :: "string \<times> rule_type \<times> string \<times> nat \<Rightarrow> match_result" where
  "result_of = (\<lambda>(a, rt, p, _). \<lparr>mr_adapter_name = a, mr_rule_type = rt, mr_rule_payload = p\<rparr>)"

lemma scan_rules_enumerate:
  "scan_rules X m rs =
     map_option result_of (find_map (\<lambda>(i, r). map_option (\<lambda>a. (a, rule_type r, rule_payload r, i))
       (match_and_resolve X r m)) (enumerate n rs))"
  by (induction rs arbitrary: n) (auto simp: result_of_def split: option.split)

lemma scan_rules_naive: "scan_rules X m rs = map_option result_of (naive_match X rs m)"
  unfolding naive_match_def by (rule scan_rules_enumerate)

lemma scan_rules_append:
  "scan_rules X m (xs @ ys) = (case scan_rules X m xs of Some r \<Rightarrow> Some r | None \<Rightarrow> scan_rules X m ys)"
  by (induction xs) (auto split: option.split)

lemma index_patterns_static: "index_patterns rt p \<noteq> [] \<Longrightarrow> rt \<noteq> RtSubRule"
  by (auto simp: index_patterns_def)

text \<open>
  C3: the indexed rule scan. For rules built by their constructors and a lowered host without outer
  dots, matching with the domain index returns exactly the first rule in order that matches, with
  its target, type and payload, or nothing when no rule matches.
\<close>

theorem engine_match_rules_first:
  assumes X: "ext_laws X" and wf: "list_all (wf_rule X) rules" and h: "host_ok (rule_host m)"
  shows "engine_match_rules X m rules (domain_index_build rules) =
    map_option result_of (naive_match X rules m)"
proof (cases "rule_host m = [] \<or> domain_index_search (domain_index_build rules) (rule_host m) = None")
  case True
  then show ?thesis
    by (auto simp: engine_match_rules_def Let_def scan_rules_naive [symmetric] split: option.split)
next
  case False
  then obtain T where T: "rule_host m \<noteq> []"
    "domain_index_search (domain_index_build rules) (rule_host m) = Some T" by auto
  then obtain us r vs where e: "enumerate 0 rules = us @ (T, r) # vs"
    and hit: "index_hit (rule_host m) (rule_type r) (rule_payload r)"
    unfolding domain_index_build_search by (force dest!: find_map_SomeD split: if_splits)
  have "(T, r) \<in> set (enumerate 0 rules)" unfolding e by simp
  then have Tr: "T < length rules" "rules ! T = r" by (auto simp: in_set_enumerate_eq)
  then have "wf_rule X r" using wf by (auto simp: list_all_length)
  with hit have m: "match_metadata X r m" "rule_type r \<noteq> RtSubRule"
    using index_hit_iff [OF X _ h] index_patterns_static by blast+
  have "scan_rules X m rules = scan_rules X m (take T rules @ r # drop (Suc T) rules)"
    using Tr id_take_nth_drop [of T rules] by simp
  with T Tr m show ?thesis
    by (cases "scan_rules X m (take T rules)")
      (simp_all add: engine_match_rules_def Let_def scan_rules_naive [symmetric] scan_rules_append
        match_and_resolve_static)
qed

theorem engine_match_rules_first_witness:
  "engine_match_rules ref_ext (default_metadata\<lparr>md_host := ''www.a.com''\<rparr>)
     [DomainRule ''b.com'' ''P0'', DomainSuffixRule ''a.com'' ''P1'', FinalRule ''P2'']
     (domain_index_build [DomainRule ''b.com'' ''P0'', DomainSuffixRule ''a.com'' ''P1'', FinalRule ''P2'']) =
   Some \<lparr>mr_adapter_name = ''P1'', mr_rule_type = RtDomainSuffix, mr_rule_payload = ''a.com''\<rparr>"
proof -
  let ?m = "default_metadata\<lparr>md_host := ''www.a.com''\<rparr>"
  let ?rs = "[DomainRule ''b.com'' ''P0'', DomainSuffixRule ''a.com'' ''P1'', FinalRule ''P2'']"
  have "list_all (wf_rule ref_ext) ?rs" by code_simp
  moreover have "host_ok (rule_host ?m)" by code_simp
  ultimately have "engine_match_rules ref_ext ?m ?rs (domain_index_build ?rs) =
      map_option result_of (naive_match ref_ext ?rs ?m)"
    using ref_ext_laws by (intro engine_match_rules_first)
  also have "naive_match ref_ext ?rs ?m = Some (''P1'', RtDomainSuffix, ''a.com'', 1)" by code_simp
  finally show ?thesis by (simp add: result_of_def)
qed

end
