(* ===== verification/RuleIr.thy ===== *)
theory RuleIr
  imports RuleOps MatchEngine
begin

text \<open>
  The compiled rule set of \<open>meow-tunnel/src/rule_ir.rs\<close>: building the slots with the four clean-up
  passes (constant folding, duplicate, shadowed and covered rules), the choice between a linear scan
  and the domain index, and matching, strict and on demand. Hash sets are lists, hash maps are
  association lists; the pruning counters, which only feed a log line, are left out.
\<close>

subsection \<open>Fingerprints\<close>

definition hex_char :: "nat \<Rightarrow> char" where
  "hex_char n = (if n < 10 then char_of (48 + n) else char_of (87 + n))"

fun show_hex :: "nat \<Rightarrow> string" where
  "show_hex n = (if n < 16 then [hex_char n] else show_hex (n div 16) @ [hex_char (n mod 16)])"

declare show_hex.simps [simp del]

definition show_ptr :: "'a arc \<Rightarrow> string" where
  "show_ptr a = ''0x'' @ show_hex (arc_ptr a)"

definition show_bool :: "bool \<Rightarrow> string" where
  "show_bool b = (if b then ''true'' else ''false'')"

definition show_bit :: "bool \<Rightarrow> char" where
  "show_bit b = (if b then CHR ''1'' else CHR ''0'')"

fun dedup_fingerprint :: "ext \<Rightarrow> string \<Rightarrow> rule_op \<Rightarrow> string option" where
  "dedup_fingerprint X payload (OpDomain host) = Some host"
| "dedup_fingerprint X payload (OpDomainSuffix host) = Some host"
| "dedup_fingerprint X payload (OpDomainKeyword host) = Some host"
| "dedup_fingerprint X payload (OpProcessName _) = Some (to_ascii_lowercase payload)"
| "dedup_fingerprint X payload (OpDomainWildcard _) = Some (to_ascii_lowercase payload)"
| "dedup_fingerprint X payload (OpDomainRegex _) = Some payload"
| "dedup_fingerprint X payload (OpProcessPath _) = Some payload"
| "dedup_fingerprint X payload (OpInName _) = Some payload"
| "dedup_fingerprint X payload (OpInUser _) = Some payload"
| "dedup_fingerprint X payload OpMatch = Some payload"
| "dedup_fingerprint X payload (OpIpCidr net _) = Some (show_net X net)"
| "dedup_fingerprint X payload (OpSrcPort matcher) = Some (port_fingerprint matcher)"
| "dedup_fingerprint X payload (OpDstPort matcher) = Some (port_fingerprint matcher)"
| "dedup_fingerprint X payload (OpInPort matcher) = Some (port_fingerprint matcher)"
| "dedup_fingerprint X payload (OpDscp v) = Some (show_nat (unat v))"
| "dedup_fingerprint X payload (OpUid u) = Some (show_nat (unat u))"
| "dedup_fingerprint X payload (OpNetwork net) = Some (debug_network net)"
| "dedup_fingerprint X payload (OpInType (InTypeMask http https socks5 tproxy inner)) =
     Some [show_bit http, show_bit https, show_bit socks5, show_bit tproxy, show_bit inner]"
| "dedup_fingerprint X payload (OpGeoSite db ks) = Some (show_ptr db @ ''|'' @ join '','' ks)"
| "dedup_fingerprint X payload (OpRuleSetRef handle) = Some (show_ptr handle)"
| "dedup_fingerprint X payload (OpIpRanges v4 v6 src) =
     Some (show_ptr v4 @ ''|'' @ show_ptr v6 @ ''|'' @ show_bool src)"
| "dedup_fingerprint X payload (OpIpSuffix _ _) = None"
| "dedup_fingerprint X payload (OpAllOf _) = None"
| "dedup_fingerprint X payload (OpAnyOf _) = None"
| "dedup_fingerprint X payload (OpNotOp _) = None"
| "dedup_fingerprint X payload OpTrieOwned = None"
| "dedup_fingerprint X payload OpFallback = None"

subsection \<open>Shadowed and covered rules\<close>

record shadow_oracle =
  suffixes :: "string list"
  star_rests :: "string list"
  kws :: "string list"

definition shadow_empty :: shadow_oracle where
  "shadow_empty = \<lparr>suffixes = [], star_rests = [], kws = []\<rparr>"

definition star_rest :: "string \<Rightarrow> string option" where
  "star_rest payload =
     (case strip_prefix ''*.'' payload of
        None \<Rightarrow> None
      | Some rest \<Rightarrow> if rest \<noteq> [] \<and> CHR ''*'' \<notin> set rest then Some (to_ascii_lowercase rest) else None)"

fun shadow_absorb :: "shadow_oracle \<Rightarrow> rule_op \<Rightarrow> string \<Rightarrow> shadow_oracle" where
  "shadow_absorb o' (OpDomainSuffix sfx) payload =
     (if sfx \<noteq> [] then o'\<lparr>suffixes := List.insert sfx (suffixes o')\<rparr> else o')"
| "shadow_absorb o' (OpDomainKeyword keyword) payload =
     (if keyword \<noteq> [] then o'\<lparr>kws := kws o' @ [keyword]\<rparr> else o')"
| "shadow_absorb o' (OpDomainWildcard _) payload =
     (case star_rest payload of
        Some rest \<Rightarrow> o'\<lparr>star_rests := List.insert rest (star_rests o')\<rparr>
      | None \<Rightarrow> o')"
| "shadow_absorb o' _ payload = o'"

text \<open>The loop of \<open>suffix_covers\<close>, on the part of the pattern from \<open>start\<close> on.\<close>

function suffix_covers_loop :: "string list \<Rightarrow> string \<Rightarrow> bool" where
  "suffix_covers_loop sfxs pattern =
     (if List.member sfxs pattern then True
      else case split_once (CHR ''.'') pattern of
        Some (_, rest) \<Rightarrow> suffix_covers_loop sfxs rest
      | None \<Rightarrow> False)"
  by pat_completeness auto
termination by (relation "measure (\<lambda>(sfxs, pattern). length pattern)") (auto simp: split_once_Some)

declare suffix_covers_loop.simps [simp del]

definition suffix_covers :: "shadow_oracle \<Rightarrow> string \<Rightarrow> bool" where
  "suffix_covers o' pattern = (if suffixes o' = [] then False else suffix_covers_loop (suffixes o') pattern)"

definition keyword_covers :: "shadow_oracle \<Rightarrow> string \<Rightarrow> bool" where
  "keyword_covers o' pattern = list_ex (\<lambda>keyword. contains_str keyword pattern) (kws o')"

definition star_covers :: "shadow_oracle \<Rightarrow> string \<Rightarrow> bool" where
  "star_covers o' domain =
     (if star_rests o' = [] then False
      else case split_once (CHR ''.'') domain of
        Some (label, rest) \<Rightarrow> label \<noteq> [] \<and> List.member (star_rests o') rest
      | None \<Rightarrow> False)"

fun shadows :: "shadow_oracle \<Rightarrow> rule_op \<Rightarrow> string \<Rightarrow> bool" where
  "shadows o' (OpDomain domain) payload =
     (suffix_covers o' domain \<or> keyword_covers o' domain \<or> star_covers o' domain)"
| "shadows o' (OpDomainSuffix sfx) payload = (suffix_covers o' sfx \<or> keyword_covers o' sfx)"
| "shadows o' (OpDomainKeyword keyword) payload = keyword_covers o' keyword"
| "shadows o' (OpDomainWildcard _) payload =
     (case star_rest payload of
        Some rest \<Rightarrow> suffix_covers o' rest \<or> keyword_covers o' rest
      | None \<Rightarrow> False)"
| "shadows o' _ payload = False"

record cidr_coverage =
  cov_v4 :: iprange
  cov_v6 :: iprange

definition coverage_new :: cidr_coverage where
  "coverage_new = \<lparr>cov_v4 = RangeNew, cov_v6 = RangeNew\<rparr>"

definition coverage_covers :: "ext \<Rightarrow> cidr_coverage \<Rightarrow> ipnet \<Rightarrow> bool" where
  "coverage_covers X c net =
     (case net of
        NetV4 _ _ \<Rightarrow> range_contains X (cov_v4 c) net
      | NetV6 _ _ \<Rightarrow> range_contains X (cov_v6 c) net)"

definition coverage_absorb :: "cidr_coverage \<Rightarrow> ipnet \<Rightarrow> cidr_coverage" where
  "coverage_absorb c net =
     (case net of
        NetV4 _ _ \<Rightarrow> c\<lparr>cov_v4 := RangeSimplify (RangeAdd net (cov_v4 c))\<rparr>
      | NetV6 _ _ \<Rightarrow> c\<lparr>cov_v6 := RangeSimplify (RangeAdd net (cov_v6 c))\<rparr>)"

subsection \<open>Slots and the build loop\<close>

datatype target_plan = StaticAdapter | DynamicAdapter

datatype execution_plan = LinearScan | DomainIndexed

record slot =
  slot_rule_index :: nat
  slot_rule_type :: rule_type
  slot_adapter_index :: nat
  slot_payload :: string
  slot_target_plan :: target_plan
  slot_demands_ip :: bool
  slot_demands_process :: bool
  slot_op :: rule_op

record compiled =
  slots :: "slot list"
  source_rule_count :: nat
  adapter_names :: "string list"
  adapter_lookup :: "(string \<times> nat) list"
  c_domain_index :: domain_index
  c_execution_plan :: execution_plan
  needs_ip_resolution :: bool
  needs_process_lookup :: bool

definition compiled_empty :: compiled where
  "compiled_empty =
     \<lparr>slots = [], source_rule_count = 0, adapter_names = [], adapter_lookup = [],
      c_domain_index = domain_index_empty, c_execution_plan = LinearScan,
      needs_ip_resolution = False, needs_process_lookup = False\<rparr>"

definition target_plan_of :: "rule_type \<Rightarrow> target_plan" where
  "target_plan_of rt = (if rt = RtSubRule then DynamicAdapter else StaticAdapter)"

definition linear_scan_rule_limit :: nat where
  "linear_scan_rule_limit = 64"

definition select_execution_plan :: "nat \<Rightarrow> execution_plan" where
  "select_execution_plan n = (if n \<le> linear_scan_rule_limit then LinearScan else DomainIndexed)"

definition intern_adapter ::
  "string list \<Rightarrow> (string \<times> nat) list \<Rightarrow> string \<Rightarrow> string list \<times> (string \<times> nat) list \<times> nat" where
  "intern_adapter names lookup name =
     (case map_of lookup name of
        Some idx \<Rightarrow> (names, lookup, idx)
      | None \<Rightarrow> (names @ [name], (name, length names) # lookup, length names))"

text \<open>The variables of the build loop.\<close>

record build_state =
  b_slots :: "slot list"
  b_names :: "string list"
  b_lookup :: "(string \<times> nat) list"
  b_needs_ip :: bool
  b_needs_process :: bool
  b_seen :: "(rule_type \<times> bool \<times> bool \<times> string) list"
  b_oracle :: shadow_oracle
  b_dst_coverage :: cidr_coverage
  b_src_coverage :: cidr_coverage
  b_seen_ip_demand :: bool

definition build_init :: build_state where
  "build_init =
     \<lparr>b_slots = [], b_names = [], b_lookup = [], b_needs_ip = False, b_needs_process = False, b_seen = [],
      b_oracle = shadow_empty, b_dst_coverage = coverage_new, b_src_coverage = coverage_new,
      b_seen_ip_demand = False\<rparr>"

text \<open>The opcode of a rule after lowering and folding; \<open>None\<close> when it folds to false.\<close>

definition rule_op_of :: "ext \<Rightarrow> rule \<Rightarrow> rule_op option" where
  "rule_op_of X r =
     (case fold_op X (case or_else (compile_op X (rule_type r) (rule_payload r)) (lower_native X r) of
                        Some op \<Rightarrow> op | None \<Rightarrow> OpFallback) of
        FNever \<Rightarrow> None
      | FAlways \<Rightarrow> Some OpMatch
      | FOp op \<Rightarrow> Some op)"

text \<open>Duplicate elimination: \<open>None\<close> when the key was seen before.\<close>

definition dedup_insert :: "ext \<Rightarrow> rule \<Rightarrow> rule_op \<Rightarrow> build_state \<Rightarrow> build_state option" where
  "dedup_insert X r op st =
     (case dedup_fingerprint X (rule_payload r) op of
        None \<Rightarrow> Some st
      | Some fp \<Rightarrow>
          (let key = (rule_type r, should_resolve_ip r, should_find_process r, fp) in
           if key \<in> set (b_seen st) then None else Some (st\<lparr>b_seen := key # b_seen st\<rparr>)))"

text \<open>Covered-network elimination: \<open>None\<close> when the network is covered and may be dropped.\<close>

definition cidr_absorb :: "ext \<Rightarrow> rule \<Rightarrow> rule_op \<Rightarrow> build_state \<Rightarrow> build_state option" where
  "cidr_absorb X r op st =
     (case op of
        OpIpCidr net src \<Rightarrow>
          (let coverage = (if src then b_src_coverage st else b_dst_coverage st) in
           if coverage_covers X coverage net \<and> (\<not> should_resolve_ip r \<or> b_seen_ip_demand st) then None
           else Some (if src then st\<lparr>b_src_coverage := coverage_absorb coverage net\<rparr>
                      else st\<lparr>b_dst_coverage := coverage_absorb coverage net\<rparr>))
      | _ \<Rightarrow> Some st)"

definition push_slot :: "nat \<Rightarrow> rule \<Rightarrow> rule_op \<Rightarrow> build_state \<Rightarrow> build_state" where
  "push_slot idx r op st =
     (let (names, lookup, adapter_index) = intern_adapter (b_names st) (b_lookup st) (rule_adapter r) in
      st\<lparr>b_needs_ip := b_needs_ip st \<or> should_resolve_ip r,
         b_needs_process := b_needs_process st \<or> should_find_process r,
         b_seen_ip_demand := b_seen_ip_demand st \<or> should_resolve_ip r,
         b_names := names, b_lookup := lookup,
         b_slots := b_slots st @
           [\<lparr>slot_rule_index = idx, slot_rule_type = rule_type r, slot_adapter_index = adapter_index,
             slot_payload = rule_payload r, slot_target_plan = target_plan_of (rule_type r),
             slot_demands_ip = should_resolve_ip r, slot_demands_process = should_find_process r,
             slot_op = op\<rparr>]\<rparr>)"

text \<open>One turn of the loop: the new state, and whether a terminator ends the loop.\<close>

definition build_step :: "ext \<Rightarrow> nat \<Rightarrow> rule \<Rightarrow> build_state \<Rightarrow> build_state \<times> bool" where
  "build_step X idx r st =
     (if never_matches r then (st, False)
      else case rule_op_of X r of
        None \<Rightarrow> (st, False)
      | Some op \<Rightarrow>
          (case dedup_insert X r op st of
             None \<Rightarrow> (st, False)
           | Some st1 \<Rightarrow>
               if shadows (b_oracle st1) op (rule_payload r) then (st1, False)
               else (let st2 = st1\<lparr>b_oracle := shadow_absorb (b_oracle st1) op (rule_payload r)\<rparr> in
                     case cidr_absorb X r op st2 of
                       None \<Rightarrow> (st2, False)
                     | Some st3 \<Rightarrow> (push_slot idx r op st3, op = OpMatch))))"

fun build_loop :: "ext \<Rightarrow> nat \<Rightarrow> rule list \<Rightarrow> build_state \<Rightarrow> build_state" where
  "build_loop X idx [] st = st"
| "build_loop X idx (r # rs) st =
     (let (st', stop) = build_step X idx r st in
      if stop then st' else build_loop X (idx + 1) rs st')"

text \<open>Handing indexable patterns over to the trie.\<close>

definition domain_op :: "rule_op \<Rightarrow> bool" where
  "domain_op op =
     (case op of OpDomain _ \<Rightarrow> True | OpDomainSuffix _ \<Rightarrow> True | OpDomainWildcard _ \<Rightarrow> True | _ \<Rightarrow> False)"

fun own_slots :: "slot list \<Rightarrow> domain_index \<Rightarrow> slot list \<times> domain_index" where
  "own_slots [] d = ([], d)"
| "own_slots (s # ss) d =
     (let (d', owned) = (if domain_op (slot_op s)
                         then insert_rule d (slot_rule_index s) (slot_rule_type s) (slot_payload s)
                         else (d, False));
          (ss', d'') = own_slots ss d'
      in ((if owned then s\<lparr>slot_op := OpTrieOwned\<rparr> else s) # ss', d''))"

definition build :: "ext \<Rightarrow> rule list \<Rightarrow> compiled" where
  "build X rules =
     (let st = build_loop X 0 rules build_init;
          plan = select_execution_plan (length (b_slots st));
          (ss, d) = (if plan = DomainIndexed
                     then (let (ss, d) = own_slots (b_slots st) domain_index_empty in (ss, domain_index_seal d))
                     else (b_slots st, domain_index_empty))
      in \<lparr>slots = ss, source_rule_count = length rules, adapter_names = b_names st,
          adapter_lookup = b_lookup st, c_domain_index = d, c_execution_plan = plan,
          needs_ip_resolution = b_needs_ip st, needs_process_lookup = b_needs_process st\<rparr>)"

subsection \<open>Matching\<close>

record compiled_match =
  cm_adapter_name :: string
  cm_adapter_index :: "nat option"
  cm_rule_type :: rule_type
  cm_rule_payload :: string
  cm_rule_index :: nat

datatype scan_outcome = ScanMatched compiled_match | Blocked nat | Exhausted

datatype lazy_outcome = LazyMatched compiled_match | NeedsEnrichment bool bool | NoMatch

definition ip_missing :: "match_input \<Rightarrow> bool" where
  "ip_missing i \<longleftrightarrow> md_dst_ip (mi_metadata i) = None \<and> mi_host i \<noteq> []"

definition process_missing :: "metadata \<Rightarrow> bool" where
  "process_missing m \<longleftrightarrow> md_process m = [] \<and> md_src_ip m \<noteq> None \<and> md_src_port m \<noteq> 0"

definition slot_blocked :: "slot \<Rightarrow> match_input \<Rightarrow> bool" where
  "slot_blocked s i \<longleftrightarrow>
     (slot_demands_ip s \<and> ip_missing i) \<or> (slot_demands_process s \<and> process_missing (mi_metadata i))"

definition make_match :: "slot \<Rightarrow> string \<Rightarrow> nat option \<Rightarrow> compiled_match" where
  "make_match s name idx =
     \<lparr>cm_adapter_name = name, cm_adapter_index = idx, cm_rule_type = slot_rule_type s,
      cm_rule_payload = slot_payload s, cm_rule_index = slot_rule_index s\<rparr>"

definition static_match :: "compiled \<Rightarrow> slot \<Rightarrow> compiled_match" where
  "static_match c s = make_match s (adapter_names c ! slot_adapter_index s) (Some (slot_adapter_index s))"

text \<open>
  The scan over the slots of a range, \<open>pos\<close> being the position of the first. The flag is the const
  parameter \<open>STOP_ON_DEMAND\<close>.
\<close>

fun scan_slots ::
  "ext \<Rightarrow> compiled \<Rightarrow> bool \<Rightarrow> nat \<Rightarrow> match_input \<Rightarrow> rule list \<Rightarrow> slot list \<Rightarrow> scan_outcome" where
  "scan_slots X c stop pos i rules [] = Exhausted"
| "scan_slots X c stop pos i rules (s # ss) =
     (if stop \<and> slot_blocked s i then Blocked pos
      else case slot_op s of
        OpTrieOwned \<Rightarrow> scan_slots X c stop (pos + 1) i rules ss
      | OpFallback \<Rightarrow>
          (if \<not> slot_rule_index s < length rules then Exhausted
           else let r = rules ! slot_rule_index s in
             case slot_target_plan s of
               StaticAdapter \<Rightarrow>
                 (if match_metadata X r (mi_metadata i) then ScanMatched (static_match c s)
                  else scan_slots X c stop (pos + 1) i rules ss)
             | DynamicAdapter \<Rightarrow>
                 (case match_and_resolve X r (mi_metadata i) of
                    Some name \<Rightarrow> ScanMatched (make_match s name (map_of (adapter_lookup c) name))
                  | None \<Rightarrow> scan_slots X c stop (pos + 1) i rules ss))
      | op \<Rightarrow>
          (if matches_op X op i then ScanMatched (static_match c s)
           else scan_slots X c stop (pos + 1) i rules ss))"

definition scan_range_ctl ::
  "ext \<Rightarrow> compiled \<Rightarrow> bool \<Rightarrow> nat \<Rightarrow> nat \<Rightarrow> match_input \<Rightarrow> rule list \<Rightarrow> scan_outcome" where
  "scan_range_ctl X c stop lo hi i rules =
     scan_slots X c stop lo i rules (take (hi - lo) (drop lo (slots c)))"

definition scan_range :: "ext \<Rightarrow> compiled \<Rightarrow> nat \<Rightarrow> nat \<Rightarrow> match_input \<Rightarrow> rule list \<Rightarrow> compiled_match option" where
  "scan_range X c lo hi i rules =
     (case scan_range_ctl X c False lo hi i rules of ScanMatched r \<Rightarrow> Some r | _ \<Rightarrow> None)"

text \<open>
  Where a trie hit ends the first scan: the position of the first slot not before the hit (the
  slots are ordered by rule index), and the slot there if it is the hit's own.
\<close>

definition hit_position :: "compiled \<Rightarrow> nat option \<Rightarrow> nat \<times> slot option" where
  "hit_position c trie_hit =
     (case trie_hit of
        Some rule_idx \<Rightarrow>
          (let pos = length (takeWhile (\<lambda>s. slot_rule_index s < rule_idx) (slots c)) in
           (pos, if pos < length (slots c) \<and> slot_rule_index (slots c ! pos) = rule_idx
                 then Some (slots c ! pos) else None))
      | None \<Rightarrow> (length (slots c), None))"

definition match_rules :: "ext \<Rightarrow> compiled \<Rightarrow> metadata \<Rightarrow> rule list \<Rightarrow> compiled_match option" where
  "match_rules X c m rules =
     (let i = match_input_new m in
      if c_execution_plan c = LinearScan then scan_range X c 0 (length (slots c)) i rules
      else
        (let trie_hit = (if mi_host i = [] then None else domain_index_search (c_domain_index c) (mi_host i));
             (scan_end, hit_slot) = hit_position c trie_hit
         in case scan_range X c 0 scan_end i rules of
              Some r \<Rightarrow> Some r
            | None \<Rightarrow>
                (case hit_slot of
                   Some s \<Rightarrow> Some (static_match c s)
                 | None \<Rightarrow> scan_range X c scan_end (length (slots c)) i rules)))"

definition enrichment_needs :: "compiled \<Rightarrow> nat \<Rightarrow> match_input \<Rightarrow> lazy_outcome" where
  "enrichment_needs c from_pos i =
     NeedsEnrichment
       (list_ex slot_demands_ip (drop from_pos (slots c)) \<and> ip_missing i)
       (list_ex slot_demands_process (drop from_pos (slots c)) \<and> process_missing (mi_metadata i))"

definition match_rules_lazy :: "ext \<Rightarrow> compiled \<Rightarrow> metadata \<Rightarrow> rule list \<Rightarrow> lazy_outcome" where
  "match_rules_lazy X c m rules =
     (let i = match_input_new m in
      if c_execution_plan c = LinearScan then
        (case scan_range_ctl X c True 0 (length (slots c)) i rules of
           ScanMatched r \<Rightarrow> LazyMatched r
         | Blocked pos \<Rightarrow> enrichment_needs c pos i
         | Exhausted \<Rightarrow> NoMatch)
      else
        (let trie_hit = (if mi_host i = [] then None else domain_index_search (c_domain_index c) (mi_host i));
             (scan_end, hit_slot) = hit_position c trie_hit
         in case scan_range_ctl X c True 0 scan_end i rules of
              ScanMatched r \<Rightarrow> LazyMatched r
            | Blocked pos \<Rightarrow> enrichment_needs c pos i
            | Exhausted \<Rightarrow>
                (case hit_slot of
                   Some s \<Rightarrow> LazyMatched (static_match c s)
                 | None \<Rightarrow>
                     (case scan_range_ctl X c True scan_end (length (slots c)) i rules of
                        ScanMatched r \<Rightarrow> LazyMatched r
                      | Blocked pos \<Rightarrow> enrichment_needs c pos i
                      | Exhausted \<Rightarrow> NoMatch))))"

definition is_compatible_with :: "compiled \<Rightarrow> rule list \<Rightarrow> bool" where
  "is_compatible_with c rules \<longleftrightarrow> source_rule_count c = length rules"

definition uses_linear_scan_plan :: "compiled \<Rightarrow> bool" where
  "uses_linear_scan_plan c \<longleftrightarrow> c_execution_plan c = LinearScan"

end
