(* ===== verification/RuleIrSound.thy ===== *)
theory RuleIrSound
  imports RuleIr
begin

text \<open>
  Soundness of the clean-up passes: equal fingerprints mean equal predicates, a shadowed rule matches
  only hosts an earlier rule matches, and a covered network only addresses an earlier network has.
\<close>

subsection \<open>Rendered pointers\<close>

lemma hex_char_code: "n < 16 \<Longrightarrow> (of_char (hex_char n) :: nat) = (if n < 10 then 48 + n else 87 + n)"
  by (simp add: hex_char_def)

lemma hex_char_inject: "m < 16 \<Longrightarrow> n < 16 \<Longrightarrow> hex_char m = hex_char n \<longleftrightarrow> m = n"
proof
  assume mn: "m < 16" "n < 16" and "hex_char m = hex_char n"
  then have "(of_char (hex_char m) :: nat) = of_char (hex_char n)" by simp
  then show "m = n" using mn unfolding hex_char_code [OF mn(1)] hex_char_code [OF mn(2)]
    by (simp split: if_splits)
qed simp

lemma show_hex_ne [simp]: "show_hex n \<noteq> []"
  by (subst show_hex.simps) simp

lemma show_hex_inject [simp]: "show_hex m = show_hex n \<longleftrightarrow> m = n"
proof
  show "show_hex m = show_hex n \<Longrightarrow> m = n"
  proof (induction m arbitrary: n rule: less_induct)
    case (less m)
    show ?case
    proof (cases "m < 16 \<or> n < 16")
      case True
      then have "m < 16 \<and> n < 16"
        using less.prems show_hex.simps [of m] show_hex.simps [of n] show_hex_ne [of "m div 16"] show_hex_ne [of "n div 16"]
        by (auto split: if_splits dest: sym)
      then show ?thesis using less.prems by (simp add: show_hex.simps [of m] show_hex.simps [of n] hex_char_inject)
    next
      case False
      then have "show_hex (m div 16) = show_hex (n div 16)" "hex_char (m mod 16) = hex_char (n mod 16)"
        using less.prems by (simp_all add: show_hex.simps [of m] show_hex.simps [of n])
      moreover have "m div 16 < m" using False by simp
      ultimately have "m div 16 = n div 16" "m mod 16 = n mod 16" using less.IH hex_char_inject by simp_all
      then show ?thesis by (metis div_mult_mod_eq)
    qed
  qed
qed simp

lemma show_hex_no_bar: "CHR ''|'' \<notin> set (show_hex n)"
proof (induction n rule: show_hex.induct)
  case (1 n)
  have "hex_char k \<noteq> CHR ''|''" if "k < 16" for k
    using hex_char_code [OF that] that by (auto split: if_splits)
  with 1 show ?case by (subst show_hex.simps) (auto dest: sym)
qed

lemma show_ptr_inject [simp]: "show_ptr a = show_ptr b \<longleftrightarrow> arc_ptr a = arc_ptr b"
  by (simp add: show_ptr_def)

lemma show_ptr_no_bar: "CHR ''|'' \<notin> set (show_ptr a)"
  using show_hex_no_bar by (simp add: show_ptr_def)

lemma show_ptr_bar_inject:
  "show_ptr a @ CHR ''|'' # s = show_ptr b @ CHR ''|'' # t \<longleftrightarrow> arc_ptr a = arc_ptr b \<and> s = t"
  using sep_inject [OF show_ptr_no_bar [of a] show_ptr_no_bar [of b]] by simp

subsection \<open>The opcode of each rule\<close>

lemma rule_op_of_lower:
  "rule_op_of X r =
     (case fold_op X (case lower_rule X r of Some op \<Rightarrow> op | None \<Rightarrow> OpFallback) of
        FNever \<Rightarrow> None | FAlways \<Rightarrow> Some OpMatch | FOp op \<Rightarrow> Some op)"
  by (simp add: rule_op_of_def lower_rule_def)

lemma rule_op_of_leaf:
  "lower_rule X r = Some op \<Longrightarrow> is_leaf op \<Longrightarrow> \<not> op_never_matches X op \<Longrightarrow> rule_op_of X r = Some op"
  by (simp add: rule_op_of_lower fold_op_leaf)

lemma lower_rule_compile:
  "compile_op X (rule_type r) (rule_payload r) = Some op \<Longrightarrow> lower_rule X r = Some op"
  by (simp add: lower_rule_def or_else_def)

lemma lower_rule_native:
  "compile_op X (rule_type r) (rule_payload r) = None \<Longrightarrow> lower_rule X r = lower_native X r"
  by (simp add: lower_rule_def or_else_def)

text \<open>What it means for a slot with this opcode to match.\<close>

definition op_matches :: "ext \<Rightarrow> rule_op \<Rightarrow> rule \<Rightarrow> metadata \<Rightarrow> bool" where
  "op_matches X op r m = (if op = OpFallback then match_metadata X r m else matches_op X op (match_input_new m))"

lemma rule_op_of_sound:
  assumes "ext_laws X" "wf_rule X r" "no_empty_wildcard r" "is_ascii (rule_host m)"
  shows "(case rule_op_of X r of None \<Rightarrow> False | Some op \<Rightarrow> op_matches X op r m) = match_metadata X r m"
proof (cases "lower_rule X r")
  case None
  then have "rule_op_of X r = Some OpFallback"
    by (simp add: rule_op_of_lower fold_op_leaf op_never_matches_def)
  then show ?thesis by (simp add: op_matches_def)
next
  case (Some op)
  have "matches_op X op (match_input_new m) = match_metadata X r m"
    using lower_rule_correct [OF assms Some] .
  moreover have "folded_matches X (fold_op X op) (match_input_new m) = matches_op X op (match_input_new m)"
    by (rule fold_op_sound)
  ultimately show ?thesis
    using Some by (cases "fold_op X op") (auto simp: rule_op_of_lower op_matches_def)
qed

subsection \<open>Fingerprints\<close>

definition logic_rule :: "rule \<Rightarrow> bool" where
  "logic_rule r \<longleftrightarrow> rule_type r = RtAnd \<or> rule_type r = RtOr \<or> rule_type r = RtNot"

fun tree_op :: "rule_op \<Rightarrow> bool" where
  "tree_op OpMatch = True"
| "tree_op (OpAllOf _) = True"
| "tree_op (OpAnyOf _) = True"
| "tree_op (OpNotOp _) = True"
| "tree_op OpFallback = True"
| "tree_op _ = False"

text \<open>
  A logic rule that folds to the opcode of a single child carries that child's fingerprint under its
  own rule type and payload. The passes are sound for rules that do not collapse in this way.
\<close>

definition uncollapsed :: "ext \<Rightarrow> rule \<Rightarrow> bool" where
  "uncollapsed X r \<longleftrightarrow>
     (logic_rule r \<longrightarrow> (case rule_op_of X r of None \<Rightarrow> True | Some op \<Rightarrow> tree_op op))"

text \<open>Two handles with one address point to one value.\<close>

fun set_handle :: "rule \<Rightarrow> rule_set arc option" where
  "set_handle (RuleSetRule _ a _ _) = Some a"
| "set_handle _ = None"

fun db_handle :: "rule \<Rightarrow> geosite_db arc option" where
  "db_handle (GeoSiteRule _ _ _ db _) = db"
| "db_handle _ = None"

fun range_handles :: "rule \<Rightarrow> ip_ranges option" where
  "range_handles (GeoIpRule _ _ _ rs) = Some rs"
| "range_handles (SrcGeoIpRule _ _ rs) = Some rs"
| "range_handles (IpAsnRule _ _ rs _ _) = Some rs"
| "range_handles _ = None"

definition same_value :: "'a arc \<Rightarrow> 'a arc \<Rightarrow> bool" where
  "same_value a b \<longleftrightarrow> (arc_ptr a = arc_ptr b \<longrightarrow> a = b)"

definition same_arcs :: "rule \<Rightarrow> rule \<Rightarrow> bool" where
  "same_arcs r1 r2 \<longleftrightarrow>
     (case set_handle r1 of None \<Rightarrow> True | Some a \<Rightarrow>
        (case set_handle r2 of None \<Rightarrow> True | Some b \<Rightarrow> same_value a b)) \<and>
     (case db_handle r1 of None \<Rightarrow> True | Some a \<Rightarrow>
        (case db_handle r2 of None \<Rightarrow> True | Some b \<Rightarrow> same_value a b)) \<and>
     (case range_handles r1 of None \<Rightarrow> True | Some a \<Rightarrow>
        (case range_handles r2 of None \<Rightarrow> True | Some b \<Rightarrow>
           same_value (ranges_v4 a) (ranges_v4 b) \<and> same_value (ranges_v6 a) (ranges_v6 b)))"

lemma split_on_star_lower:
  "split_on (CHR ''*'') (to_ascii_lowercase s) = map to_ascii_lowercase (split_on (CHR ''*'') s)"
  by (induction s) (auto split: list.split)

lemma wildcard_lang_lower: "wildcard_lang (map to_ascii_lowercase ps) h = wildcard_lang ps h"
proof (induction ps arbitrary: h)
  case (Cons p ps)
  have "eq_ignore_ascii_case (to_ascii_lowercase p) a = eq_ignore_ascii_case p a" for a
    by (simp add: eq_ignore_ascii_case_def)
  with Cons show ?case by (cases ps) auto
qed simp

lemma show_bit_inject [simp]: "show_bit a = show_bit b \<longleftrightarrow> a = b"
  by (simp add: show_bit_def)

lemma show_bool_inject [simp]: "show_bool a = show_bool b \<longleftrightarrow> a = b"
  by (simp add: show_bool_def)

lemma collect_opts_map_Some: "collect_opts (map f xs) = Some ys \<Longrightarrow> y \<in> set ys \<Longrightarrow> \<exists>x \<in> set xs. f x = Some y"
proof -
  assume c: "collect_opts (map f xs) = Some ys" and y: "y \<in> set ys"
  then have "Some y \<in> set (map f xs)" by (simp add: collect_opts_Some)
  then show ?thesis by force
qed

lemma compiled_leaf:
  "compile_op X (rule_type r) (rule_payload r) = Some op \<Longrightarrow> is_leaf op \<Longrightarrow> \<not> op_never_matches X op \<Longrightarrow>
   rule_op_of X r = Some op"
  by (intro rule_op_of_leaf lower_rule_compile)

lemma native_leaf:
  "compile_op X (rule_type r) (rule_payload r) = None \<Longrightarrow> lower_native X r = Some op \<Longrightarrow> is_leaf op \<Longrightarrow>
   \<not> op_never_matches X op \<Longrightarrow> rule_op_of X r = Some op"
  by (intro rule_op_of_leaf) (simp_all add: lower_rule_native)

lemma fallback_leaf:
  "compile_op X (rule_type r) (rule_payload r) = None \<Longrightarrow> lower_native X r = None \<Longrightarrow> rule_op_of X r = Some OpFallback"
  by (simp add: rule_op_of_lower lower_rule_native fold_op_leaf op_never_matches_def)

text \<open>The opcodes of the rules that are not logic rules.\<close>

lemma op_of_simps:
  "rule_op_of X (DomainRule d a) = Some (OpDomain (to_ascii_lowercase d))"
  "rule_op_of X (DomainSuffixRule d a) = Some (OpDomainSuffix (to_ascii_lowercase d))"
  "rule_op_of X (DomainKeywordRule d a) = Some (OpDomainKeyword (to_ascii_lowercase d))"
  "rule_op_of X (FinalRule a) = Some OpMatch"
  "rule_op_of X (ProcessRule n a) = Some (OpProcessName n)"
  "rule_op_of X (InNameRule n a) = Some (OpInName n)"
  "rule_op_of X (InUserRule n a) = Some (OpInUser n)"
  "rule_op_of X (GeoIpRule c a nr rs) = Some (OpIpRanges (ranges_v4 rs) (ranges_v6 rs) False)"
  "rule_op_of X (SrcGeoIpRule c a rs) = Some (OpIpRanges (ranges_v4 rs) (ranges_v6 rs) True)"
  "rule_op_of X (IpAsnRule c a rs src nr) = Some (OpIpRanges (ranges_v4 rs) (ranges_v6 rs) src)"
  "rule_op_of X (IpSuffixRule p a fam src nr) = Some (OpIpSuffix fam src)"
  "rule_op_of X (RuleSetRule n h a nr) = Some (OpRuleSetRef h)"
  "rule_op_of X (SubRuleRule n b) = Some OpFallback"
proof -
  note [simp] = op_never_matches_def
  show "rule_op_of X (FinalRule a) = Some OpMatch"
    by (simp add: rule_op_of_lower lower_rule_def or_else_def fold_op_logic)
  show "rule_op_of X (SubRuleRule n b) = Some OpFallback" by (rule fallback_leaf) simp_all
qed (rule compiled_leaf native_leaf; simp add: op_never_matches_def)+

lemma op_of_wf:
  "wf_rule X (DomainRegexRule re p a) \<Longrightarrow>
     rule_op_of X (DomainRegexRule re p a) = Some (OpDomainRegex (RegexMatcher p (required_literal_from_plain_regex p)))"
  "wf_rule X (IpCidrRule net raw a src nr) \<Longrightarrow>
     rule_op_of X (IpCidrRule net raw a src nr) = Some (OpIpCidr (trunc_net X net) src)"
  "wf_rule X (DscpRule v raw a) \<Longrightarrow> rule_op_of X (DscpRule v raw a) = Some (OpDscp v)"
  "wf_rule X (NetworkRule nw raw a) \<Longrightarrow> rule_op_of X (NetworkRule nw raw a) = Some (OpNetwork nw)"
  "wf_rule X (InTypeRule raw a b1 b2 b3 b4 b5) \<Longrightarrow>
     rule_op_of X (InTypeRule raw a b1 b2 b3 b4 b5) = Some (OpInType (InTypeMask b1 b2 b3 b4 b5))"
proof -
  note [simp] = op_never_matches_def
  show "wf_rule X (DomainRegexRule re p a) \<Longrightarrow>
     rule_op_of X (DomainRegexRule re p a) = Some (OpDomainRegex (RegexMatcher p (required_literal_from_plain_regex p)))"
    by (rule compiled_leaf) (simp_all add: compile_domain_regex_def)
  show "wf_rule X (IpCidrRule net raw a src nr) \<Longrightarrow>
     rule_op_of X (IpCidrRule net raw a src nr) = Some (OpIpCidr (trunc_net X net) src)"
    by (rule compiled_leaf) (cases src; simp)+
  show "wf_rule X (DscpRule v raw a) \<Longrightarrow> rule_op_of X (DscpRule v raw a) = Some (OpDscp v)"
    by (rule compiled_leaf) simp_all
  show "wf_rule X (NetworkRule nw raw a) \<Longrightarrow> rule_op_of X (NetworkRule nw raw a) = Some (OpNetwork nw)"
    by (rule compiled_leaf) (auto simp: network_new_def compile_network_def split: if_splits)
  show "wf_rule X (InTypeRule raw a b1 b2 b3 b4 b5) \<Longrightarrow>
     rule_op_of X (InTypeRule raw a b1 b2 b3 b4 b5) = Some (OpInType (InTypeMask b1 b2 b3 b4 b5))"
    by (rule compiled_leaf) (simp_all add: compile_in_type_matches)
qed


lemma op_of_options:
  "rule_op_of X (DomainWildcardRule re p a) =
     Some (case compile_domain_wildcard X p of Some w \<Rightarrow> OpDomainWildcard w | None \<Rightarrow> OpFallback)"
  "rule_op_of X (PortRule rs p a src) =
     Some (case compile_port_matcher p of
             Some pm \<Rightarrow> (if src then OpSrcPort pm else OpDstPort pm) | None \<Rightarrow> OpFallback)"
  "rule_op_of X (InPortRule rs p a) =
     Some (case compile_port_matcher p of Some pm \<Rightarrow> OpInPort pm | None \<Rightarrow> OpFallback)"
  "rule_op_of X (ProcessPathRule p md a) =
     Some (case compile_process_path X p of Some op \<Rightarrow> OpProcessPath op | None \<Rightarrow> OpFallback)"
  "rule_op_of X (GeoSiteRule c p a db nr) =
     Some (case db of None \<Rightarrow> OpFallback | Some d \<Rightarrow>
       (case resolve_keys (arc_val d) c of Some ks \<Rightarrow> OpGeoSite d ks | None \<Rightarrow> OpFallback))"
  by (auto simp: rule_op_of_lower lower_rule_def or_else_def compile_in_port_def fold_op_leaf op_never_matches_def
    split: option.splits)

lemma op_of_uid:
  "wf_rule X (UidRule v p a) \<Longrightarrow> rule_op_of X (UidRule v p a) = (if target_linux X then Some (OpUid v) else None)"
  by (simp add: rule_op_of_lower lower_rule_def or_else_def fold_op_leaf op_never_matches_def)

lemma set_trim: "set (trim s) \<subseteq> set s"
  unfolding trim_def trim_start_def trim_end_matches_def
  by (auto dest!: set_dropWhileD)

lemma split_by_subset: "p \<in> set (split_by P s) \<Longrightarrow> set p \<subseteq> set s"
proof (induction s arbitrary: p)
  case (Cons c s)
  then show ?case by (cases "split_by P s") (fastforce split: if_splits)+
qed simp

lemma is_lower_subset: "is_lower s \<Longrightarrow> set t \<subseteq> set s \<Longrightarrow> is_lower t"
  by (auto simp: is_lower_def list_ex_iff)

lemma split_category_attrs_subset:
  assumes "is_lower category"
  shows "set (fst (split_category_attrs category)) \<subseteq> set category"
    "attr \<in> set (snd (split_category_attrs category)) \<Longrightarrow> set attr \<subseteq> set category"
proof -
  have sub: "set (trim p) \<subseteq> set category" if "p \<in> set (split_on (CHR ''@'') (trim category))" for p
    using split_by_subset [OF that] set_trim [of p] set_trim [of category] by blast
  then show "set (fst (split_category_attrs category)) \<subseteq> set category"
    unfolding split_category_attrs_def by (auto split: list.splits)
  assume "attr \<in> set (snd (split_category_attrs category))"
  then obtain p where "p \<in> set (split_on (CHR ''@'') (trim category))" "attr = to_ascii_lowercase (trim p)"
    unfolding split_category_attrs_def by (auto split: list.splits)
  moreover have "is_lower (trim p)" if "p \<in> set (split_on (CHR ''@'') (trim category))" for p
    using assms sub [OF that] by (rule is_lower_subset)
  ultimately show "set attr \<subseteq> set category" using sub by (simp add: is_lower_fixed)
qed

lemma resolve_keys_plain:
  assumes l: "is_lower category" and c: "CHR '','' \<notin> set category" and r: "resolve_keys db category = Some ks"
  shows "ks \<noteq> [] \<and> (\<forall>k \<in> set ks. CHR '','' \<notin> set k)"
proof -
  obtain base attrs where s: "split_category_attrs category = (base, attrs)" by fastforce
  let ?cs = "if attrs = [] then [base] else map (\<lambda>attr. base @ ''@'' @ attr) attrs"
  have ks: "collect_opts (map (resolve_key db) ?cs) = Some ks"
    using r s by (simp add: resolve_keys_def split: if_splits)
  then have "map Some ks = map (resolve_key db) ?cs" by (simp add: collect_opts_Some)
  then have ne: "ks \<noteq> []" by (auto split: if_splits)
  have sub: "set k \<subseteq> insert (CHR ''@'') (set category)" if "k \<in> set ?cs" for k
    using that split_category_attrs_subset [OF l] s by (fastforce split: if_splits)
  have "CHR '','' \<notin> set k" if k: "k \<in> set ks" for k
  proof -
    obtain q where q: "q \<in> set ?cs" "resolve_key db q = Some k"
      using collect_opts_map_Some [OF ks k] by blast
    have "is_lower q"
      using l sub [OF q(1)] by (auto simp: is_lower_def list_ex_iff upper_char_def)
    then have "k = q" using q(2)
      by (auto simp: resolve_key_def category_key_def is_lower_def split: option.splits if_splits)
    then show ?thesis using sub [OF q(1)] c by auto
  qed
  with ne show ?thesis by blast
qed

lemma port_rule_same:
  assumes "parse_port_list p1 = Inr rs1" "parse_port_list p2 = Inr rs2"
    "compile_port_matcher p1 = Some pm1" "compile_port_matcher p2 = Some pm2"
    "port_fingerprint pm1 = port_fingerprint pm2"
  shows "matches_port rs1 p = matches_port rs2 p"
proof -
  have "port_matcher_matches pm1 p = port_matcher_matches pm2 p"
    using port_fingerprint_inject [OF assms(5)] compile_port_matcher_ranges_ne assms(3,4) by blast
  moreover have "port_matcher_matches pm1 p = matches_port rs1 p"
    by (rule compile_port_matcher_parsed [OF assms(1)]) (use assms(3) in simp)
  moreover have "port_matcher_matches pm2 p = matches_port rs2 p"
    by (rule compile_port_matcher_parsed [OF assms(2)]) (use assms(4) in simp)
  ultimately show ?thesis by simp
qed

lemma wildcard_same:
  assumes "ext_laws X" "is_ascii p1" "is_ascii p2" "is_ascii h" "to_ascii_lowercase p1 = to_ascii_lowercase p2"
  shows "regex_is_match X (wildcard_regex X p1) h = regex_is_match X (wildcard_regex X p2) h"
  by (simp add: wildcard_regex_match assms(1-4)) (metis assms(5) split_on_star_lower wildcard_lang_lower)

lemma geosite_same:
  assumes "wf_rule X (GeoSiteRule c1 p1 a1 (Some db) n1)" "wf_rule X (GeoSiteRule c2 p2 a2 (Some db) n2)"
    "resolve_keys (arc_val db) c1 = Some ks1" "resolve_keys (arc_val db) c2 = Some ks2"
    "join '','' ks1 = join '','' ks2"
  shows "geosite_match X c1 (Some db) h = geosite_match X c2 (Some db) h"
proof -
  have l: "is_lower c1" "is_lower c2" using assms(1,2) by simp_all
  have c: "c1 \<noteq> []" "c2 \<noteq> []" using assms(3,4) by (auto simp: resolve_keys_def split_category_attrs_def)
  have w: "CHR '','' \<notin> set c1" "fst (split_category_attrs c1) \<noteq> []"
    "CHR '','' \<notin> set c2" "fst (split_category_attrs c2) \<noteq> []" using assms(1,2) by auto
  have "ks1 = ks2"
    using resolve_keys_plain [OF l(1) w(1) assms(3)] resolve_keys_plain [OF l(2) w(3) assms(4)]
      assms(5) join_inject [of ks1 ks2 "CHR '',''"] by blast
  then show ?thesis
    by (simp add: geosite_match_def c lookup_resolve_keys [OF w(2)] lookup_resolve_keys [OF w(4)] assms(3,4))
qed

text \<open>Two rules share a duplicate key, as far as their predicates are concerned.\<close>

definition same_print :: "ext \<Rightarrow> rule \<Rightarrow> rule \<Rightarrow> bool" where
  "same_print X r1 r2 \<longleftrightarrow>
     rule_type r1 = rule_type r2 \<and>
     (\<exists>op1 op2 fp. rule_op_of X r1 = Some op1 \<and> rule_op_of X r2 = Some op2 \<and>
        dedup_fingerprint X (rule_payload r1) op1 = Some fp \<and> dedup_fingerprint X (rule_payload r2) op2 = Some fp)"

text \<open>For each kind of rule without parts, equal fingerprints mean equal predicates.\<close>

lemma print_domain: "same_print X (DomainRule d a) r \<Longrightarrow> match_metadata X r m = match_metadata X (DomainRule d a) m"
  by (cases r) (auto simp: same_print_def op_of_simps eq_ignore_ascii_case_def split: if_splits)

lemma print_suffix:
  "same_print X (DomainSuffixRule d a) r \<Longrightarrow> match_metadata X r m = match_metadata X (DomainSuffixRule d a) m"
  by (cases r) (auto simp: same_print_def op_of_simps suffix_match_iff split: if_splits)

lemma print_keyword:
  "same_print X (DomainKeywordRule d a) r \<Longrightarrow> match_metadata X r m = match_metadata X (DomainKeywordRule d a) m"
  by (cases r) (auto simp: same_print_def op_of_simps keyword_match_iff split: if_splits)

lemma print_regex:
  "same_print X (DomainRegexRule re p a) r \<Longrightarrow> wf_rule X (DomainRegexRule re p a) \<Longrightarrow> wf_rule X r \<Longrightarrow>
   match_metadata X r m = match_metadata X (DomainRegexRule re p a) m"
  by (cases r) (auto simp: same_print_def op_of_wf split: if_splits)

lemma print_wildcard:
  "same_print X (DomainWildcardRule re p a) r \<Longrightarrow> wf_rule X (DomainWildcardRule re p a) \<Longrightarrow> wf_rule X r \<Longrightarrow>
   ext_laws X \<Longrightarrow> is_ascii (rule_host m) \<Longrightarrow>
   match_metadata X r m = match_metadata X (DomainWildcardRule re p a) m"
proof (cases r)
  case (DomainWildcardRule re' p' a')
  assume "ext_laws X" "is_ascii (rule_host m)" and s: "same_print X (DomainWildcardRule re p a) r"
    and w: "wf_rule X (DomainWildcardRule re p a)" "wf_rule X r"
  moreover from s have "to_ascii_lowercase p = to_ascii_lowercase p'"
    by (auto simp: DomainWildcardRule same_print_def op_of_options split: option.splits)
  ultimately show ?thesis using wildcard_same [of X p p' "rule_host m"] by (simp add: DomainWildcardRule)
qed (auto simp: same_print_def split: if_splits)

lemma print_cidr:
  "same_print X (IpCidrRule n p a src nr) r \<Longrightarrow> wf_rule X (IpCidrRule n p a src nr) \<Longrightarrow> wf_rule X r \<Longrightarrow>
   ext_laws X \<Longrightarrow> match_metadata X r m = match_metadata X (IpCidrRule n p a src nr) m"
proof (cases r)
  case (IpCidrRule n' p' a' src' nr')
  assume X: "ext_laws X" and s: "same_print X (IpCidrRule n p a src nr) r"
    and w: "wf_rule X (IpCidrRule n p a src nr)" "wf_rule X r"
  then have t: "trunc_net X n = trunc_net X n'" "src = src'"
    using show_trunc_inject [OF X] by (auto simp: IpCidrRule same_print_def op_of_wf split: if_splits)
  then have "net_contains X n ip = net_contains X n' ip" for ip by (metis X trunc_net_contains)
  with t show ?thesis by (simp add: IpCidrRule split: option.split)
qed (auto simp: same_print_def split: if_splits)

lemma print_port:
  "same_print X (PortRule rs p a src) r \<Longrightarrow> wf_rule X (PortRule rs p a src) \<Longrightarrow> wf_rule X r \<Longrightarrow>
   match_metadata X r m = match_metadata X (PortRule rs p a src) m"
  by (cases r) (auto simp: same_print_def op_of_options split: if_splits option.splits dest: port_rule_same)

lemma print_in_port:
  "same_print X (InPortRule rs p a) r \<Longrightarrow> wf_rule X (InPortRule rs p a) \<Longrightarrow> wf_rule X r \<Longrightarrow>
   match_metadata X r m = match_metadata X (InPortRule rs p a) m"
  by (cases r) (auto simp: same_print_def op_of_options split: if_splits option.splits dest: port_rule_same)

lemma print_dscp:
  "same_print X (DscpRule v p a) r \<Longrightarrow> wf_rule X (DscpRule v p a) \<Longrightarrow> wf_rule X r \<Longrightarrow>
   match_metadata X r m = match_metadata X (DscpRule v p a) m"
  by (cases r) (auto simp: same_print_def op_of_wf split: if_splits dest: unsigned_word_eqI)

lemma print_network:
  "same_print X (NetworkRule v p a) r \<Longrightarrow> wf_rule X (NetworkRule v p a) \<Longrightarrow> wf_rule X r \<Longrightarrow>
   match_metadata X r m = match_metadata X (NetworkRule v p a) m"
  by (cases r) (auto simp: same_print_def op_of_wf simp del: wf_rule.simps split: if_splits)

lemma print_uid:
  "same_print X (UidRule v p a) r \<Longrightarrow> wf_rule X (UidRule v p a) \<Longrightarrow> wf_rule X r \<Longrightarrow>
   match_metadata X r m = match_metadata X (UidRule v p a) m"
  by (cases r) (auto simp: same_print_def op_of_uid split: if_splits dest: unsigned_word_eqI)

lemma print_final: "same_print X (FinalRule a) r \<Longrightarrow> match_metadata X r m = match_metadata X (FinalRule a) m"
  by (cases r) (auto simp: same_print_def split: if_splits)

lemma print_names:
  "same_print X (ProcessRule n a) r \<Longrightarrow> match_metadata X r m = match_metadata X (ProcessRule n a) m"
  "same_print X (InNameRule n a) r \<Longrightarrow> match_metadata X r m = match_metadata X (InNameRule n a) m"
  "same_print X (InUserRule n a) r \<Longrightarrow> match_metadata X r m = match_metadata X (InUserRule n a) m"
  by (cases r; auto simp: same_print_def op_of_simps eq_ignore_ascii_case_def split: if_splits)+

lemma print_process_path:
  "same_print X (ProcessPathRule p md a) r \<Longrightarrow> wf_rule X (ProcessPathRule p md a) \<Longrightarrow> wf_rule X r \<Longrightarrow>
   match_metadata X r m = match_metadata X (ProcessPathRule p md a) m"
  by (cases r) (auto simp: same_print_def op_of_options process_path_new_def split: if_splits option.splits)

lemma print_in_type:
  "same_print X (InTypeRule p a b1 b2 b3 b4 b5) r \<Longrightarrow> wf_rule X (InTypeRule p a b1 b2 b3 b4 b5) \<Longrightarrow> wf_rule X r \<Longrightarrow>
   match_metadata X r m = match_metadata X (InTypeRule p a b1 b2 b3 b4 b5) m"
  by (cases r) (auto simp: same_print_def op_of_wf simp del: wf_rule.simps split: if_splits)

lemmas print_handle_simps = same_print_def same_arcs_def same_value_def op_of_simps show_ptr_bar_inject

lemma print_ranges:
  "same_print X (GeoIpRule c a nr rs) r \<Longrightarrow> same_arcs (GeoIpRule c a nr rs) r \<Longrightarrow>
   match_metadata X r m = match_metadata X (GeoIpRule c a nr rs) m"
  "same_print X (SrcGeoIpRule c a rs) r \<Longrightarrow> same_arcs (SrcGeoIpRule c a rs) r \<Longrightarrow>
   match_metadata X r m = match_metadata X (SrcGeoIpRule c a rs) m"
  "same_print X (IpAsnRule c a rs s nr) r \<Longrightarrow> same_arcs (IpAsnRule c a rs s nr) r \<Longrightarrow>
   match_metadata X r m = match_metadata X (IpAsnRule c a rs s nr) m"
  by (cases r; auto simp: print_handle_simps ranges_match_def split: if_splits option.splits ipaddr.splits)+

lemma match_rule_set: "match_metadata X (RuleSetRule n rs a nr) m = rule_set_matches X (arc_val rs) m"
  by (cases rs) simp

lemma print_rule_set:
  "same_print X (RuleSetRule n rs a nr) r \<Longrightarrow> same_arcs (RuleSetRule n rs a nr) r \<Longrightarrow>
   match_metadata X r m = match_metadata X (RuleSetRule n rs a nr) m"
  by (cases r) (auto simp: print_handle_simps match_rule_set split: if_splits)

lemma print_geosite:
  "same_print X (GeoSiteRule c p a db nr) r \<Longrightarrow> same_arcs (GeoSiteRule c p a db nr) r \<Longrightarrow>
   wf_rule X (GeoSiteRule c p a db nr) \<Longrightarrow> wf_rule X r \<Longrightarrow>
   match_metadata X r m = match_metadata X (GeoSiteRule c p a db nr) m"
proof (cases r)
  case (GeoSiteRule c' p' a' db' nr')
  assume a: "same_print X (GeoSiteRule c p a db nr) r" "same_arcs (GeoSiteRule c p a db nr) r"
    "wf_rule X (GeoSiteRule c p a db nr)" "wf_rule X r"
  then obtain d ks ks' where "db = Some d" "db' = Some d"
    "resolve_keys (arc_val d) c = Some ks" "resolve_keys (arc_val d) c' = Some ks'" "join '','' ks = join '','' ks'"
    by (cases db; cases db') (auto simp: GeoSiteRule print_handle_simps op_of_options split: option.splits)
  with a show ?thesis using geosite_same [of X c p a d nr c' p' a' nr' ks ks'] by (simp add: GeoSiteRule del: wf_rule.simps)
qed (auto simp: same_print_def split: if_splits)

text \<open>Logic rules have a fingerprint only when they always match.\<close>

lemma print_logic:
  assumes "logic_rule r1" "uncollapsed X r1" "uncollapsed X r2" "same_print X r1 r2"
  shows "rule_op_of X r1 = Some OpMatch" "rule_op_of X r2 = Some OpMatch"
proof -
  have match: "op = OpMatch" if "tree_op op" "dedup_fingerprint X p op = Some fp" for op p fp
    using that by (cases op) simp_all
  have "logic_rule r2" using assms(1,4) by (simp add: logic_rule_def same_print_def)
  with assms match show "rule_op_of X r1 = Some OpMatch" "rule_op_of X r2 = Some OpMatch"
    by (auto simp: same_print_def uncollapsed_def)
qed

lemma same_print_sound:
  assumes X: "ext_laws X" and wf: "wf_rule X r1" "wf_rule X r2" "no_empty_wildcard r1" "no_empty_wildcard r2"
    and h: "is_ascii (rule_host m)" and arcs: "same_arcs r1 r2" "uncollapsed X r1" "uncollapsed X r2"
    and s: "same_print X r1 r2"
  shows "match_metadata X r2 m = match_metadata X r1 m"
proof (cases "logic_rule r1")
  case True
  then show ?thesis
    using print_logic [OF True arcs(2,3) s] rule_op_of_sound [OF X wf(1,3) h] rule_op_of_sound [OF X wf(2,4) h]
    by (simp add: op_matches_def)
next
  case False
  note print = print_domain print_suffix print_keyword print_regex print_wildcard print_cidr print_port print_in_port
    print_dscp print_network print_uid print_final print_names print_process_path print_in_type print_ranges
    print_rule_set print_geosite
  show ?thesis
  proof (cases r1)
    case (IpSuffixRule p a f src nr)
    with s show ?thesis by (simp add: same_print_def op_of_simps)
  next
    case (SubRuleRule n b)
    with s show ?thesis by (simp add: same_print_def op_of_simps)
  next
    case (AndRule rs a p)
    with False show ?thesis by (simp add: logic_rule_def)
  next
    case (OrRule rs a p)
    with False show ?thesis by (simp add: logic_rule_def)
  next
    case (NotRule r a p)
    with False show ?thesis by (simp add: logic_rule_def)
  qed (insert X wf(1,2) h arcs(1) s, (hypsubst, (rule print; assumption))+)
qed

end
