(* ===== verification/RuleIrPasses.thy ===== *)
theory RuleIrPasses
  imports RuleIrSound
begin

text \<open>
  The passes of \<open>CompiledRuleSet::build\<close> that drop a rule because of earlier ones: duplicates, shadowed
  domain rules and covered networks. Each is an instance of one contract, the locale \<open>prune_pass\<close>: a
  pass drops a rule only when every connection the rule matches is matched by a rule that stayed.
\<close>

subsection \<open>The rule behind an opcode\<close>

lemma uncollapsed_op: "uncollapsed X r \<Longrightarrow> logic_rule r \<Longrightarrow> rule_op_of X r = Some op \<Longrightarrow> tree_op op"
  by (simp add: uncollapsed_def)

lemmas op_of_rules = op_of_simps op_of_options op_of_uid op_of_wf

lemma rule_of_op:
  assumes "wf_rule X r" "uncollapsed X r"
  shows "rule_op_of X r = Some (OpDomain d) \<Longrightarrow> \<exists>p a. r = DomainRule p a \<and> d = to_ascii_lowercase p"
    and "rule_op_of X r = Some (OpDomainSuffix d) \<Longrightarrow> \<exists>p a. r = DomainSuffixRule p a \<and> d = to_ascii_lowercase p"
    and "rule_op_of X r = Some (OpDomainKeyword d) \<Longrightarrow> \<exists>p a. r = DomainKeywordRule p a \<and> d = to_ascii_lowercase p"
    and "rule_op_of X r = Some (OpDomainWildcard w) \<Longrightarrow> \<exists>re p a. r = DomainWildcardRule re p a"
    and "rule_op_of X r = Some (OpIpCidr net src) \<Longrightarrow>
      \<exists>n p a nr. r = IpCidrRule n p a src nr \<and> net = trunc_net X n"
proof -
  note [simp] = op_of_rules [simplified] logic_rule_def
  show "rule_op_of X r = Some (OpDomain d) \<Longrightarrow> \<exists>p a. r = DomainRule p a \<and> d = to_ascii_lowercase p"
    using assms by (cases r) (auto dest!: uncollapsed_op split: option.splits if_splits)
  show "rule_op_of X r = Some (OpDomainSuffix d) \<Longrightarrow> \<exists>p a. r = DomainSuffixRule p a \<and> d = to_ascii_lowercase p"
    using assms by (cases r) (auto dest!: uncollapsed_op split: option.splits if_splits)
  show "rule_op_of X r = Some (OpDomainKeyword d) \<Longrightarrow> \<exists>p a. r = DomainKeywordRule p a \<and> d = to_ascii_lowercase p"
    using assms by (cases r) (auto dest!: uncollapsed_op split: option.splits if_splits)
  show "rule_op_of X r = Some (OpDomainWildcard w) \<Longrightarrow> \<exists>re p a. r = DomainWildcardRule re p a"
    using assms by (cases r) (auto dest!: uncollapsed_op split: option.splits if_splits)
  show "rule_op_of X r = Some (OpIpCidr net src) \<Longrightarrow> \<exists>n p a nr. r = IpCidrRule n p a src nr \<and> net = trunc_net X n"
    using assms by (cases r) (auto dest!: uncollapsed_op split: option.splits if_splits)
qed

subsection \<open>A pass that drops rules\<close>

text \<open>
  The three passes that drop a rule because of earlier ones share a contract. A pass keeps some
  knowledge of the rules that stayed; \<open>knows cov k\<close> says that, for the connection at hand, whatever the
  knowledge rules out is matched by a rule that stayed (\<open>cov\<close>).
\<close>

locale prune_pass =
  fixes knows :: "bool \<Rightarrow> 'k \<Rightarrow> bool"
    and learn :: "'k \<Rightarrow> 'r \<Rightarrow> 'k"
    and prunes :: "'k \<Rightarrow> 'r \<Rightarrow> bool"
    and ok :: "'r \<Rightarrow> bool"
    and hits :: "'r \<Rightarrow> bool"
  assumes knows_mono: "knows cov k \<Longrightarrow> (cov \<Longrightarrow> cov') \<Longrightarrow> knows cov' k"
    and prunes_covered: "knows cov k \<Longrightarrow> ok r \<Longrightarrow> prunes k r \<Longrightarrow> hits r \<Longrightarrow> cov"
    and learn_covered: "knows cov k \<Longrightarrow> ok r \<Longrightarrow> (hits r \<Longrightarrow> cov) \<Longrightarrow> knows cov (learn k r)"
begin

text \<open>Dropping a rule loses no match; keeping it and learning from it keeps the knowledge right.\<close>

lemma pass_step:
  assumes "knows cov k" "ok r"
  shows "prunes k r \<Longrightarrow> (cov \<or> hits r) = cov" "knows (cov \<or> hits r) (learn k r)"
proof -
  show "prunes k r \<Longrightarrow> (cov \<or> hits r) = cov" using prunes_covered [OF assms] by blast
  have "knows (cov \<or> hits r) k" using assms(1) by (rule knows_mono) simp
  then show "knows (cov \<or> hits r) (learn k r)" using assms(2) by (rule learn_covered) simp
qed

lemma learn_all:
  "knows cov k \<Longrightarrow> list_all ok rs \<Longrightarrow> knows (cov \<or> list_ex hits rs) (fold (\<lambda>r k. learn k r) rs k)"
proof (induction rs arbitrary: cov k)
  case (Cons r rs)
  then have "knows ((cov \<or> hits r) \<or> list_ex hits rs) (fold (\<lambda>r k. learn k r) rs (learn k r))"
    by (intro Cons.IH pass_step) simp_all
  then show ?case by (simp add: disj_assoc)
qed simp

end

subsection \<open>Shadowed rules\<close>

definition oracle_knows :: "string \<Rightarrow> bool \<Rightarrow> shadow_oracle \<Rightarrow> bool" where
  "oracle_knows h cov o' \<longleftrightarrow>
     (\<forall>s \<in> set (suffixes o'). is_lower s \<and> (suffix_match h s \<longrightarrow> cov)) \<and>
     (\<forall>k \<in> set (kws o'). is_lower k \<and> (keyword_match h k \<longrightarrow> cov)) \<and>
     (\<forall>r \<in> set (star_rests o').
        (\<exists>g. to_ascii_lowercase h = g @ CHR ''.'' # r \<and> g \<noteq> [] \<and> CHR ''.'' \<notin> set g) \<longrightarrow> cov)"

lemma suffix_covers_loop_iff:
  "suffix_covers_loop sfxs p \<longleftrightarrow> (\<exists>s \<in> set sfxs. p = s \<or> (\<exists>a. p = a @ CHR ''.'' # s))"
proof (induction sfxs p rule: suffix_covers_loop.induct)
  case (1 sfxs p)
  show ?case
  proof (cases "split_once (CHR ''.'') p")
    case None
    then have "CHR ''.'' \<notin> set p" by (simp add: split_once_def split: if_splits)
    with None show ?thesis by (subst suffix_covers_loop.simps) auto
  next
    case (Some q)
    obtain a b where q: "q = (a, b)" by fastforce
    with Some have p: "CHR ''.'' \<notin> set a" "p = a @ CHR ''.'' # b" by (simp_all add: split_once_Some)
    have eq: "(\<exists>c. p = c @ CHR ''.'' # s) \<longleftrightarrow> b = s \<or> (\<exists>c. b = c @ CHR ''.'' # s)" for s
    proof
      assume "\<exists>c. p = c @ CHR ''.'' # s"
      with p(2) obtain c where "a @ CHR ''.'' # b = c @ CHR ''.'' # s" by auto
      with p(1) show "b = s \<or> (\<exists>c. b = c @ CHR ''.'' # s)"
        by (auto simp: append_eq_append_conv2 Cons_eq_append_conv append_eq_Cons_conv)
    next
      assume "b = s \<or> (\<exists>c. b = c @ CHR ''.'' # s)"
      then show "\<exists>c. p = c @ CHR ''.'' # s"
        unfolding p(2) by (metis append_Cons append_assoc)
    qed
    show ?thesis
      using 1 [OF _ Some q [symmetric]] by (subst suffix_covers_loop.simps) (auto simp: Some q eq)
  qed
qed

lemma suffix_covers_match:
  assumes "suffix_covers o' p" "oracle_knows h cov o'"
    and "to_ascii_lowercase h = p \<or> (\<exists>a. to_ascii_lowercase h = a @ CHR ''.'' # p)"
  shows cov
proof -
  obtain s where s: "s \<in> set (suffixes o')" "p = s \<or> (\<exists>a. p = a @ CHR ''.'' # s)"
    using assms(1) by (auto simp: suffix_covers_def suffix_covers_loop_iff split: if_splits)
  then have l: "is_lower s" and c: "suffix_match h s \<Longrightarrow> cov" using assms(2) by (auto simp: oracle_knows_def)
  have "to_ascii_lowercase h = s \<or> (\<exists>a. to_ascii_lowercase h = a @ CHR ''.'' # s)"
    using s(2) assms(3) by (metis append_Cons append_assoc)
  then have "suffix_match h s" by (auto simp: suffix_match_iff ends_with_iff is_lower_fixed [OF l])
  then show ?thesis by (rule c)
qed

lemma keyword_covers_match:
  assumes "keyword_covers o' p" "oracle_knows h cov o'" "sublist p (to_ascii_lowercase h)"
  shows cov
proof -
  obtain k where k: "k \<in> set (kws o')" "sublist k p"
    using assms(1) by (auto simp: keyword_covers_def list_ex_iff contains_str_sublist)
  then have l: "is_lower k" and c: "keyword_match h k \<Longrightarrow> cov" using assms(2) by (auto simp: oracle_knows_def)
  have "sublist k (to_ascii_lowercase h)" using k(2) assms(3) by (rule sublist_order.order_trans)
  then have "keyword_match h k" by (simp add: keyword_match_iff contains_str_sublist is_lower_fixed [OF l])
  then show ?thesis by (rule c)
qed

lemma sublist_dotted: "h = d \<or> (\<exists>b. h = b @ CHR ''.'' # d) \<Longrightarrow> sublist d h"
  by (auto simp: sublist_append sublist_Cons_right)

lemma star_rest_Some:
  "star_rest p = Some r \<longleftrightarrow> (\<exists>rest. p = ''*.'' @ rest \<and> rest \<noteq> [] \<and> CHR ''*'' \<notin> set rest \<and> r = to_ascii_lowercase rest)"
proof
  assume "\<exists>rest. p = ''*.'' @ rest \<and> rest \<noteq> [] \<and> CHR ''*'' \<notin> set rest \<and> r = to_ascii_lowercase rest"
  then show "star_rest p = Some r" by (auto simp: star_rest_def strip_prefix_def)
qed (auto simp: star_rest_def strip_prefix_Some split: option.splits if_splits)

text \<open>A star rule matches a host that is one label in front of the rest.\<close>

lemma star_rule_match:
  assumes X: "ext_laws X" and wf: "wf_rule X (DomainWildcardRule re p a)" and h: "is_ascii (rule_host m)"
    and s: "star_rest p = Some r"
  shows "match_metadata X (DomainWildcardRule re p a) m \<longleftrightarrow>
    (\<exists>g. to_ascii_lowercase (rule_host m) = g @ CHR ''.'' # r \<and> g \<noteq> [] \<and> CHR ''.'' \<notin> set g)"
proof -
  let ?h = "rule_host m"
  obtain rest where p: "p = ''*.'' @ rest" "CHR ''*'' \<notin> set rest" "r = to_ascii_lowercase rest"
    using s by (auto simp: star_rest_Some)
  have "match_metadata X (DomainWildcardRule re p a) m \<longleftrightarrow>
      ?h \<noteq> [] \<and> (\<exists>g t. ?h = g @ t \<and> g \<noteq> [] \<and> CHR ''.'' \<notin> set g \<and> to_ascii_lowercase t = CHR ''.'' # r)"
    using wf h by (simp add: wildcard_regex_match [OF X] p wildcard_star [OF p(2), simplified])
  also have "\<dots> \<longleftrightarrow> (\<exists>g. to_ascii_lowercase ?h = g @ CHR ''.'' # r \<and> g \<noteq> [] \<and> CHR ''.'' \<notin> set g)" (is "?l \<longleftrightarrow> ?r")
  proof
    assume ?l
    then obtain g t where "?h = g @ t" "g \<noteq> []" "CHR ''.'' \<notin> set g" "to_ascii_lowercase t = CHR ''.'' # r" by blast
    then show ?r by (intro exI [of _ "to_ascii_lowercase g"]) simp
  next
    assume ?r
    then obtain g where g: "to_ascii_lowercase ?h = g @ CHR ''.'' # r" "g \<noteq> []" "CHR ''.'' \<notin> set g" by blast
    let ?g = "take (length g) ?h" and ?t = "drop (length g) ?h"
    have "to_ascii_lowercase ?g = g" "to_ascii_lowercase ?t = CHR ''.'' # r"
      using g(1) by (simp_all add: lower_take lower_drop)
    moreover from this have "?g \<noteq> []" "CHR ''.'' \<notin> set ?g" using g(2,3) by (metis lower_Nil, metis dot_in_lower)
    ultimately show ?l by (metis append_take_drop_id append_is_Nil_conv)
  qed
  finally show ?thesis .
qed

definition shadow_ok :: "ext \<Rightarrow> metadata \<Rightarrow> rule_op \<times> rule \<Rightarrow> bool" where
  "shadow_ok X m e \<longleftrightarrow>
     ext_laws X \<and> is_ascii (rule_host m) \<and> wf_rule X (snd e) \<and> uncollapsed X (snd e) \<and>
     rule_op_of X (snd e) = Some (fst e)"

lemma shadows_covered:
  assumes k: "oracle_knows (rule_host m) cov o'" and ok: "shadow_ok X m (op, r)"
    and s: "shadows o' op (rule_payload r)" and m: "match_metadata X r m"
  shows cov
proof -
  have X: "ext_laws X" "is_ascii (rule_host m)" and wf: "wf_rule X r" "uncollapsed X r" and op: "rule_op_of X r = Some op"
    using ok by (simp_all add: shadow_ok_def)
  note covers = suffix_covers_match [OF _ k] keyword_covers_match [OF _ k]
  show ?thesis
  proof (cases op)
    case (OpDomain d)
    then obtain p a where r: "r = DomainRule p a" "d = to_ascii_lowercase p" using rule_of_op(1) [OF wf] op by blast
    then have h: "to_ascii_lowercase (rule_host m) = d" using m by (simp add: eq_ignore_ascii_case_def)
    have "cov" if "star_covers o' d"
      using that k h by (force simp: star_covers_def oracle_knows_def split_once_Some split: option.splits if_splits)
    with s OpDomain h covers show ?thesis by auto
  next
    case (OpDomainSuffix d)
    then obtain p a where r: "r = DomainSuffixRule p a" "d = to_ascii_lowercase p" using rule_of_op(2) [OF wf] op by blast
    then have h: "to_ascii_lowercase (rule_host m) = d \<or> (\<exists>b. to_ascii_lowercase (rule_host m) = b @ CHR ''.'' # d)"
      using m by (auto simp: suffix_match_iff ends_with_iff)
    then have "sublist d (to_ascii_lowercase (rule_host m))" using sublist_dotted by blast
    with s OpDomainSuffix h covers show ?thesis by auto
  next
    case (OpDomainKeyword d)
    then obtain p a where r: "r = DomainKeywordRule p a" "d = to_ascii_lowercase p" using rule_of_op(3) [OF wf] op by blast
    then have "sublist d (to_ascii_lowercase (rule_host m))" using m by (simp add: keyword_match_iff contains_str_sublist)
    with s OpDomainKeyword covers show ?thesis by auto
  next
    case (OpDomainWildcard w)
    then obtain re p a where r: "r = DomainWildcardRule re p a" using rule_of_op(4) [OF wf] op by blast
    with s OpDomainWildcard obtain rest where rest: "star_rest p = Some rest" "suffix_covers o' rest \<or> keyword_covers o' rest"
      by (auto split: option.splits)
    have h: "\<exists>b. to_ascii_lowercase (rule_host m) = b @ CHR ''.'' # rest"
      using star_rule_match [OF X(1) _ X(2) rest(1)] m wf(1) unfolding r by blast
    then have "sublist rest (to_ascii_lowercase (rule_host m))" using sublist_dotted by blast
    with rest(2) h covers show ?thesis by blast
  qed (use s in simp_all)
qed

lemma absorb_covered:
  assumes k: "oracle_knows (rule_host m) cov o'" and ok: "shadow_ok X m (op, r)"
    and m: "match_metadata X r m \<Longrightarrow> cov"
  shows "oracle_knows (rule_host m) cov (shadow_absorb o' op (rule_payload r))"
proof -
  have X: "ext_laws X" "is_ascii (rule_host m)" and wf: "wf_rule X r" "uncollapsed X r" and op: "rule_op_of X r = Some op"
    using ok by (simp_all add: shadow_ok_def)
  show ?thesis
  proof (cases op)
    case (OpDomainSuffix d)
    then obtain p a where "r = DomainSuffixRule p a" "d = to_ascii_lowercase p" using rule_of_op(2) [OF wf] op by blast
    with k m OpDomainSuffix show ?thesis by (auto simp: oracle_knows_def)
  next
    case (OpDomainKeyword d)
    then obtain p a where "r = DomainKeywordRule p a" "d = to_ascii_lowercase p" using rule_of_op(3) [OF wf] op by blast
    with k m OpDomainKeyword show ?thesis by (auto simp: oracle_knows_def)
  next
    case (OpDomainWildcard w)
    then obtain re p a where r: "r = DomainWildcardRule re p a" using rule_of_op(4) [OF wf] op by blast
    show ?thesis
    proof (cases "star_rest p")
      case (Some rest)
      then have "cov" if "\<exists>g. to_ascii_lowercase (rule_host m) = g @ CHR ''.'' # rest \<and> g \<noteq> [] \<and> CHR ''.'' \<notin> set g"
        using star_rule_match [OF X(1) _ X(2) Some] m that wf(1) unfolding r by blast
      with k show ?thesis by (auto simp: oracle_knows_def OpDomainWildcard r Some)
    qed (use k in \<open>simp add: OpDomainWildcard r\<close>)
  qed (use k in simp_all)
qed

interpretation shadow: prune_pass "oracle_knows (rule_host m)" "\<lambda>o' (op, r). shadow_absorb o' op (rule_payload r)"
  "\<lambda>o' (op, r). shadows o' op (rule_payload r)" "shadow_ok X m" "\<lambda>(op, r). match_metadata X r m" for X m
proof unfold_locales
  show "oracle_knows (rule_host m) cov k \<Longrightarrow> (cov \<Longrightarrow> cov') \<Longrightarrow> oracle_knows (rule_host m) cov' k" for cov cov' k
    unfolding oracle_knows_def by blast
qed (auto intro: shadows_covered absorb_covered)

subsection \<open>Covered networks\<close>

definition axis_ip :: "bool \<Rightarrow> metadata \<Rightarrow> ipaddr option" where
  "axis_ip src m = (if src then md_src_ip m else md_dst_ip m)"

definition coverage_knows :: "ext \<Rightarrow> ipaddr option \<Rightarrow> bool \<Rightarrow> cidr_coverage \<Rightarrow> bool" where
  "coverage_knows X ip cov c \<longleftrightarrow>
     (case ip of None \<Rightarrow> True | Some a \<Rightarrow> range_has X (cov_v4 c) a \<or> range_has X (cov_v6 c) a \<longrightarrow> cov)"

definition net_hits :: "ext \<Rightarrow> ipaddr option \<Rightarrow> ipnet \<Rightarrow> bool" where
  "net_hits X ip net \<longleftrightarrow> (case ip of None \<Rightarrow> False | Some a \<Rightarrow> net_contains X net a)"

interpretation coverage: prune_pass "coverage_knows X ip" coverage_absorb "coverage_covers X"
  "\<lambda>_. ext_laws X" "net_hits X ip" for X ip
proof unfold_locales
  show "coverage_knows X ip cov' k" if "coverage_knows X ip cov k" "cov \<Longrightarrow> cov'" for cov cov' k
    using that by (auto simp: coverage_knows_def split: option.splits)
  show cov if "coverage_knows X ip cov k" "ext_laws X" "coverage_covers X k r" "net_hits X ip r" for cov k r
    using that by (auto simp: coverage_knows_def coverage_covers_def net_hits_def dest: range_contains_sound
      split: option.splits ipnet.splits)
  show "coverage_knows X ip cov (coverage_absorb k r)"
    if "coverage_knows X ip cov k" "ext_laws X" "net_hits X ip r \<Longrightarrow> cov" for cov k r
    using that by (auto simp: coverage_knows_def coverage_absorb_def net_hits_def split: option.splits ipnet.splits)
qed

subsection \<open>Duplicates\<close>

definition dedup_key :: "ext \<Rightarrow> rule \<Rightarrow> (rule_type \<times> bool \<times> bool \<times> string) option" where
  "dedup_key X r =
     (case rule_op_of X r of
        None \<Rightarrow> None
      | Some op \<Rightarrow> map_option (\<lambda>fp. (rule_type r, should_resolve_ip r, should_find_process r, fp))
          (dedup_fingerprint X (rule_payload r) op))"

definition seen_knows :: "ext \<Rightarrow> metadata \<Rightarrow> rule list \<Rightarrow> bool \<Rightarrow> (rule_type \<times> bool \<times> bool \<times> string) list \<Rightarrow> bool" where
  "seen_knows X m rules cov seen \<longleftrightarrow>
     (\<forall>r \<in> set rules. \<forall>key. dedup_key X r = Some key \<and> key \<in> set seen \<and> match_metadata X r m \<longrightarrow> cov)"

text \<open>The rules the passes are sound for.\<close>

definition passes_ok :: "ext \<Rightarrow> rule list \<Rightarrow> bool" where
  "passes_ok X rules \<longleftrightarrow>
     list_all (\<lambda>r. wf_rule X r \<and> no_empty_wildcard r \<and> uncollapsed X r) rules \<and>
     list_all (\<lambda>r1. list_all (same_arcs r1) rules) rules"

definition conn_ok :: "ext \<Rightarrow> metadata \<Rightarrow> bool" where
  "conn_ok X m \<longleftrightarrow> ext_laws X \<and> is_ascii (rule_host m)"

lemma dedup_key_same_print:
  "dedup_key X r1 = Some k \<Longrightarrow> dedup_key X r2 = Some k \<Longrightarrow> same_print X r1 r2"
  by (auto simp: dedup_key_def same_print_def split: option.splits)

lemma dedup_key_match:
  assumes "conn_ok X m" "passes_ok X rules" "r1 \<in> set rules" "r2 \<in> set rules"
    and "dedup_key X r1 = Some k" "dedup_key X r2 = Some k"
  shows "match_metadata X r2 m = match_metadata X r1 m"
  using assms same_print_sound [OF _ _ _ _ _ _ _ _ _ dedup_key_same_print [OF assms(5,6)]]
  by (simp add: conn_ok_def passes_ok_def list_all_iff)

interpretation dedup: prune_pass "seen_knows X m rules" "\<lambda>seen r. case dedup_key X r of Some k \<Rightarrow> k # seen | None \<Rightarrow> seen"
  "\<lambda>seen r. dedup_key X r \<in> Some ` set seen" "\<lambda>r. conn_ok X m \<and> passes_ok X rules \<and> r \<in> set rules"
  "\<lambda>r. match_metadata X r m" for X m rules
proof unfold_locales
  fix cov seen r
  assume k: "seen_knows X m rules cov seen" and ok: "conn_ok X m \<and> passes_ok X rules \<and> r \<in> set rules"
    and h: "match_metadata X r m \<Longrightarrow> cov"
  show "seen_knows X m rules cov (case dedup_key X r of Some k \<Rightarrow> k # seen | None \<Rightarrow> seen)"
  proof (cases "dedup_key X r")
    case (Some key)
    have "cov" if "r' \<in> set rules" "dedup_key X r' = Some key" "match_metadata X r' m" for r'
      using dedup_key_match [of X m rules r r'] ok Some that h by blast
    with k Some show ?thesis unfolding seen_knows_def by (auto simp del: split_paired_All)
  qed (use k in simp)
qed (unfold seen_knows_def, auto simp del: split_paired_All)

end
