(* ===== verification/RuleIrBuild.thy ===== *)
theory RuleIrBuild
  imports RuleIrPasses
begin

text \<open>
  The build loop of \<open>CompiledRuleSet::build\<close>. Its structural invariant: the slots are ordered by rule
  index and describe their rules, the adapter table is a bijection, and the demand flags are exact. Its
  semantic invariant: whatever the passes know is covered by a slot, and every rule that matches a
  connection has a slot at or before it that does.
\<close>

subsection \<open>The structural invariant\<close>

definition covered :: "ext \<Rightarrow> rule list \<Rightarrow> metadata \<Rightarrow> slot list \<Rightarrow> bool" where
  "covered X rules m ss \<longleftrightarrow> list_ex (\<lambda>s. match_metadata X (rules ! slot_rule_index s) m) ss"

definition slot_for :: "ext \<Rightarrow> rule list \<Rightarrow> string list \<Rightarrow> slot \<Rightarrow> bool" where
  "slot_for X rules names s \<longleftrightarrow>
     slot_rule_index s < length rules \<and> slot_adapter_index s < length names \<and>
     (let r = rules ! slot_rule_index s in
        slot_rule_type s = rule_type r \<and> slot_payload s = rule_payload r \<and>
        slot_target_plan s = target_plan_of (rule_type r) \<and>
        slot_demands_ip s = should_resolve_ip r \<and> slot_demands_process s = should_find_process r \<and>
        names ! slot_adapter_index s = rule_adapter r \<and> rule_op_of X r = Some (slot_op s))"

definition intern_ok :: "string list \<Rightarrow> (string \<times> nat) list \<Rightarrow> bool" where
  "intern_ok names lookup \<longleftrightarrow>
     distinct names \<and> (\<forall>name i. map_of lookup name = Some i \<longleftrightarrow> i < length names \<and> names ! i = name)"

definition build_wf :: "ext \<Rightarrow> rule list \<Rightarrow> nat \<Rightarrow> build_state \<Rightarrow> bool" where
  "build_wf X rules n st \<longleftrightarrow>
     sorted_wrt (<) (map slot_rule_index (b_slots st)) \<and>
     (\<forall>s \<in> set (b_slots st). slot_rule_index s < n \<and> slot_for X rules (b_names st) s) \<and>
     intern_ok (b_names st) (b_lookup st) \<and>
     b_needs_ip st = list_ex slot_demands_ip (b_slots st) \<and>
     b_needs_process st = list_ex slot_demands_process (b_slots st) \<and>
     b_seen_ip_demand st = b_needs_ip st"

lemma intern_adapter_ok:
  assumes "intern_ok names lookup" "intern_adapter names lookup name = (names', lookup', i)"
  shows "intern_ok names' lookup'" "i < length names'" "names' ! i = name" "\<exists>ns. names' = names @ ns"
proof -
  have "name \<notin> set names" if "map_of lookup name = None"
    using assms(1) that unfolding intern_ok_def in_set_conv_nth by (metis option.distinct(1))
  then show "intern_ok names' lookup'" "i < length names'" "names' ! i = name" "\<exists>ns. names' = names @ ns"
    using assms by (auto simp: intern_adapter_def intern_ok_def nth_append less_Suc_eq split: option.splits if_splits)
qed

lemma slot_for_append: "slot_for X rules names s \<Longrightarrow> slot_for X rules (names @ ns) s"
  by (auto simp: slot_for_def nth_append Let_def)

lemma dedup_insert_key:
  "rule_op_of X r = Some op \<Longrightarrow>
   dedup_insert X r op st =
     (if dedup_key X r \<in> Some ` set (b_seen st) then None
      else Some (st\<lparr>b_seen := (case dedup_key X r of Some k \<Rightarrow> k # b_seen st | None \<Rightarrow> b_seen st)\<rparr>))"
  by (auto simp: dedup_insert_def dedup_key_def Let_def split: option.splits)

lemma cidr_absorb_fields:
  assumes "cidr_absorb X r op st = Some st'"
  shows "b_slots st' = b_slots st" "b_names st' = b_names st" "b_lookup st' = b_lookup st" "b_seen st' = b_seen st"
    "b_needs_ip st' = b_needs_ip st" "b_needs_process st' = b_needs_process st"
    "b_seen_ip_demand st' = b_seen_ip_demand st" "b_oracle st' = b_oracle st"
  using assms by (auto simp: cidr_absorb_def Let_def split: rule_op.splits if_splits)

lemma build_step_cases:
  obtains (dead) "never_matches r \<or> rule_op_of X r = None" "build_step X n r st = (st, False)"
    | (duplicate) op where "rule_op_of X r = Some op" "dedup_key X r \<in> Some ` set (b_seen st)"
        "build_step X n r st = (st, False)"
    | (live) op st1 where "rule_op_of X r = Some op"
        "st1 = st\<lparr>b_seen := (case dedup_key X r of Some k \<Rightarrow> k # b_seen st | None \<Rightarrow> b_seen st)\<rparr>"
        "build_step X n r st =
           (if shadows (b_oracle st) op (rule_payload r) then (st1, False)
            else (let st2 = st1\<lparr>b_oracle := shadow_absorb (b_oracle st) op (rule_payload r)\<rparr> in
                  case cidr_absorb X r op st2 of
                    None \<Rightarrow> (st2, False)
                  | Some st3 \<Rightarrow> (push_slot n r op st3, op = OpMatch)))"
proof (cases "never_matches r \<or> rule_op_of X r = None")
  case True
  then show thesis using dead by (auto simp: build_step_def)
next
  case False
  then obtain op where op: "rule_op_of X r = Some op" "\<not> never_matches r" by auto
  show thesis
  proof (cases "dedup_key X r \<in> Some ` set (b_seen st)")
    case True
    then show thesis using duplicate op by (simp add: build_step_def dedup_insert_key)
  next
    case False
    show thesis
      by (rule live [OF op(1) refl]) (use False op in \<open>simp add: build_step_def dedup_insert_key\<close>)
  qed
qed

lemma push_slot_wf:
  assumes wf: "build_wf X rules n st" and n: "n < length rules" and op: "rule_op_of X (rules ! n) = Some op"
  shows "build_wf X rules (Suc n) (push_slot n (rules ! n) op st)"
proof -
  obtain names lookup i where e: "intern_adapter (b_names st) (b_lookup st) (rule_adapter (rules ! n)) = (names, lookup, i)"
    by (metis prod_cases3)
  have "intern_ok (b_names st) (b_lookup st)" using wf by (simp add: build_wf_def)
  note i = intern_adapter_ok [OF this e]
  obtain ns where ns: "names = b_names st @ ns" using i(4) by blast
  have "slot_for X rules names s" if "s \<in> set (b_slots st)" for s
    using wf that slot_for_append by (simp add: build_wf_def ns)
  moreover have "slot_for X rules names s" if "s \<in> set (b_slots (push_slot n (rules ! n) op st)) - set (b_slots st)" for s
    using that n op i(2,3) by (auto simp: push_slot_def e slot_for_def)
  ultimately have "slot_for X rules names s" if "s \<in> set (b_slots (push_slot n (rules ! n) op st))" for s
    using that by blast
  with wf i(1) show ?thesis
    by (auto simp: push_slot_def e build_wf_def sorted_wrt_append less_Suc_eq)
qed

lemma build_wf_skip:
  assumes "build_wf X rules n st" "b_slots st' = b_slots st" "b_names st' = b_names st" "b_lookup st' = b_lookup st"
    "b_needs_ip st' = b_needs_ip st" "b_needs_process st' = b_needs_process st"
    "b_seen_ip_demand st' = b_seen_ip_demand st" "n \<le> n'"
  shows "build_wf X rules n' st'"
  using assms by (auto simp: build_wf_def)

lemma build_step_wf:
  assumes wf: "build_wf X rules n st" and n: "n < length rules"
  shows "build_wf X rules (Suc n) (fst (build_step X n (rules ! n) st))"
proof (cases X n "rules ! n" st rule: build_step_cases)
  case dead
  with wf show ?thesis by (auto intro: build_wf_skip)
next
  case (duplicate op)
  with wf show ?thesis by (auto intro: build_wf_skip)
next
  case (live op st1)
  let ?st2 = "st1\<lparr>b_oracle := shadow_absorb (b_oracle st) op (rule_payload (rules ! n))\<rparr>"
  have skip: "build_wf X rules (Suc n) st1" "build_wf X rules (Suc n) ?st2"
    using wf live(2) by (auto intro: build_wf_skip)
  moreover have "build_wf X rules (Suc n) (push_slot n (rules ! n) op st3)"
    if "cidr_absorb X (rules ! n) op ?st2 = Some st3" for st3
  proof (rule push_slot_wf [OF _ n live(1)])
    show "build_wf X rules n st3"
      using build_wf_skip [OF wf, of st3 n] cidr_absorb_fields [OF that] live(2) by simp
  qed
  ultimately show ?thesis unfolding live(3) by (auto simp: Let_def split: option.split)
qed

subsection \<open>No match is lost\<close>

lemma covered_append [simp]:
  "covered X rules m (ss @ [s]) \<longleftrightarrow> covered X rules m ss \<or> match_metadata X (rules ! slot_rule_index s) m"
  by (simp add: covered_def)

lemma b_slots_push [simp]:
  "\<exists>s. b_slots (push_slot n r op st) = b_slots st @ [s] \<and> slot_rule_index s = n"
  by (simp add: push_slot_def case_prod_beta Let_def)

lemma push_slot_fields [simp]:
  "b_seen (push_slot n r op st) = b_seen st" "b_oracle (push_slot n r op st) = b_oracle st"
  "b_dst_coverage (push_slot n r op st) = b_dst_coverage st" "b_src_coverage (push_slot n r op st) = b_src_coverage st"
  by (simp_all add: push_slot_def case_prod_beta Let_def)

text \<open>The knowledge of the passes, for a value of \<open>cov\<close> given apart.\<close>

definition passes_know :: "ext \<Rightarrow> rule list \<Rightarrow> metadata \<Rightarrow> bool \<Rightarrow> build_state \<Rightarrow> bool" where
  "passes_know X rules m cov st \<longleftrightarrow>
     seen_knows X m rules cov (b_seen st) \<and> oracle_knows (rule_host m) cov (b_oracle st) \<and>
     coverage_knows X (md_dst_ip m) cov (b_dst_coverage st) \<and> coverage_knows X (md_src_ip m) cov (b_src_coverage st)"

lemma cidr_match:
  assumes "conn_ok X m" "wf_rule X r" "uncollapsed X r" "rule_op_of X r = Some (OpIpCidr net src)"
  shows "match_metadata X r m \<longleftrightarrow> net_hits X (axis_ip src m) net"
proof -
  obtain n p a nr where r: "r = IpCidrRule n p a src nr" "net = trunc_net X n"
    using rule_of_op(5) [OF assms(2-4)] by blast
  have X: "ext_laws X" using assms(1) by (simp add: conn_ok_def)
  show ?thesis by (simp add: r net_hits_def axis_ip_def trunc_net_contains [OF X] split: option.split)
qed

definition build_knows :: "ext \<Rightarrow> rule list \<Rightarrow> metadata \<Rightarrow> nat \<Rightarrow> build_state \<Rightarrow> bool" where
  "build_knows X rules m n st \<longleftrightarrow>
     passes_know X rules m (covered X rules m (b_slots st)) st \<and>
     (\<forall>j < n. match_metadata X (rules ! j) m \<longrightarrow>
        (\<exists>s \<in> set (b_slots st). slot_rule_index s \<le> j \<and> match_metadata X (rules ! slot_rule_index s) m))"

lemma passes_know_mono: "passes_know X rules m cov st \<Longrightarrow> (cov \<Longrightarrow> cov') \<Longrightarrow> passes_know X rules m cov' st"
  unfolding passes_know_def by (auto elim: dedup.knows_mono shadow.knows_mono coverage.knows_mono)

lemma cidr_absorb_drops:
  assumes ok: "conn_ok X m" "wf_rule X r" "uncollapsed X r" "rule_op_of X r = Some op"
    and k: "passes_know X rules m cov st" and d: "cidr_absorb X r op st = None" and h: "match_metadata X r m"
  shows cov
proof -
  obtain net src where op: "op = OpIpCidr net src" and c: "coverage_covers X (if src then b_src_coverage st else b_dst_coverage st) net"
    using d by (auto simp: cidr_absorb_def Let_def split: rule_op.splits if_splits)
  have "net_hits X (axis_ip src m) net" using cidr_match [OF ok(1-3)] ok(4) op h by simp
  moreover have "coverage_knows X (axis_ip src m) cov (if src then b_src_coverage st else b_dst_coverage st)"
    using k by (simp add: passes_know_def axis_ip_def)
  moreover have "ext_laws X" using ok(1) by (simp add: conn_ok_def)
  ultimately show ?thesis using coverage.prunes_covered c by blast
qed

lemma cidr_absorb_keeps:
  assumes ok: "conn_ok X m" "wf_rule X r" "uncollapsed X r" "rule_op_of X r = Some op"
    and k: "passes_know X rules m cov st" and h: "match_metadata X r m \<Longrightarrow> cov"
    and s: "cidr_absorb X r op st = Some st'"
  shows "passes_know X rules m cov st'"
proof (cases "\<exists>net src. op = OpIpCidr net src")
  case True
  then obtain net src where op: "op = OpIpCidr net src" by blast
  let ?c = "if src then b_src_coverage st else b_dst_coverage st"
  have "coverage_knows X (axis_ip src m) cov ?c" using k by (simp add: passes_know_def axis_ip_def)
  moreover have "ext_laws X" using ok(1) by (simp add: conn_ok_def)
  moreover have "net_hits X (axis_ip src m) net \<Longrightarrow> cov" using cidr_match [OF ok(1-3)] ok(4) op h by simp
  ultimately have "coverage_knows X (axis_ip src m) cov (coverage_absorb ?c net)"
    using coverage.learn_covered by blast
  with k s show ?thesis
    by (auto simp: op cidr_absorb_def Let_def passes_know_def axis_ip_def split: if_splits)
next
  case False
  with s have "st' = st" by (auto simp: cidr_absorb_def split: rule_op.splits)
  with k show ?thesis by simp
qed

lemma build_knows_skip:
  assumes "build_knows X rules m n st" "build_wf X rules n st" "b_slots st' = b_slots st"
    "passes_know X rules m (covered X rules m (b_slots st)) st'"
    "match_metadata X (rules ! n) m \<Longrightarrow> covered X rules m (b_slots st)"
  shows "build_knows X rules m (Suc n) st'"
proof -
  have "\<exists>s \<in> set (b_slots st). slot_rule_index s \<le> j \<and> match_metadata X (rules ! slot_rule_index s) m"
    if j: "j < Suc n" "match_metadata X (rules ! j) m" for j
  proof (cases "j = n")
    case True
    then obtain s where "s \<in> set (b_slots st)" "match_metadata X (rules ! slot_rule_index s) m"
      using assms(5) j by (auto simp: covered_def list_ex_iff)
    with assms(2) True show ?thesis by (auto simp: build_wf_def intro: less_imp_le)
  next
    case False
    with j assms(1) show ?thesis by (auto simp: build_knows_def less_Suc_eq)
  qed
  with assms(3,4) show ?thesis by (simp add: build_knows_def)
qed

lemma build_knows_push:
  assumes "build_knows X rules m n st" "passes_know X rules m (covered X rules m (b_slots st) \<or> match_metadata X (rules ! n) m) st'"
    "b_slots st' = b_slots st"
  shows "build_knows X rules m (Suc n) (push_slot n (rules ! n) op st')"
proof -
  obtain s where s: "b_slots (push_slot n (rules ! n) op st') = b_slots st @ [s]" "slot_rule_index s = n"
    using b_slots_push [of n "rules ! n" op st'] assms(3) by auto
  have "\<exists>s' \<in> set (b_slots st @ [s]). slot_rule_index s' \<le> j \<and> match_metadata X (rules ! slot_rule_index s') m"
    if "j < Suc n" "match_metadata X (rules ! j) m" for j
  proof (cases "j = n")
    case True
    with that s(2) show ?thesis by simp
  next
    case False
    with that assms(1) show ?thesis by (auto simp: build_knows_def less_Suc_eq)
  qed
  with s assms(2) show ?thesis by (simp add: build_knows_def passes_know_def)
qed

lemma disj_absorb_imp: "(b \<Longrightarrow> a) \<Longrightarrow> (a \<or> b) = a"
  by blast

text \<open>What the passes know once a live rule has been entered into the first two of them.\<close>

lemma live_knows:
  assumes ok: "conn_ok X m" "passes_ok X rules" "r \<in> set rules" "rule_op_of X r = Some op"
    and k: "passes_know X rules m cov st"
    and st1: "st1 = st\<lparr>b_seen := (case dedup_key X r of Some k \<Rightarrow> k # b_seen st | None \<Rightarrow> b_seen st)\<rparr>"
  shows "passes_know X rules m (cov \<or> match_metadata X r m) st1"
    and "passes_know X rules m (cov \<or> match_metadata X r m)
      (st1\<lparr>b_oracle := shadow_absorb (b_oracle st) op (rule_payload r)\<rparr>)"
    and "shadows (b_oracle st) op (rule_payload r) \<Longrightarrow> match_metadata X r m \<Longrightarrow> cov"
proof -
  have sh: "shadow_ok X m (op, r)"
    using ok by (simp add: shadow_ok_def conn_ok_def passes_ok_def list_all_iff)
  have "seen_knows X m rules (cov \<or> match_metadata X r m) (b_seen st1)"
    using dedup.pass_step(2) [of X m rules cov "b_seen st" r] k ok st1 by (simp add: passes_know_def)
  then show know1: "passes_know X rules m (cov \<or> match_metadata X r m) st1"
    using passes_know_mono [OF k, of "cov \<or> match_metadata X r m"] st1 by (simp add: passes_know_def)
  show "passes_know X rules m (cov \<or> match_metadata X r m)
      (st1\<lparr>b_oracle := shadow_absorb (b_oracle st) op (rule_payload r)\<rparr>)"
    using know1 shadow.pass_step(2) [OF _ sh, of cov "b_oracle st"] k by (simp add: passes_know_def)
  show "shadows (b_oracle st) op (rule_payload r) \<Longrightarrow> match_metadata X r m \<Longrightarrow> cov"
    using shadow.prunes_covered [where cov = cov and k = "b_oracle st", OF _ sh] k by (simp add: passes_know_def)
qed

text \<open>A live rule is kept, or dropped by the shadow or the coverage pass.\<close>

lemma live_step_knows:
  assumes ok: "conn_ok X m" "passes_ok X rules" and n: "n < length rules"
    and wf: "build_wf X rules n st" and k: "build_knows X rules m n st" and op: "rule_op_of X (rules ! n) = Some op"
    and st1: "st1 = st\<lparr>b_seen := (case dedup_key X (rules ! n) of Some k \<Rightarrow> k # b_seen st | None \<Rightarrow> b_seen st)\<rparr>"
    and st2: "st2 = st1\<lparr>b_oracle := shadow_absorb (b_oracle st) op (rule_payload (rules ! n))\<rparr>"
  shows "shadows (b_oracle st) op (rule_payload (rules ! n)) \<Longrightarrow> build_knows X rules m (Suc n) st1"
    and "cidr_absorb X (rules ! n) op st2 = None \<Longrightarrow> build_knows X rules m (Suc n) st2"
    and "cidr_absorb X (rules ! n) op st2 = Some st3 \<Longrightarrow>
      build_knows X rules m (Suc n) (push_slot n (rules ! n) op st3)"
proof -
  let ?r = "rules ! n" and ?cov = "covered X rules m (b_slots st)"
  have r: "?r \<in> set rules" using n by simp
  have w: "wf_rule X ?r" "uncollapsed X ?r" using ok(2) r by (auto simp: passes_ok_def list_all_iff)
  have pk: "passes_know X rules m ?cov st" using k by (simp add: build_knows_def)
  have slots: "b_slots st1 = b_slots st" "b_slots st2 = b_slots st" by (simp_all add: st1 st2)
  note know = live_knows [OF ok r op pk st1, folded st2]
  show "build_knows X rules m (Suc n) st1" if "shadows (b_oracle st) op (rule_payload ?r)"
    using build_knows_skip [OF k wf slots(1)] know(1) know(3) [OF that] by (simp add: disj_absorb_imp)
  show "build_knows X rules m (Suc n) st2" if none: "cidr_absorb X ?r op st2 = None"
  proof -
    have "cidr_absorb X ?r op st = None"
      using none by (auto simp: st1 st2 cidr_absorb_def Let_def split: rule_op.splits if_splits)
    then have c: "match_metadata X ?r m \<Longrightarrow> ?cov" using cidr_absorb_drops [OF ok(1) w op pk] by blast
    then show ?thesis using build_knows_skip [OF k wf slots(2)] know(2) by (simp add: disj_absorb_imp)
  qed
  show "build_knows X rules m (Suc n) (push_slot n ?r op st3)" if some: "cidr_absorb X ?r op st2 = Some st3"
  proof -
    have "passes_know X rules m (?cov \<or> match_metadata X ?r m) st3"
      by (rule cidr_absorb_keeps [OF ok(1) w op know(2) _ some]) simp
    moreover have "b_slots st3 = b_slots st" using cidr_absorb_fields(1) [OF some] slots(2) by simp
    ultimately show ?thesis by (rule build_knows_push [OF k])
  qed
qed

lemma build_step_knows:
  assumes ok: "conn_ok X m" "passes_ok X rules" and n: "n < length rules"
    and wf: "build_wf X rules n st" and k: "build_knows X rules m n st"
  shows "build_knows X rules m (Suc n) (fst (build_step X n (rules ! n) st)) \<and>
    (snd (build_step X n (rules ! n) st) \<longrightarrow> match_metadata X (rules ! n) m)"
proof -
  let ?r = "rules ! n" and ?cov = "covered X rules m (b_slots st)"
  have w: "wf_rule X ?r" "no_empty_wildcard ?r" using ok(2) n by (auto simp: passes_ok_def list_all_iff)
  have X: "ext_laws X" "is_ascii (rule_host m)" using ok(1) by (simp_all add: conn_ok_def)
  note sound = rule_op_of_sound [OF X(1) w X(2)]
  have pk: "passes_know X rules m ?cov st" using k by (simp add: build_knows_def)
  show ?thesis
  proof (cases X n ?r st rule: build_step_cases)
    case dead
    then have "\<not> match_metadata X ?r m" using never_matches_sound [OF _ w(1)] sound by (auto split: option.splits)
    then show ?thesis using build_knows_skip [OF k wf refl pk] dead(2) by simp
  next
    case (duplicate op)
    have "match_metadata X ?r m \<Longrightarrow> ?cov"
      using dedup.prunes_covered [where cov = ?cov and m = m and rules = rules, OF _ _ duplicate(2)] pk ok n by (auto simp: passes_know_def)
    then show ?thesis using build_knows_skip [OF k wf refl pk] duplicate(3) by simp
  next
    case (live op st1)
    have "op = OpMatch \<Longrightarrow> match_metadata X ?r m" using sound live(1) by (simp add: op_matches_def)
    then show ?thesis
      unfolding live(3) using live_step_knows [OF ok n wf k live(1,2) refl]
      by (auto simp: Let_def split: option.split)
  qed
qed

subsection \<open>The whole loop\<close>

lemma build_init_ok: "build_wf X rules 0 build_init" "build_knows X rules m 0 build_init"
  by (simp_all add: build_wf_def build_init_def intern_ok_def build_knows_def passes_know_def seen_knows_def
    oracle_knows_def shadow_empty_def coverage_knows_def coverage_new_def split: option.split)

lemma drop_eq_Cons: "drop n xs = y # ys \<Longrightarrow> n < length xs \<and> xs ! n = y \<and> ys = drop (Suc n) xs"
  by (cases "n < length xs") (auto simp: Cons_nth_drop_Suc [symmetric])

lemma build_loop_wf:
  "build_wf X rules n st \<Longrightarrow> rs = drop n rules \<Longrightarrow> n \<le> length rules \<Longrightarrow>
   build_wf X rules (length rules) (build_loop X n rs st)"
proof (induction X n rs st rule: build_loop.induct)
  case (1 X n st)
  then show ?case by (auto intro: build_wf_skip)
next
  case (2 X n r rs st)
  then have n: "n < length rules" "rules ! n = r" "rs = drop (Suc n) rules" using drop_eq_Cons by metis+
  obtain st' stop where e: "build_step X n r st = (st', stop)" by fastforce
  have s: "build_wf X rules (Suc n) st'" using build_step_wf [OF 2(2) n(1)] n(2) e by simp
  show ?case
  proof (cases stop)
    case True
    then show ?thesis using s n(1) e by (auto intro: build_wf_skip)
  next
    case False
    then show ?thesis using 2(1) [OF e [symmetric] refl False] s n e by simp
  qed
qed

lemma build_loop_knows:
  "conn_ok X m \<Longrightarrow> passes_ok X rules \<Longrightarrow> build_wf X rules n st \<Longrightarrow> build_knows X rules m n st \<Longrightarrow>
   rs = drop n rules \<Longrightarrow> n \<le> length rules \<Longrightarrow> j < length rules \<Longrightarrow> match_metadata X (rules ! j) m \<Longrightarrow>
   \<exists>s \<in> set (b_slots (build_loop X n rs st)). slot_rule_index s \<le> j \<and> match_metadata X (rules ! slot_rule_index s) m"
proof (induction X n rs st rule: build_loop.induct)
  case (1 X n st)
  then show ?case by (simp add: build_knows_def)
next
  case (2 X n r rs st)
  have n: "n < length rules" "rules ! n = r" "rs = drop (Suc n) rules" using 2(6) drop_eq_Cons by metis+
  obtain st' stop where e: "build_step X n r st = (st', stop)" by fastforce
  have wf: "build_wf X rules (Suc n) st'" using build_step_wf [OF 2(4) n(1)] n(2) e by simp
  have k: "build_knows X rules m (Suc n) st'" "stop \<longrightarrow> match_metadata X r m"
    using build_step_knows [OF 2(2,3) n(1) 2(4,5)] n(2) e by simp_all
  show ?case
  proof (cases stop)
    case True
    have "min j n \<le> j \<and> min j n < Suc n \<and> match_metadata X (rules ! min j n) m"
      using True k(2) n(2) 2(9) by (auto simp: min_def)
    then obtain i where i: "i \<le> j" "i < Suc n" "match_metadata X (rules ! i) m" by blast
    then obtain s where s: "s \<in> set (b_slots st')" "slot_rule_index s \<le> i" "match_metadata X (rules ! slot_rule_index s) m"
      using k(1) unfolding build_knows_def by blast
    show ?thesis by (rule bexI [of _ s]) (use True e s i(1) in simp_all)
  next
    case False
    then show ?thesis using 2(1) [OF e [symmetric] refl False] 2(2,3) wf k(1) n 2(8,9) e by simp
  qed
qed

end
