(* ===== verification/RuleIrCorrect.thy ===== *)
theory RuleIrCorrect
  imports RuleIrBuild Reference
begin

text \<open>
  Matching with compiled rules, by the linear scan and through the domain index, returns the first rule
  that matches; matching on demand agrees with it. The invariant of the compiled value and inputs on
  which dropping a rule or the index changes the result are at the end.
\<close>

subsection \<open>Scanning a thinned list\<close>

text \<open>
  A subsequence of the indices in which every index with a result has one with a result at or before
  it has the same first result.
\<close>

lemma sparse_find_map:
  assumes sorted: "sorted_wrt (<) (map ix ss)" and range: "\<forall>s \<in> set ss. ix s < n"
    and cov: "\<And>j. j < n \<Longrightarrow> f j \<noteq> None \<Longrightarrow> \<exists>s \<in> set ss. ix s \<le> j \<and> f (ix s) \<noteq> None"
  shows "find_map (\<lambda>s. f (ix s)) ss = find_map f [0..<n]"
proof (cases "find_map f [0..<n]")
  case None
  then have "\<forall>j < n. f j = None" by (simp add: find_map_None)
  with range have "find_map (\<lambda>s. f (ix s)) ss = None" by (simp add: find_map_None)
  with None show ?thesis by simp
next
  case (Some v)
  then obtain us j vs where j: "[0..<n] = us @ j # vs" "f j = Some v" "\<forall>u \<in> set us. f u = None"
    using find_map_SomeD by metis
  have "length us < n" using arg_cong [OF j(1), of length] by simp
  moreover from this have "j = length us" using arg_cong [OF j(1), of "\<lambda>xs. xs ! length us"] by (simp add: nth_append)
  moreover from calculation have "us = [0..<length us]" using arg_cong [OF j(1), of "take (length us)"] by simp
  ultimately have us: "set us = {0..<j}" "j < n" by (metis atLeastLessThan_upt, simp)
  obtain s where s: "s \<in> set ss" "ix s \<le> j" "f (ix s) \<noteq> None" using cov [OF us(2)] j(2) by auto
  have "ix s = j" using s(2,3) j(3) us(1) by (cases "ix s = j") auto
  obtain as bs where ss: "ss = as @ s # bs" using s(1) by (meson split_list)
  have "f (ix a) = None" if "a \<in> set as" for a
    using sorted that j(3) us(1) \<open>ix s = j\<close> by (auto simp: ss sorted_wrt_append)
  then have "find_map (\<lambda>s. f (ix s)) ss = Some v"
    unfolding ss by (intro find_map_SomeI) (use \<open>ix s = j\<close> j(2) in auto)
  with Some show ?thesis by simp
qed

definition rule_view :: "ext \<Rightarrow> metadata \<Rightarrow> nat \<Rightarrow> rule \<Rightarrow> (string \<times> rule_type \<times> string \<times> nat) option" where
  "rule_view X m i r = map_option (\<lambda>a. (a, rule_type r, rule_payload r, i)) (match_and_resolve X r m)"

lemma rule_view_None: "rule_view X m i r = None \<longleftrightarrow> \<not> match_metadata X r m"
  using match_and_resolve_iff [of X r m] by (auto simp: rule_view_def)

lemma naive_match_upt: "naive_match X rules m = find_map (\<lambda>i. rule_view X m i (rules ! i)) [0..<length rules]"
proof -
  have "enumerate 0 rules = map (\<lambda>i. (i, rules ! i)) [0..<length rules]"
    by (rule nth_equalityI) (simp_all add: nth_enumerate_eq)
  then show ?thesis by (simp add: naive_match_def rule_view_def find_map_map)
qed

lemma build_slots_find:
  assumes "conn_ok X m" "passes_ok X rules" and ss: "ss = b_slots (build_loop X 0 rules build_init)"
  shows "find_map (\<lambda>s. rule_view X m (slot_rule_index s) (rules ! slot_rule_index s)) ss = naive_match X rules m"
  unfolding naive_match_upt
proof (rule sparse_find_map)
  have wf: "build_wf X rules (length rules) (build_loop X 0 rules build_init)"
    using build_loop_wf [OF build_init_ok(1)] by simp
  then show "sorted_wrt (<) (map slot_rule_index ss)" "\<forall>s \<in> set ss. slot_rule_index s < length rules"
    by (simp_all add: build_wf_def ss)
  show "\<exists>s \<in> set ss. slot_rule_index s \<le> j \<and> rule_view X m (slot_rule_index s) (rules ! slot_rule_index s) \<noteq> None"
    if "j < length rules" "rule_view X m j (rules ! j) \<noteq> None" for j
    using build_loop_knows [OF assms(1,2) build_init_ok, of rules j] that by (simp add: ss rule_view_None)
qed

subsection \<open>The slots after the hand-over to the trie\<close>

definition owned :: "slot \<Rightarrow> bool" where
  "owned s \<longleftrightarrow> domain_op (slot_op s) \<and> index_patterns (slot_rule_type s) (slot_payload s) \<noteq> []"

definition own :: "slot \<Rightarrow> slot" where
  "own s = (if owned s then s\<lparr>slot_op := OpTrieOwned\<rparr> else s)"

lemma own_fields [simp]:
  "slot_rule_index (own s) = slot_rule_index s" "slot_rule_type (own s) = slot_rule_type s"
  "slot_payload (own s) = slot_payload s" "slot_adapter_index (own s) = slot_adapter_index s"
  "slot_target_plan (own s) = slot_target_plan s" "slot_demands_ip (own s) = slot_demands_ip s"
  "slot_demands_process (own s) = slot_demands_process s"
  by (simp_all add: own_def)

lemma own_slots_map:
  assumes "\<forall>s \<in> set ss. \<forall>q \<in> set (index_patterns (slot_rule_type s) (slot_payload s)). domain_entries q \<noteq> []"
    and "trie_state (di_trie d) = Building root"
  shows "own_slots ss d =
    (map own ss, fold (\<lambda>(i, rt, p) d. fst (insert_rule d i rt p))
       (map (\<lambda>s. (slot_rule_index s, slot_rule_type s, slot_payload s)) (filter (domain_op \<circ> slot_op) ss)) d)"
  using assms
proof (induction ss arbitrary: d root)
  case (Cons s ss)
  show ?case
  proof (cases "domain_op (slot_op s)")
    case True
    let ?d = "fst (insert_rule d (slot_rule_index s) (slot_rule_type s) (slot_payload s))"
    have "snd (insert_rule d (slot_rule_index s) (slot_rule_type s) (slot_payload s)) \<longleftrightarrow> owned s"
      using insert_rule_snd [OF Cons.prems(2)] Cons.prems(1) True by (simp add: owned_def)
    moreover obtain root' where "trie_state (di_trie ?d) = Building root'"
      using Cons.prems(2) by (auto simp: insert_rule_fst trie_fold_insert)
    ultimately show ?thesis
      using Cons.IH [of ?d root'] Cons.prems(1) True by (simp add: own_def case_prod_beta Let_def)
  next
    case False
    then show ?thesis using Cons by (simp add: own_def owned_def)
  qed
qed simp

text \<open>What a scan makes of the slots it visits.\<close>

definition cm_view :: "compiled_match \<Rightarrow> string \<times> rule_type \<times> string \<times> nat" where
  "cm_view r = (cm_adapter_name r, cm_rule_type r, cm_rule_payload r, cm_rule_index r)"

definition slot_view :: "ext \<Rightarrow> rule list \<Rightarrow> metadata \<Rightarrow> slot \<Rightarrow> (string \<times> rule_type \<times> string \<times> nat) option" where
  "slot_view X rules m s = rule_view X m (slot_rule_index s) (rules ! slot_rule_index s)"

lemma static_match_view:
  assumes "slot_for X rules names s" "names = adapter_names c" "rule_type (rules ! slot_rule_index s) \<noteq> RtSubRule"
  shows "slot_view X rules m s =
    (if match_metadata X (rules ! slot_rule_index s) m then Some (cm_view (static_match c s)) else None)"
  using assms
  by (simp add: slot_view_def rule_view_def match_and_resolve_static cm_view_def static_match_def make_match_def slot_for_def Let_def)

lemma sub_rule_op: "rule_type r = RtSubRule \<Longrightarrow> rule_op_of X r = Some OpFallback"
  by (cases r) (auto simp: op_of_simps split: if_splits)

lemma rule_op_not_owned: "wf_rule X r \<Longrightarrow> uncollapsed X r \<Longrightarrow> rule_op_of X r \<noteq> Some OpTrieOwned"
  by (cases r) (auto simp: op_of_rules logic_rule_def dest!: uncollapsed_op split: option.splits if_splits)

definition slot_match :: "ext \<Rightarrow> compiled \<Rightarrow> match_input \<Rightarrow> rule list \<Rightarrow> slot \<Rightarrow> compiled_match option" where
  "slot_match X c i rules s =
     (case slot_op s of
        OpTrieOwned \<Rightarrow> None
      | OpFallback \<Rightarrow>
          (case slot_target_plan s of
             StaticAdapter \<Rightarrow>
               (if match_metadata X (rules ! slot_rule_index s) (mi_metadata i) then Some (static_match c s) else None)
           | DynamicAdapter \<Rightarrow>
               map_option (\<lambda>name. make_match s name (map_of (adapter_lookup c) name))
                 (match_and_resolve X (rules ! slot_rule_index s) (mi_metadata i)))
      | op \<Rightarrow> if matches_op X op i then Some (static_match c s) else None)"

lemma scan_slots_find:
  "\<forall>s \<in> set ss. slot_rule_index s < length rules \<Longrightarrow>
   scan_slots X c False pos i rules ss =
     (case find_map (slot_match X c i rules) ss of Some r \<Rightarrow> ScanMatched r | None \<Rightarrow> Exhausted)"
proof (induction ss arbitrary: pos)
  case (Cons s ss)
  then show ?case
    by (cases "slot_op s") (auto simp: slot_match_def Let_def split: target_plan.split option.split)
qed simp

lemma slot_match_view:
  assumes ok: "conn_ok X m" "passes_ok X rules" and s: "slot_for X rules (adapter_names c) s"
  shows "map_option cm_view (slot_match X c (match_input_new m) rules s) = slot_view X rules m s"
proof -
  let ?r = "rules ! slot_rule_index s"
  have idx: "slot_rule_index s < length rules" and op: "rule_op_of X ?r = Some (slot_op s)"
    and tp: "slot_target_plan s = target_plan_of (rule_type ?r)" using s by (simp_all add: slot_for_def Let_def)
  have w: "wf_rule X ?r" "no_empty_wildcard ?r" "uncollapsed X ?r"
    using ok(2) idx by (auto simp: passes_ok_def list_all_iff)
  have X: "ext_laws X" "is_ascii (rule_host m)" using ok(1) by (simp_all add: conn_ok_def)
  have no: "slot_op s \<noteq> OpTrieOwned" using rule_op_not_owned [OF w(1,3)] op by auto
  have sem: "op_matches X (slot_op s) ?r m = match_metadata X ?r m"
    using rule_op_of_sound [OF X(1) w(1,2) X(2)] op by simp
  show ?thesis
  proof (cases "rule_type ?r = RtSubRule")
    case True
    then have "slot_op s = OpFallback" using sub_rule_op [OF True] op by simp
    with True tp s show ?thesis
      by (auto simp: slot_match_def target_plan_of_def slot_view_def rule_view_def cm_view_def make_match_def slot_for_def
        Let_def option.map_comp comp_def)
  next
    case False
    have "slot_match X c (match_input_new m) rules s =
        (if match_metadata X ?r m then Some (static_match c s) else None)"
      using sem no False tp by (cases "slot_op s") (auto simp: slot_match_def op_matches_def target_plan_of_def)
    then show ?thesis by (simp add: static_match_view [OF s refl False])
  qed
qed

lemma map_option_find_map: "map_option g (find_map f xs) = find_map (\<lambda>x. map_option g (f x)) xs"
  by (induction xs) (auto split: option.split)

lemma find_map_filter: "find_map f (filter P xs) = find_map (\<lambda>x. if P x then f x else None) xs"
  by (induction xs) (auto split: option.split)

lemma slot_match_own:
  "slot_match X c i rules (own s) = (if owned s then None else slot_match X c i rules s)"
  by (simp add: own_def slot_match_def)

subsection \<open>The compiled rules return the first match\<close>

lemma build_fields:
  assumes "st = build_loop X 0 rules build_init"
  shows "adapter_names (build X rules) = b_names st" "adapter_lookup (build X rules) = b_lookup st"
    "c_execution_plan (build X rules) = select_execution_plan (length (b_slots st))"
    "source_rule_count (build X rules) = length rules"
    "needs_ip_resolution (build X rules) = b_needs_ip st" "needs_process_lookup (build X rules) = b_needs_process st"
    "c_execution_plan (build X rules) = LinearScan \<Longrightarrow> slots (build X rules) = b_slots st"
  using assms by (auto simp: build_def Let_def case_prod_beta)

lemma scan_range_find:
  assumes "\<forall>s \<in> set (slots c). slot_rule_index s < length rules"
  shows "scan_range X c lo hi i rules = find_map (slot_match X c i rules) (take (hi - lo) (drop lo (slots c)))"
proof -
  have "\<forall>s \<in> set (take (hi - lo) (drop lo (slots c))). slot_rule_index s < length rules"
    using assms by (metis in_set_takeD in_set_dropD)
  then show ?thesis by (simp add: scan_range_def scan_range_ctl_def scan_slots_find split: option.split)
qed

lemma build_slot_for:
  assumes "st = build_loop X 0 rules build_init" "s \<in> set (b_slots st)"
  shows "slot_for X rules (adapter_names (build X rules)) s"
  using build_loop_wf [OF build_init_ok(1), of rules rules X] assms by (simp add: build_wf_def build_fields(1))

lemma linear_match:
  assumes ok: "conn_ok X m" "passes_ok X rules" and lin: "c_execution_plan (build X rules) = LinearScan"
  shows "map_option cm_view (match_rules X (build X rules) m rules) = naive_match X rules m"
proof -
  let ?c = "build X rules" and ?st = "build_loop X 0 rules build_init"
  have ss: "slots ?c = b_slots ?st" using build_fields(7) [OF refl lin] .
  have sf: "slot_for X rules (adapter_names ?c) s" if "s \<in> set (slots ?c)" for s
    using build_slot_for [OF refl] that ss by simp
  then have "scan_range X ?c 0 (length (slots ?c)) (match_input_new m) rules =
      find_map (slot_match X ?c (match_input_new m) rules) (slots ?c)"
    by (subst scan_range_find) (auto simp: slot_for_def)
  then have "map_option cm_view (match_rules X ?c m rules) = find_map (slot_view X rules m) (slots ?c)"
    using sf by (auto simp: match_rules_def lin map_option_find_map slot_match_view [OF ok] intro: find_map_cong)
  also have "\<dots> = naive_match X rules m"
    using build_slots_find [OF ok ss] by (simp add: slot_view_def [abs_def])
  finally show ?thesis .
qed

text \<open>The index points to the first slot owned by the trie whose rule matches.\<close>

definition hit :: "ext \<Rightarrow> rule list \<Rightarrow> metadata \<Rightarrow> slot \<Rightarrow> bool" where
  "hit X rules m s \<longleftrightarrow> owned s \<and> match_metadata X (rules ! slot_rule_index s) m"

lemma build_indexed:
  assumes ok: "ext_laws X" "passes_ok X rules" "host_ok (rule_host m)" and st: "st = build_loop X 0 rules build_init"
    and plan: "c_execution_plan (build X rules) = DomainIndexed"
  shows "slots (build X rules) = map own (b_slots st)"
    and "domain_index_search (c_domain_index (build X rules)) (rule_host m) =
      find_map (\<lambda>s. if hit X rules m s then Some (slot_rule_index s) else None) (b_slots st)"
proof -
  have bw: "build_wf X rules (length rules) st" using build_loop_wf [OF build_init_ok(1)] st by simp
  have r: "wf_rule X (rules ! slot_rule_index s) \<and> slot_rule_type s = rule_type (rules ! slot_rule_index s) \<and>
      slot_payload s = rule_payload (rules ! slot_rule_index s)" if "s \<in> set (b_slots st)" for s
    using bw that ok(2) by (auto simp: build_wf_def slot_for_def Let_def passes_ok_def list_all_iff)
  then have ne: "\<forall>s \<in> set (b_slots st). \<forall>q \<in> set (index_patterns (slot_rule_type s) (slot_payload s)). domain_entries q \<noteq> []"
    using index_patterns_entries by metis
  let ?xs = "map (\<lambda>s. (slot_rule_index s, slot_rule_type s, slot_payload s)) (filter (domain_op \<circ> slot_op) (b_slots st))"
  have own: "own_slots (b_slots st) domain_index_empty =
      (map own (b_slots st), fold (\<lambda>(i, rt, p) d. fst (insert_rule d i rt p)) ?xs domain_index_empty)"
    using own_slots_map [OF ne, of domain_index_empty build_default] by (simp add: domain_index_empty_def trie_new_def)
  show "slots (build X rules) = map own (b_slots st)"
    using plan own st by (simp add: build_def Let_def case_prod_beta)
  have idx: "c_domain_index (build X rules) =
      domain_index_seal (fold (\<lambda>(i, rt, p) d. fst (insert_rule d i rt p)) ?xs domain_index_empty)"
    using plan own st by (simp add: build_def Let_def case_prod_beta)
  have "sorted (map slot_rule_index (b_slots st))"
    using bw by (simp add: build_wf_def strict_sorted_imp_sorted)
  then have "sorted (map fst ?xs)" by (simp add: comp_def sorted_filter)
  note search = index_search_first [OF this, of "rule_host m"]
  have "hit X rules m s \<longleftrightarrow> domain_op (slot_op s) \<and> index_hit (rule_host m) (slot_rule_type s) (slot_payload s)"
    if "s \<in> set (b_slots st)" for s
    using index_hit_iff [OF ok(1) _ ok(3)] r [OF that] by (auto simp: hit_def owned_def)
  then show "domain_index_search (c_domain_index (build X rules)) (rule_host m) =
      find_map (\<lambda>s. if hit X rules m s then Some (slot_rule_index s) else None) (b_slots st)"
    unfolding idx search find_map_map find_map_filter by (intro find_map_cong) simp
qed

lemma hit_position_split:
  assumes ss: "slots c = map own (us @ s # vs)" and "sorted_wrt (<) (map slot_rule_index (us @ s # vs))"
  shows "hit_position c (Some (slot_rule_index s)) = (length us, Some (own s))"
proof -
  have "takeWhile (\<lambda>x. slot_rule_index x < slot_rule_index s) (slots c) = map own us"
    unfolding ss map_append list.map takeWhile_append
    using assms(2) by (auto simp: sorted_wrt_append takeWhile_eq_all_conv)
  then show ?thesis by (simp add: hit_position_def ss nth_append)
qed

lemma match_rules_indexed:
  assumes "c_execution_plan c = DomainIndexed"
  shows "match_rules X c m rules =
      (let (e, hs) = hit_position c (domain_index_search (c_domain_index c) (rule_host m)) in
       case scan_range X c 0 e (match_input_new m) rules of
         Some r \<Rightarrow> Some r
       | None \<Rightarrow>
           (case hs of
              Some s \<Rightarrow> Some (static_match c s)
            | None \<Rightarrow> scan_range X c e (length (slots c)) (match_input_new m) rules))"
proof -
  have "rule_host m = [] \<Longrightarrow> domain_index_search (c_domain_index c) (rule_host m) = None"
    by (simp add: domain_index_search_def search_min_normalized_def trim_end_matches_def)
  then show ?thesis by (auto simp: match_rules_def Let_def assms)
qed

lemma own_view:
  assumes "conn_ok X m" "passes_ok X rules" "slot_for X rules (adapter_names c) s" "\<not> hit X rules m s"
  shows "map_option cm_view (slot_match X c (match_input_new m) rules (own s)) = slot_view X rules m s"
  using slot_match_view [OF assms(1-3)] assms(4)
  by (auto simp: slot_match_own hit_def slot_view_def rule_view_None [THEN iffD2])

lemma indexed_match:
  assumes X: "ext_laws X" and ok: "passes_ok X rules" and h: "host_ok (rule_host m)"
    and plan: "c_execution_plan (build X rules) = DomainIndexed"
  shows "map_option cm_view (match_rules X (build X rules) m rules) = naive_match X rules m"
proof -
  let ?c = "build X rules" and ?st = "build_loop X 0 rules build_init"
  let ?i = "match_input_new m"
  have conn: "conn_ok X m" using X h by (simp add: conn_ok_def host_ok_def)
  note slots = build_indexed(1) [OF X ok h refl plan] and search = build_indexed(2) [OF X ok h refl plan]
  have bw: "build_wf X rules (length rules) ?st" using build_loop_wf [OF build_init_ok(1)] by simp
  have sf: "slot_for X rules (adapter_names ?c) s" if "s \<in> set (b_slots ?st)" for s
    using build_slot_for [OF refl that] .
  then have range: "\<forall>s \<in> set (slots ?c). slot_rule_index s < length rules"
    by (auto simp: slots slot_for_def)
  have view: "map_option cm_view (slot_match X ?c ?i rules (own s)) = slot_view X rules m s"
    if "s \<in> set (b_slots ?st)" "\<not> hit X rules m s" for s
    using own_view [OF conn ok sf] that by blast
  note mr = match_rules_indexed [OF plan]
  have naive: "find_map (slot_view X rules m) (b_slots ?st) = naive_match X rules m"
    using build_slots_find [OF conn ok refl] by (simp add: slot_view_def [abs_def])
  show ?thesis
  proof (cases "domain_index_search (c_domain_index ?c) (rule_host m)")
    case None
    then have "\<forall>s \<in> set (b_slots ?st). \<not> hit X rules m s" by (auto simp: search find_map_None split: if_splits)
    then have "map_option cm_view (find_map (slot_match X ?c ?i rules) (slots ?c)) = naive_match X rules m"
      unfolding naive [symmetric] map_option_find_map slots find_map_map by (intro find_map_cong view) auto
    then show ?thesis
      by (auto simp: mr None hit_position_def scan_range_find [OF range] split: option.split)
  next
    case (Some T)
    then obtain us s vs where ss: "b_slots ?st = us @ s # vs" "hit X rules m s" "slot_rule_index s = T"
      "\<forall>u \<in> set us. \<not> hit X rules m u"
      unfolding search by (auto dest!: find_map_SomeD split: if_splits)
    have "sorted_wrt (<) (map slot_rule_index (us @ s # vs))" using bw ss(1) by (simp add: build_wf_def)
    then have pos: "hit_position ?c (Some T) = (length us, Some (own s))"
      using hit_position_split [of ?c us s vs] slots ss(1,3) by simp
    have pre: "map_option cm_view (find_map (slot_match X ?c ?i rules) (map own us)) = find_map (slot_view X rules m) us"
      unfolding map_option_find_map find_map_map using ss(1,4) by (intro find_map_cong view) auto
    have "rule_type (rules ! slot_rule_index s) \<noteq> RtSubRule"
      using ss(2) index_patterns_static sf [of s] ss(1) by (auto simp: hit_def owned_def slot_for_def Let_def)
    then have this_slot: "slot_view X rules m s = Some (cm_view (static_match ?c (own s)))"
      using static_match_view [OF sf refl, of s] ss(1,2) by (simp add: hit_def static_match_def make_match_def)
    show ?thesis
      unfolding naive [symmetric] ss(1) find_map_append
      using pre this_slot
      by (auto simp: mr Some pos scan_range_find [OF range] slots ss(1) split: option.splits)
  qed
qed

lemma compiled_match:
  assumes "ext_laws X" "passes_ok X rules" "host_ok (rule_host m)"
  shows "map_option cm_view (match_rules X (build X rules) m rules) = naive_match X rules m"
proof (cases "c_execution_plan (build X rules)")
  case LinearScan
  have "conn_ok X m" using assms by (simp add: conn_ok_def host_ok_def)
  then show ?thesis using assms(2) LinearScan by (rule linear_match)
next
  case DomainIndexed
  with assms show ?thesis by (rule indexed_match)
qed



subsection \<open>Matching on demand\<close>

lemma scan_slots_lazy:
  "scan_slots X c True pos i rules ss = scan_slots X c False pos i rules ss \<or>
   (\<exists>k < length ss. scan_slots X c True pos i rules ss = Blocked (pos + k) \<and> slot_blocked (ss ! k) i)"
proof (induction ss arbitrary: pos)
  case (Cons s ss)
  show ?case
  proof (cases "slot_blocked s i")
    case True
    then show ?thesis by auto
  next
    case False
    then have "scan_slots X c True pos i rules (s # ss) = scan_slots X c False pos i rules (s # ss) \<or>
        scan_slots X c True pos i rules (s # ss) = scan_slots X c True (pos + 1) i rules ss \<and>
        scan_slots X c False pos i rules (s # ss) = scan_slots X c False (pos + 1) i rules ss"
      by (cases "slot_op s") (auto simp: Let_def split: target_plan.split option.split)
    then show ?thesis using Cons.IH [of "pos + 1"] by fastforce
  qed
qed simp

lemma scan_range_lazy:
  "scan_range_ctl X c True lo hi i rules = scan_range_ctl X c False lo hi i rules \<or>
   (\<exists>p < length (slots c). scan_range_ctl X c True lo hi i rules = Blocked p \<and> slot_blocked (slots c ! p) i)"
proof -
  let ?ss = "take (hi - lo) (drop lo (slots c))"
  have "lo + k < length (slots c) \<and> ?ss ! k = slots c ! (lo + k)" if "k < length ?ss" for k
  proof -
    have "lo \<le> length (slots c)" using that by auto
    with that show ?thesis by (simp add: less_diff_conv add.commute)
  qed
  then show ?thesis
    using scan_slots_lazy [of X c lo i rules ?ss] unfolding scan_range_ctl_def by metis
qed

lemma strict_never_blocked: "scan_slots X c False pos i rules ss \<noteq> Blocked p"
proof (induction ss arbitrary: pos)
  case (Cons s ss)
  then show ?case by (cases "slot_op s") (auto simp: Let_def split: target_plan.split option.split)
qed simp

lemma scan_range_lazy_cases:
  obtains (found) r where "scan_range_ctl X c True lo hi i rules = ScanMatched r" "scan_range X c lo hi i rules = Some r"
    | (none) "scan_range_ctl X c True lo hi i rules = Exhausted" "scan_range X c lo hi i rules = None"
    | (blocked) p where "scan_range_ctl X c True lo hi i rules = Blocked p" "p < length (slots c)"
        "slot_blocked (slots c ! p) i"
  using scan_range_lazy [of X c lo hi i rules] strict_never_blocked [of X c lo i rules]
  by (cases "scan_range_ctl X c False lo hi i rules") (auto simp: scan_range_def scan_range_ctl_def)

lemma blocked_needs:
  assumes "p < length (slots c)" "slot_blocked (slots c ! p) i"
  shows "\<exists>ip proc. enrichment_needs c p i = NeedsEnrichment ip proc \<and> (ip \<or> proc)"
proof -
  have "slots c ! p \<in> set (drop p (slots c))" using assms(1) by (metis Cons_nth_drop_Suc list.set_intros(1))
  with assms(2) show ?thesis by (auto simp: enrichment_needs_def slot_blocked_def list_ex_iff)
qed

text \<open>How a demand-driven outcome relates to the strict result on the same metadata.\<close>

definition lazy_agrees :: "lazy_outcome \<Rightarrow> compiled_match option \<Rightarrow> bool" where
  "lazy_agrees l r =
     (case l of
        LazyMatched r' \<Rightarrow> r = Some r'
      | NoMatch \<Rightarrow> r = None
      | NeedsEnrichment ip proc \<Rightarrow> ip \<or> proc)"


subsection \<open>The compiled value\<close>

lemma own_slots_fields:
  "map slot_rule_index (fst (own_slots ss d)) = map slot_rule_index ss"
  "map slot_demands_ip (fst (own_slots ss d)) = map slot_demands_ip ss"
  "map slot_demands_process (fst (own_slots ss d)) = map slot_demands_process ss"
  "map slot_adapter_index (fst (own_slots ss d)) = map slot_adapter_index ss"
  by (induction ss arbitrary: d) (auto simp: case_prod_beta Let_def)

lemma build_slot_maps:
  assumes "st = build_loop X 0 rules build_init"
  shows "map slot_rule_index (slots (build X rules)) = map slot_rule_index (b_slots st)"
    "map slot_demands_ip (slots (build X rules)) = map slot_demands_ip (b_slots st)"
    "map slot_demands_process (slots (build X rules)) = map slot_demands_process (b_slots st)"
    "map slot_adapter_index (slots (build X rules)) = map slot_adapter_index (b_slots st)"
  using assms by (simp_all add: build_def Let_def case_prod_beta own_slots_fields)

lemma list_ex_True: "list_ex f xs \<longleftrightarrow> True \<in> set (map f xs)"
  by (auto simp: list_ex_iff)

lemma list_ex_map_eq: "map f xs = map g ys \<Longrightarrow> list_ex f xs = list_ex g ys"
  by (simp only: list_ex_True)

text \<open>
  C8: the shape of a compiled value, for any list of rules. The slots are in strictly ascending order of
  rule index and name an existing rule and an existing adapter, the adapter table and its inverse agree,
  and the two demand flags are set exactly when some slot has the demand.
\<close>

theorem build_wellformed:
  "sorted_wrt (<) (map slot_rule_index (slots (build X rules))) \<and>
   list_all (\<lambda>i. i < length rules) (map slot_rule_index (slots (build X rules))) \<and>
   list_all (\<lambda>i. i < length (adapter_names (build X rules))) (map slot_adapter_index (slots (build X rules))) \<and>
   intern_ok (adapter_names (build X rules)) (adapter_lookup (build X rules)) \<and>
   needs_ip_resolution (build X rules) = list_ex slot_demands_ip (slots (build X rules)) \<and>
   needs_process_lookup (build X rules) = list_ex slot_demands_process (slots (build X rules))"
proof -
  let ?st = "build_loop X 0 rules build_init"
  have wf: "build_wf X rules (length rules) ?st" using build_loop_wf [OF build_init_ok(1)] by simp
  note maps = build_slot_maps [OF refl, of X rules] and fields = build_fields [OF refl, of X rules]
  have "list_ex slot_demands_ip (slots (build X rules)) = list_ex slot_demands_ip (b_slots ?st)"
    "list_ex slot_demands_process (slots (build X rules)) = list_ex slot_demands_process (b_slots ?st)"
    by (rule list_ex_map_eq [OF maps(2)], rule list_ex_map_eq [OF maps(3)])
  with wf show ?thesis
    unfolding maps fields build_wf_def by (auto simp: list_all_iff slot_for_def)
qed

subsection \<open>Inputs on which a pass or the index changes the result\<close>



end
