(* ===== verification/RuleParser.thy ===== *)
theory RuleParser
  imports RuleIrCorrect
begin

text \<open>
  Rule lines, \<open>meow-rules/src/parser.rs\<close>, and the lookups of the country and ASN indexes it makes.
  \<open>parse_rule\<close> goes into the groups of a logic rule and terminates because every group has fewer
  opening parentheses than the line. A lookup that finds no ranges allocates two new \<open>Arc\<close>s, so the
  parser carries the next free address along. The lemmas show that parsed rules are well formed, that
  addresses stay unique, and that parsing inverts printing of nested rules.
\<close>

subsection \<open>Context\<close>

record country_index =
  by_country :: "(string \<times> ip_ranges) list"

record asn_index =
  by_asn :: "(32 word \<times> ip_ranges) list"

record parser_context =
  ctx_geoip :: "country_index option"
  ctx_asn :: "asn_index option"
  ctx_geosite :: "geosite_db arc option"

definition parser_context_empty :: parser_context where
  "parser_context_empty = \<lparr>ctx_geoip = None, ctx_asn = None, ctx_geosite = None\<rparr>"

text \<open>The default of a pair of shared ranges: two new allocations of empty ranges.\<close>

definition fresh_ranges :: "nat \<Rightarrow> ip_ranges \<times> nat" where
  "fresh_ranges n = (IpRanges (Arc n RangeNew) (Arc (n + 1) RangeNew), n + 2)"

definition country_ranges_for :: "country_index \<Rightarrow> string \<Rightarrow> nat \<Rightarrow> ip_ranges \<times> nat" where
  "country_ranges_for index country n =
     (case map_of (by_country index) (to_ascii_uppercase country) of
        Some ranges \<Rightarrow> (ranges, n)
      | None \<Rightarrow> fresh_ranges n)"

definition asn_ranges_for :: "asn_index \<Rightarrow> 32 word \<Rightarrow> nat \<Rightarrow> ip_ranges \<times> nat" where
  "asn_ranges_for index asn n =
     (case map_of (by_asn index) asn of
        Some ranges \<Rightarrow> (ranges, n)
      | None \<Rightarrow> fresh_ranges n)"

subsection \<open>Lines without parentheses\<close>

type_synonym parsed = "(rule_error + rule) \<times> nat"

definition parse_asn_payload :: "string \<Rightarrow> rule_error + 32 word" where
  "parse_asn_payload payload =
     (case parse_u32 (trim payload) of
        Some asn \<Rightarrow> Inr asn
      | None \<Rightarrow> Inl (InvalidAsn (trim payload)))"

definition is_no_resolve :: "string option \<Rightarrow> bool" where
  "is_no_resolve extra =
     (case extra of Some e \<Rightarrow> eq_ignore_ascii_case e ''no-resolve'' | None \<Rightarrow> False)"

definition parse_geoip :: "parser_context \<Rightarrow> string \<Rightarrow> string \<Rightarrow> bool \<Rightarrow> nat \<Rightarrow> parsed" where
  "parse_geoip ctx payload adapter no_resolve n =
     (case ctx_geoip ctx of
        None \<Rightarrow> (Inl NoGeoIpDatabase, n)
      | Some index \<Rightarrow>
          (let (ranges, n') = country_ranges_for index payload n in
           (Inr (geoip_new payload adapter no_resolve ranges), n')))"

definition parse_src_geoip :: "parser_context \<Rightarrow> string \<Rightarrow> string \<Rightarrow> nat \<Rightarrow> parsed" where
  "parse_src_geoip ctx payload adapter n =
     (case ctx_geoip ctx of
        None \<Rightarrow> (Inl NoGeoIpDatabase, n)
      | Some index \<Rightarrow>
          (let (ranges, n') = country_ranges_for index payload n in
           (Inr (src_geoip_new payload adapter ranges), n')))"

text \<open>The branches \<open>IP-ASN\<close> and \<open>SRC-IP-ASN\<close>, which differ in two flags.\<close>

definition parse_ip_asn :: "parser_context \<Rightarrow> string \<Rightarrow> string \<Rightarrow> bool \<Rightarrow> bool \<Rightarrow> nat \<Rightarrow> parsed" where
  "parse_ip_asn ctx payload adapter src no_resolve n =
     (case ctx_asn ctx of
        None \<Rightarrow> (Inl NoAsnDatabase, n)
      | Some index \<Rightarrow>
          (case parse_asn_payload payload of
             Inl e \<Rightarrow> (Inl e, n)
           | Inr asn \<Rightarrow>
               (let (ranges, n') = asn_ranges_for index asn n in
                (Inr (ip_asn_new asn payload adapter ranges src no_resolve), n'))))"

definition parse_geosite :: "parser_context \<Rightarrow> string \<Rightarrow> string \<Rightarrow> bool \<Rightarrow> rule_error + rule" where
  "parse_geosite ctx payload adapter no_resolve =
     (if trim (hd (split_on (CHR ''@'') payload)) = [] then Inl NoCategory
      else Inr (geosite_new payload adapter (ctx_geosite ctx) no_resolve))"

definition parse_typed ::
  "ext \<Rightarrow> parser_context \<Rightarrow> string \<Rightarrow> string \<Rightarrow> string \<Rightarrow> string option \<Rightarrow> nat \<Rightarrow> parsed" where
  "parse_typed X ctx ty payload adapter extra n =
     (let no_resolve = is_no_resolve extra in
      if ty = ''DOMAIN'' then (Inr (domain_new payload adapter), n)
      else if ty = ''DOMAIN-SUFFIX'' then (Inr (domain_suffix_new payload adapter), n)
      else if ty = ''DOMAIN-KEYWORD'' then (Inr (domain_keyword_new payload adapter), n)
      else if ty = ''DOMAIN-REGEX'' then (domain_regex_new X payload adapter, n)
      else if ty = ''IP-CIDR'' \<or> ty = ''IP-CIDR6'' then (ipcidr_new X payload adapter False no_resolve, n)
      else if ty = ''SRC-IP-CIDR'' then (ipcidr_new X payload adapter True no_resolve, n)
      else if ty = ''SRC-PORT'' then (port_new payload adapter True, n)
      else if ty = ''DST-PORT'' then (port_new payload adapter False, n)
      else if ty = ''NETWORK'' then (network_new payload adapter, n)
      else if ty = ''PROCESS-NAME'' then (Inr (process_new payload adapter), n)
      else if ty = ''GEOIP'' then parse_geoip ctx payload adapter no_resolve n
      else if ty = ''SRC-GEOIP'' then parse_src_geoip ctx payload adapter n
      else if ty = ''GEOSITE'' then (parse_geosite ctx payload adapter no_resolve, n)
      else if ty = ''IN-PORT'' then (in_port_new payload adapter, n)
      else if ty = ''IN-NAME'' then (in_name_new payload adapter, n)
      else if ty = ''IN-TYPE'' then (in_type_new payload adapter, n)
      else if ty = ''IN-USER'' then (in_user_new payload adapter, n)
      else if ty = ''DSCP'' then (dscp_new payload adapter, n)
      else if ty = ''UID'' then (uid_new payload adapter, n)
      else if ty = ''PROCESS-PATH'' then (process_path_new X payload adapter, n)
      else if ty = ''DOMAIN-WILDCARD'' then (domain_wildcard_new X payload adapter, n)
      else if ty = ''IP-SUFFIX'' then (ip_suffix_new X payload adapter False no_resolve, n)
      else if ty = ''SRC-IP-SUFFIX'' then (ip_suffix_new X payload adapter True no_resolve, n)
      else if ty = ''IP-ASN'' then parse_ip_asn ctx payload adapter False no_resolve n
      else if ty = ''SRC-IP-ASN'' then parse_ip_asn ctx payload adapter True True n
      else (Inl (UnknownRuleType ty), n))"

text \<open>A line that is not a logic rule: at most four parts, the last of which keeps its commas.\<close>

definition parse_parts :: "ext \<Rightarrow> parser_context \<Rightarrow> string \<Rightarrow> nat \<Rightarrow> parsed" where
  "parse_parts X ctx line n =
     (case splitn 4 (CHR '','') line of
        ty # a # rest \<Rightarrow>
          if trim ty = ''MATCH'' then (Inr (final_new (trim a)), n)
          else (case rest of
                  [] \<Rightarrow> (Inl (NeedsThreeParts line), n)
                | b # extras \<Rightarrow>
                    parse_typed X ctx (trim ty) (trim a) (trim b)
                      (case extras of [] \<Rightarrow> None | e # _ \<Rightarrow> Some (trim e)) n)
      | _ \<Rightarrow> (Inl (InvalidRule line), n))"

subsection \<open>Logic rules\<close>

definition split_once_trimmed :: "string \<Rightarrow> char \<Rightarrow> (string \<times> string) option" where
  "split_once_trimmed s sep = map_option (\<lambda>(l, r). (trim l, trim_start r)) (split_once sep s)"

definition is_logic_type :: "string \<Rightarrow> bool" where
  "is_logic_type u \<longleftrightarrow> u = ''AND'' \<or> u = ''OR'' \<or> u = ''NOT''"

text \<open>
  The search for the parenthesis that closes an open one, \<open>d\<close> others being open inside it: the text
  before it and the text after it. Both depth counters of the code are this search, started after
  the opening parenthesis.
\<close>

fun split_close :: "nat \<Rightarrow> string \<Rightarrow> (string \<times> string) option" where
  "split_close d [] = None"
| "split_close d (c # s) =
     (if c = CHR '')'' \<and> d = 0 then Some ([], s)
      else map_option (\<lambda>(a, b). (c # a, b))
        (split_close (if c = CHR ''('' then d + 1 else if c = CHR '')'' then d - 1 else d) s))"

lemma split_close_Some: "split_close d s = Some (a, b) \<Longrightarrow> s = a @ CHR '')'' # b"
  by (induction d s arbitrary: a rule: split_close.induct) (auto split: if_splits)

lemma split_close_after:
  "dropWhile P inner = c # s \<Longrightarrow> split_close d s = Some (g, rest) \<Longrightarrow> length rest < length inner"
  using length_dropWhile_le [of P inner] by (auto dest: split_close_Some)

function split_logic_groups :: "string \<Rightarrow> rule_error + string list" where
  "split_logic_groups inner =
     (case dropWhile (\<lambda>c. c = CHR '' '' \<or> c = CHR '','') inner of
        [] \<Rightarrow> Inr []
      | c # s \<Rightarrow>
          if c \<noteq> CHR ''('' then Inl (BadGroup c)
          else (case split_close 0 s of
                  None \<Rightarrow> Inl UnbalancedGroup
                | Some (g, rest) \<Rightarrow> map_sum id ((#) g) (split_logic_groups rest)))"
  by pat_completeness auto
termination
  by (relation "measure length") (auto dest: split_close_after)

declare split_logic_groups.simps [simp del]

definition logic_placeholder :: string where
  "logic_placeholder = ''LOGIC-INNER-PLACEHOLDER''"

definition splice_inner_adapter :: "string \<Rightarrow> string" where
  "splice_inner_adapter entry =
     (if (case split_once (CHR '','') entry of
            Some (ty, _) \<Rightarrow> is_logic_type (to_ascii_uppercase (trim ty)) | None \<Rightarrow> False)
      then entry @ '','' @ logic_placeholder
      else case splitn 3 (CHR '','') entry of
        [ty, payload] \<Rightarrow> trim ty @ '','' @ trim payload @ '','' @ logic_placeholder
      | [ty, payload, rest] \<Rightarrow>
          trim ty @ '','' @ trim payload @ '','' @ logic_placeholder @ '','' @ trim rest
      | _ \<Rightarrow> entry)"

text \<open>\<open>parse_logic_rule\<close> up to the inner rules: the adapter and the groups.\<close>

definition logic_head :: "string \<Rightarrow> string \<Rightarrow> rule_error + (string \<times> string list)" where
  "logic_head ty rest0 =
     (case trim_start rest0 of
        [] \<Rightarrow> Inl (ExpectedParen ty)
      | c # s \<Rightarrow>
          if c \<noteq> CHR ''('' then Inl (ExpectedParen ty)
          else (case split_close 0 s of
                  None \<Rightarrow> Inl (UnbalancedParens ty)
                | Some (inner, after) \<Rightarrow>
                    (case strip_prefix '','' (trim_start after) of
                       None \<Rightarrow> Inl (ExpectedAdapter ty)
                     | Some a \<Rightarrow>
                         (let adapter = trim a in
                          if adapter = [] then Inl (MissingAdapter ty)
                          else (case split_logic_groups inner of
                                  Inl e \<Rightarrow> Inl e
                                | Inr groups \<Rightarrow>
                                    if groups = [] then Inl (EmptyPayload ty) else Inr (adapter, groups))))))"

text \<open>\<open>parse_logic_rule\<close> from the inner rules on.\<close>

definition logic_finish :: "string \<Rightarrow> string \<Rightarrow> rule list \<Rightarrow> rule_error + rule" where
  "logic_finish ty adapter rs =
     (if ty = ''AND'' then Inr (and_new rs adapter)
      else if ty = ''OR'' then Inr (or_new rs adapter)
      else (case rs of [r] \<Rightarrow> Inr (not_new r adapter) | _ \<Rightarrow> Inl (NotArity (length rs))))"

definition logic_line :: "string \<Rightarrow> (string \<times> string) option" where
  "logic_line line =
     (case split_once_trimmed line (CHR '','') of
        Some (ty, rest) \<Rightarrow>
          (let upper = to_ascii_uppercase ty in if is_logic_type upper then Some (upper, rest) else None)
      | None \<Rightarrow> None)"

definition parens :: "string \<Rightarrow> nat" where
  "parens s = count_list s (CHR ''('')"


lemma parens_simps [simp]:
  "parens [] = 0" "parens (a @ b) = parens a + parens b"
  "parens (c # s) = (if c = CHR ''('' then 1 else 0) + parens s"
  by (auto simp: parens_def)

lemma trim_parts: "\<exists>a b. s = a @ trim s @ b"
proof -
  obtain b where "trim_start s = trim s @ b" unfolding trim_def using trim_end_matches_prefix by blast
  moreover have "s = takeWhile is_ws s @ trim_start s" by (simp add: trim_start_def)
  ultimately show ?thesis by metis
qed

lemma parens_trim [simp]: "parens (trim s) \<le> parens s"
proof -
  obtain a b where "s = a @ trim s @ b" using trim_parts by blast
  then have "parens s = parens a + parens (trim s) + parens b" by (metis parens_simps(2) add.assoc)
  then show ?thesis by simp
qed

lemma parens_dropWhile: "parens (dropWhile P s) \<le> parens s"
  by (induction s) auto

lemma parens_trim_start [simp]: "parens (trim_start s) \<le> parens s"
  by (simp add: trim_start_def parens_dropWhile)

definition group_weight :: "string list \<Rightarrow> nat" where
  "group_weight gs = (\<Sum>g\<leftarrow>gs. 2 * parens g + 1)"

lemma split_logic_groups_parens:
  "split_logic_groups inner = Inr gs \<Longrightarrow> group_weight gs \<le> 2 * parens inner"
proof (induction inner arbitrary: gs rule: split_logic_groups.induct)
  case (1 inner)
  show ?case
  proof (cases "dropWhile (\<lambda>c. c = CHR '' '' \<or> c = CHR '','') inner")
    case Nil
    with 1(2) show ?thesis by (simp add: split_logic_groups.simps [of inner] group_weight_def)
  next
    case (Cons c s)
    with 1(2) have c: "c = CHR ''(''" by (auto simp: split_logic_groups.simps [of inner] split: if_splits)
    with 1(2) Cons obtain g rest gs' where g: "split_close 0 s = Some (g, rest)" "gs = g # gs'"
        "split_logic_groups rest = Inr gs'"
      by (cases "split_close 0 s"; cases "split_logic_groups (snd (the (split_close 0 s)))")
        (auto simp: split_logic_groups.simps [of inner])
    have "group_weight gs' \<le> 2 * parens rest" using 1(1) [OF Cons _ g(1) refl g(3)] c by simp
    moreover have "parens (c # s) \<le> parens inner" unfolding Cons [symmetric] by (rule parens_dropWhile)
    ultimately show ?thesis using c g(2) split_close_Some [OF g(1)] by (simp add: group_weight_def)
  qed
qed

lemma logic_head_cases:
  assumes "logic_head ty rest0 = Inr (adapter, gs)"
  obtains inner after a where "trim_start rest0 = CHR ''('' # inner @ CHR '')'' # after"
    "split_close 0 (inner @ CHR '')'' # after) = Some (inner, after)"
    "trim_start after = CHR '','' # a" "adapter = trim a" "adapter \<noteq> []"
    "split_logic_groups inner = Inr gs" "gs \<noteq> []"
proof -
  from assms obtain s inner after a where s: "trim_start rest0 = CHR ''('' # s" "split_close 0 s = Some (inner, after)"
      "strip_prefix '','' (trim_start after) = Some a" "adapter = trim a" "adapter \<noteq> []"
      "split_logic_groups inner = Inr gs" "gs \<noteq> []"
    by (auto simp: logic_head_def Let_def split: list.splits if_splits option.splits sum.splits)
  from split_close_Some [OF s(2)] s show ?thesis by (intro that) (auto simp: strip_prefix_Some)
qed

lemma logic_head_parens: "logic_head ty rest = Inr (adapter, gs) \<Longrightarrow> group_weight gs < 2 * parens rest"
proof (erule logic_head_cases)
  fix inner after a
  assume r: "trim_start rest = CHR ''('' # inner @ CHR '')'' # after" and g: "split_logic_groups inner = Inr gs"
  from split_logic_groups_parens [OF g] parens_trim_start [of rest] show "group_weight gs < 2 * parens rest"
    unfolding r by simp
qed

lemma logic_line_Some:
  "logic_line line = Some (ty, rest) \<longleftrightarrow>
     (\<exists>a b. split_once (CHR '','') line = Some (a, b) \<and> ty = to_ascii_uppercase (trim a) \<and> rest = trim_start b \<and>
       is_logic_type ty)"
  by (auto simp: logic_line_def split_once_trimmed_def Let_def split: option.splits)

lemma logic_line_parens: "logic_line line = Some (ty, rest) \<Longrightarrow> parens rest \<le> parens line"
  by (auto simp: logic_line_Some split_once_Some intro: le_trans [OF parens_trim_start])

lemma split_once_simps [simp]:
  "c \<notin> set a \<Longrightarrow> split_once c (a @ c # b) = Some (a, b)" "c \<notin> set s \<Longrightarrow> split_once c s = None"
  by (simp_all add: split_once_Some) (simp add: split_once_def)

lemma splitn_simps [simp]:
  "c \<notin> set a \<Longrightarrow> splitn (Suc (Suc n)) c (a @ c # b) = a # splitn (Suc n) c b"
  "c \<notin> set s \<Longrightarrow> splitn (Suc n) c s = [s]"
  by simp (cases n; simp)

lemma split_first: obtains "c \<notin> set s" | a b where "s = a @ c # b" "c \<notin> set a"
  by (metis split_list_first)

lemma splitn3_cases:
  obtains "CHR '','' \<notin> set e" "splitn 3 (CHR '','') e = [e]"
  | a b where "e = a @ CHR '','' # b" "CHR '','' \<notin> set a" "CHR '','' \<notin> set b" "splitn 3 (CHR '','') e = [a, b]"
  | a b c where "e = a @ CHR '','' # b @ CHR '','' # c" "CHR '','' \<notin> set a" "CHR '','' \<notin> set b"
      "splitn 3 (CHR '','') e = [a, b, c]"
proof (cases rule: split_first [of "CHR '',''" e])
  case (2 a b)
  then show ?thesis
    by (cases rule: split_first [of "CHR '',''" b]) (auto simp: numeral_3_eq_3 intro: that)
qed (auto simp: numeral_3_eq_3 intro: that)

lemma splice_parens: "parens (splice_inner_adapter e) \<le> parens e"
proof (cases rule: splitn3_cases [of e])
  case (2 a b)
  then show ?thesis by (simp add: splice_inner_adapter_def logic_placeholder_def add_le_mono)
next
  case (3 a b c)
  then show ?thesis by (simp add: splice_inner_adapter_def logic_placeholder_def add_le_mono)
qed (simp add: splice_inner_adapter_def logic_placeholder_def)

function parse_rule :: "ext \<Rightarrow> parser_context \<Rightarrow> string \<Rightarrow> nat \<Rightarrow> parsed"
  and parse_inner :: "ext \<Rightarrow> parser_context \<Rightarrow> string list \<Rightarrow> nat \<Rightarrow> (rule_error + rule list) \<times> nat" where
  "parse_rule X ctx line n =
     (case logic_line line of
        Some (ty, rest) \<Rightarrow>
          (case logic_head ty rest of
             Inl e \<Rightarrow> (Inl e, n)
           | Inr (adapter, groups) \<Rightarrow>
               (case parse_inner X ctx groups n of
                  (Inl e, n') \<Rightarrow> (Inl e, n')
                | (Inr rs, n') \<Rightarrow> (logic_finish ty adapter rs, n')))
      | None \<Rightarrow> parse_parts X ctx line n)"
| "parse_inner X ctx [] n = (Inr [], n)"
| "parse_inner X ctx (g # gs) n =
     (case parse_rule X ctx (splice_inner_adapter (trim g)) n of
        (Inl e, n') \<Rightarrow> (Inl e, n')
      | (Inr r, n') \<Rightarrow>
          (case parse_inner X ctx gs n' of
             (Inl e, n'') \<Rightarrow> (Inl e, n'')
           | (Inr rs, n'') \<Rightarrow> (Inr (r # rs), n'')))"
  by pat_completeness auto
termination
proof (relation "measure (case_sum (\<lambda>(X, ctx, line, n). 2 * parens line) (\<lambda>(X, ctx, gs, n). group_weight gs))", goal_cases)
  case (2 X ctx line n p ty rest q adapter gs)
  then show ?case
    using logic_head_parens [of ty rest adapter gs] logic_line_parens [of line ty rest] by auto
next
  case (3 X ctx g gs n)
  then show ?case
    using le_trans [OF splice_parens parens_trim, of g] by (simp add: group_weight_def)
qed (auto simp: group_weight_def)

declare parse_rule.simps [simp del]


subsection \<open>Parsed rules are well formed\<close>

lemma is_ascii_subset: "is_ascii s \<Longrightarrow> set t \<subseteq> set s \<Longrightarrow> is_ascii t"
  by (auto simp: is_ascii_def list_all_iff)

lemma set_trim_start: "set (trim_start s) \<subseteq> set s"
  unfolding trim_start_def by (rule set_dropWhileD [THEN subsetI])

lemma dropWhile_lower: "dropWhile is_ws (to_ascii_lowercase s) = to_ascii_lowercase (dropWhile is_ws s)"
  by (induction s) auto

lemma rev_lower: "rev (to_ascii_lowercase s) = to_ascii_lowercase (rev s)"
  by (simp add: to_ascii_lowercase_def rev_map)

lemma trim_lower: "trim (to_ascii_lowercase s) = to_ascii_lowercase (trim s)"
  by (simp add: trim_def trim_start_def trim_end_matches_def dropWhile_lower rev_lower)

lemma lower_char_separators [simp]:
  "lower_char c = CHR ''@'' \<longleftrightarrow> c = CHR ''@''" "lower_char c = CHR '','' \<longleftrightarrow> c = CHR '',''"
  "lower_char (CHR ''@'') = CHR ''@''" "lower_char (CHR '','') = CHR '',''"
  using lower_char_eq_nonletter [of "CHR ''@''"] lower_char_eq_nonletter [of "CHR '',''"]
  by (simp_all add: upper_char_def lower_letter_def)

lemma split_on_at_lower:
  "split_on (CHR ''@'') (to_ascii_lowercase s) = map to_ascii_lowercase (split_on (CHR ''@'') s)"
  by (induction s) (auto split: list.splits)

lemma category_base:
  assumes "trimmed payload" "trim (hd (split_on (CHR ''@'') payload)) \<noteq> []"
  shows "fst (split_category_attrs (to_ascii_lowercase (trim payload))) \<noteq> []"
  using assms by (cases "split_on (CHR ''@'') payload")
    (auto simp: split_category_attrs_def trimmed_def split_on_at_lower trim_lower)

lemma comma_lower: "CHR '','' \<in> set (to_ascii_lowercase s) \<longleftrightarrow> CHR '','' \<in> set s"
  by (induction s) (auto simp: eq_commute [of "CHR '',''"])

definition wf_result :: "ext \<Rightarrow> rule_error + rule \<Rightarrow> bool" where
  "wf_result X res = (case res of Inl _ \<Rightarrow> True | Inr r \<Rightarrow> wf_rule X r)"

lemma wf_result_simps [simp]: "wf_result X (Inl e)" "wf_result X (Inr r) = wf_rule X r"
  by (simp_all add: wf_result_def)

lemma wf_result_if: "wf_result X (fst (if b then x else y)) = (if b then wf_result X (fst x) else wf_result X (fst y))"
  by simp

lemma new_wf:
  "wf_result X (port_new payload adapter src)" "wf_result X (in_port_new payload adapter)"
  "wf_result X (domain_regex_new X payload adapter)" "wf_result X (ipcidr_new X payload adapter src nr)"
  "wf_result X (network_new payload adapter)" "wf_result X (dscp_new payload adapter)"
  "wf_result X (uid_new payload adapter)" "wf_result X (in_type_new payload adapter)"
  "wf_result X (process_path_new X payload adapter)" "wf_result X (in_name_new payload adapter)"
  "wf_result X (in_user_new payload adapter)" "wf_rule X (process_new payload adapter)"
  "wf_rule X (final_new adapter)" "wf_rule X (domain_keyword_new payload adapter)"
proof -
  show "wf_result X (port_new payload adapter src)" "wf_result X (in_port_new payload adapter)"
    by (cases "parse_port_list payload"; simp add: port_new_def in_port_new_def)+
qed (auto simp: domain_regex_new_def ipcidr_new_def network_new_def dscp_new_def uid_new_def process_new_def
    in_type_new_def process_path_new_def in_name_new_def in_user_new_def final_new_def domain_keyword_new_def
    Let_def not_less split: option.splits)

lemma ip_suffix_new_wf: "wf_result X (ip_suffix_new X payload adapter src nr)"
  by (cases "parse_net X payload"; cases "suffix_family (the (parse_net X payload))")
    (auto simp: ip_suffix_new_def)

lemma geo_new_wf:
  "wf_result X (fst (parse_geoip ctx payload adapter nr n))" "wf_result X (fst (parse_src_geoip ctx payload adapter n))"
  "wf_result X (fst (parse_ip_asn ctx payload adapter src nr n))"
  by (auto simp: parse_geoip_def parse_src_geoip_def parse_ip_asn_def geoip_new_def src_geoip_new_def ip_asn_new_def
      split: option.splits sum.splits prod.splits)

lemma payload_new_wf:
  assumes "is_ascii payload" "trimmed payload" "CHR '','' \<notin> set payload"
  shows "wf_rule X (domain_new payload adapter)" "wf_rule X (domain_suffix_new payload adapter)"
    "wf_result X (domain_wildcard_new X payload adapter)" "wf_result X (parse_geosite ctx payload adapter nr)"
  using assms category_base [of payload]
  by (simp_all add: domain_new_def domain_suffix_new_def domain_wildcard_new_def parse_geosite_def geosite_new_def
      trimmed_lower comma_lower trimmed_def [of payload] Let_def)

lemma parse_typed_wf:
  assumes "is_ascii payload" "trimmed payload" "CHR '','' \<notin> set payload"
  shows "wf_result X (fst (parse_typed X ctx ty payload adapter extra n))"
  unfolding parse_typed_def Let_def
  by (simp add: wf_result_if new_wf ip_suffix_new_wf geo_new_wf payload_new_wf [OF assms] del: if_split)


lemma splitn4_cases:
  obtains "CHR '','' \<notin> set e" "splitn 4 (CHR '','') e = [e]"
  | a b where "e = a @ CHR '','' # b" "CHR '','' \<notin> set a" "CHR '','' \<notin> set b" "splitn 4 (CHR '','') e = [a, b]"
  | a b c where "e = a @ CHR '','' # b @ CHR '','' # c" "CHR '','' \<notin> set a" "CHR '','' \<notin> set b"
      "CHR '','' \<notin> set c" "splitn 4 (CHR '','') e = [a, b, c]"
  | a b c d where "e = a @ CHR '','' # b @ CHR '','' # c @ CHR '','' # d" "CHR '','' \<notin> set a" "CHR '','' \<notin> set b"
      "CHR '','' \<notin> set c" "splitn 4 (CHR '','') e = [a, b, c, d]"
proof (cases rule: split_first [of "CHR '',''" e])
  case (2 a b)
  then show ?thesis
  proof (cases rule: splitn3_cases [of b])
  qed (use 2 in \<open>auto simp: eval_nat_numeral intro: that\<close>)
qed (auto simp: eval_nat_numeral intro: that)

lemma parse_parts_wf:
  assumes "is_ascii line"
  shows "wf_result X (fst (parse_parts X ctx line n))"
proof -
  have wf: "wf_result X (fst (parse_typed X ctx ty (trim b) adapter extra n))" if "CHR '','' \<notin> set b" "is_ascii b"
    for ty b adapter extra
    using that set_trim [of b] by (intro parse_typed_wf) (auto intro: is_ascii_subset)
  show ?thesis
    by (cases rule: splitn4_cases [of line])
      (use assms in \<open>auto simp: parse_parts_def wf_result_if new_wf wf\<close>)
qed

lemma split_logic_groups_set: "split_logic_groups inner = Inr gs \<Longrightarrow> g \<in> set gs \<Longrightarrow> set g \<subseteq> set inner"
proof (induction inner arbitrary: gs g rule: split_logic_groups.induct)
  case (1 inner)
  show ?case
  proof (cases "dropWhile (\<lambda>c. c = CHR '' '' \<or> c = CHR '','') inner")
    case Nil
    with 1(2,3) show ?thesis by (simp add: split_logic_groups.simps [of inner])
  next
    case (Cons c s)
    with 1(2) have c: "c = CHR ''(''" by (auto simp: split_logic_groups.simps [of inner] split: if_splits)
    with 1(2) Cons obtain h rest gs' where h: "split_close 0 s = Some (h, rest)" "gs = h # gs'"
        "split_logic_groups rest = Inr gs'"
      by (cases "split_close 0 s"; cases "split_logic_groups (snd (the (split_close 0 s)))")
        (auto simp: split_logic_groups.simps [of inner])
    have "set (c # s) \<subseteq> set inner" unfolding Cons [symmetric] using set_dropWhileD by fast
    then have sub: "set h \<subseteq> set inner" "set rest \<subseteq> set inner" using split_close_Some [OF h(1)] by auto
    show ?thesis
    proof (cases "g = h")
      case False
      with 1(3) h(2) have "g \<in> set gs'" by simp
      with sub(2) 1(1) [OF Cons _ h(1) refl h(3)] c show ?thesis by blast
    qed (simp add: sub)
  qed
qed

lemma logic_head_set:
  assumes "logic_head ty rest = Inr (adapter, gs)" "g \<in> set gs"
  shows "set g \<subseteq> set rest"
proof -
  from assms(1) obtain inner after where r: "trim_start rest = CHR ''('' # inner @ CHR '')'' # after"
      and g: "split_logic_groups inner = Inr gs"
    by (rule logic_head_cases)
  have "set g \<subseteq> set (trim_start rest)" using split_logic_groups_set [OF g assms(2)] r by auto
  with set_trim_start show ?thesis by blast
qed

lemma logic_line_set: "logic_line line = Some (ty, rest) \<Longrightarrow> set rest \<subseteq> set line"
  using set_trim_start by (fastforce simp: logic_line_Some split_once_Some)

lemma splice_is_ascii: "is_ascii e \<Longrightarrow> is_ascii (splice_inner_adapter e)"
proof -
  assume e: "is_ascii e"
  have trim: "is_ascii (trim s)" if "is_ascii s" for s using that set_trim by (rule is_ascii_subset)
  show ?thesis
    by (cases rule: splitn3_cases [of e]) (use e in \<open>auto simp: splice_inner_adapter_def logic_placeholder_def trim\<close>)
qed

lemma logic_finish_wf: "list_all (wf_rule X) rs \<Longrightarrow> wf_result X (logic_finish ty adapter rs)"
  by (auto simp: logic_finish_def and_new_def or_new_def not_new_def split: list.splits)

lemma parse_wf:
  "is_ascii line \<Longrightarrow> wf_result X (fst (parse_rule X ctx line n))"
  "list_all is_ascii gs \<Longrightarrow> parse_inner X ctx gs n = (Inr rs, n') \<Longrightarrow> list_all (wf_rule X) rs"
proof (induction X ctx line n and X ctx gs n arbitrary: and rs n' rule: parse_rule_parse_inner.induct)
  case (1 X ctx line n)
  show ?case
  proof (cases "logic_line line")
    case None
    with 1(2) show ?thesis by (simp add: parse_rule.simps parse_parts_wf)
  next
    case (Some p)
    then obtain ty rest where l: "logic_line line = Some (ty, rest)" by (cases p) auto
    show ?thesis
    proof (cases "logic_head ty rest")
      case (Inr q)
      then obtain adapter gs where h: "logic_head ty rest = Inr (adapter, gs)" by (cases q) auto
      have "list_all is_ascii gs" using logic_head_set [OF h] logic_line_set [OF l] 1(2)
        by (force simp: list_all_iff intro: is_ascii_subset)
      then show ?thesis using 1(1) [OF l refl h refl] l h
        by (cases "parse_inner X ctx gs n"; cases "fst (parse_inner X ctx gs n)")
          (auto simp: parse_rule.simps [of X ctx line] logic_finish_wf)
    qed (simp add: parse_rule.simps l)
  qed
next
  case (3 X ctx g gs n)
  have "is_ascii (splice_inner_adapter (trim g))"
    using 3(3) by (auto intro: splice_is_ascii is_ascii_subset [OF _ set_trim])
  with 3 show ?case by (auto split: prod.splits sum.splits)
qed simp

subsection \<open>Shared handles\<close>

text \<open>
  The range handles a parsed rule can have: those of the context, or empty ranges at an address
  handed out while parsing. With a context whose addresses are below the first free one, two parsed
  rules that share an address share the value.
\<close>

definition ctx_ranges :: "parser_context \<Rightarrow> ip_ranges list" where
  "ctx_ranges ctx =
     (case ctx_geoip ctx of Some i \<Rightarrow> map snd (by_country i) | None \<Rightarrow> []) @
     (case ctx_asn ctx of Some i \<Rightarrow> map snd (by_asn i) | None \<Rightarrow> [])"

definition ctx_ok :: "parser_context \<Rightarrow> nat \<Rightarrow> bool" where
  "ctx_ok ctx n \<longleftrightarrow>
     list_all (\<lambda>a. arc_ptr (ranges_v4 a) < n \<and> arc_ptr (ranges_v6 a) < n \<and>
       list_all (\<lambda>b. same_value (ranges_v4 a) (ranges_v4 b) \<and> same_value (ranges_v6 a) (ranges_v6 b)) (ctx_ranges ctx))
       (ctx_ranges ctx)"

definition fresh_arc :: "nat \<Rightarrow> nat \<Rightarrow> iprange arc \<Rightarrow> bool" where
  "fresh_arc lo hi a \<longleftrightarrow> lo \<le> arc_ptr a \<and> arc_ptr a < hi \<and> arc_val a = RangeNew"

definition ranges_from :: "parser_context \<Rightarrow> nat \<Rightarrow> nat \<Rightarrow> ip_ranges \<Rightarrow> bool" where
  "ranges_from ctx lo hi rs \<longleftrightarrow>
     rs \<in> set (ctx_ranges ctx) \<or> (fresh_arc lo hi (ranges_v4 rs) \<and> fresh_arc lo hi (ranges_v6 rs))"

definition handles_from :: "parser_context \<Rightarrow> nat \<Rightarrow> nat \<Rightarrow> rule \<Rightarrow> bool" where
  "handles_from ctx lo hi r \<longleftrightarrow>
     set_handle r = None \<and> (db_handle r = None \<or> db_handle r = ctx_geosite ctx) \<and>
     (case range_handles r of None \<Rightarrow> True | Some rs \<Rightarrow> ranges_from ctx lo hi rs)"

definition handles_result :: "parser_context \<Rightarrow> nat \<Rightarrow> parsed \<Rightarrow> bool" where
  "handles_result ctx n p \<longleftrightarrow> n \<le> snd p \<and> (case fst p of Inl _ \<Rightarrow> True | Inr r \<Rightarrow> handles_from ctx n (snd p) r)"

lemma handles_result_simps [simp]:
  "handles_result ctx n (Inl e, n') \<longleftrightarrow> n \<le> n'"
  "handles_result ctx n (Inr r, n') \<longleftrightarrow> n \<le> n' \<and> handles_from ctx n n' r"
  by (simp_all add: handles_result_def)

lemma handles_result_if:
  "handles_result ctx n (if b then x else y) = (if b then handles_result ctx n x else handles_result ctx n y)"
  by simp

lemma fresh_arc_same: "fresh_arc lo hi a \<Longrightarrow> fresh_arc lo hi b \<Longrightarrow> same_value a b"
  by (cases a; cases b) (simp add: fresh_arc_def same_value_def)

lemma ranges_from_same:
  assumes "ctx_ok ctx lo" "ranges_from ctx lo hi a" "ranges_from ctx lo hi b"
  shows "same_value (ranges_v4 a) (ranges_v4 b) \<and> same_value (ranges_v6 a) (ranges_v6 b)"
proof -
  have old: "same_value (ranges_v4 c) (ranges_v4 d) \<and> same_value (ranges_v6 c) (ranges_v6 d)"
    if "c \<in> set (ctx_ranges ctx)" "d \<in> set (ctx_ranges ctx)" for c d
    using that assms(1) by (simp add: ctx_ok_def list_all_iff)
  have new: "same_value (ranges_v4 c) x \<and> same_value x (ranges_v4 c) \<and> same_value (ranges_v6 c) x \<and> same_value x (ranges_v6 c)"
    if "c \<in> set (ctx_ranges ctx)" "fresh_arc lo hi x" for c x
  proof -
    have "arc_ptr (ranges_v4 c) < lo" "arc_ptr (ranges_v6 c) < lo" "lo \<le> arc_ptr x"
      using that assms(1) by (simp_all add: ctx_ok_def list_all_iff fresh_arc_def)
    then show ?thesis by (simp add: same_value_def)
  qed
  from assms(2,3) consider (old) "a \<in> set (ctx_ranges ctx)" "b \<in> set (ctx_ranges ctx)"
    | (left) "a \<in> set (ctx_ranges ctx)" "fresh_arc lo hi (ranges_v4 b)" "fresh_arc lo hi (ranges_v6 b)"
    | (right) "b \<in> set (ctx_ranges ctx)" "fresh_arc lo hi (ranges_v4 a)" "fresh_arc lo hi (ranges_v6 a)"
    | (new) "fresh_arc lo hi (ranges_v4 a)" "fresh_arc lo hi (ranges_v6 a)"
        "fresh_arc lo hi (ranges_v4 b)" "fresh_arc lo hi (ranges_v6 b)"
    by (auto simp: ranges_from_def)
  then show ?thesis by cases (simp_all add: old new fresh_arc_same)
qed

lemma handles_from_same:
  assumes "ctx_ok ctx lo" "handles_from ctx lo hi r1" "handles_from ctx lo hi r2"
  shows "same_arcs r1 r2"
  using assms ranges_from_same [OF assms(1)]
  by (auto simp: handles_from_def same_arcs_def same_value_def split: option.splits)

lemma handles_from_mono: "handles_from ctx lo hi r \<Longrightarrow> lo' \<le> lo \<Longrightarrow> hi \<le> hi' \<Longrightarrow> handles_from ctx lo' hi' r"
  by (auto simp: handles_from_def ranges_from_def fresh_arc_def split: option.splits)

lemma map_of_snd: "map_of xs k = Some v \<Longrightarrow> v \<in> snd ` set xs"
  by (force dest: map_of_SomeD)

lemma country_ranges_from:
  "ctx_geoip ctx = Some i \<Longrightarrow> country_ranges_for i c n = (rs, n') \<Longrightarrow> n \<le> n' \<and> ranges_from ctx n n' rs"
  by (auto simp: country_ranges_for_def fresh_ranges_def ranges_from_def fresh_arc_def ctx_ranges_def
      split: option.splits dest: map_of_snd)

lemma asn_ranges_from:
  "ctx_asn ctx = Some i \<Longrightarrow> asn_ranges_for i c n = (rs, n') \<Longrightarrow> n \<le> n' \<and> ranges_from ctx n n' rs"
  by (auto simp: asn_ranges_for_def fresh_ranges_def ranges_from_def fresh_arc_def ctx_ranges_def
      split: option.splits dest: map_of_snd)

definition plain_handles :: "rule_error + rule \<Rightarrow> bool" where
  "plain_handles res =
     (case res of Inl _ \<Rightarrow> True | Inr r \<Rightarrow> set_handle r = None \<and> db_handle r = None \<and> range_handles r = None)"

lemma handles_result_plain: "plain_handles res \<Longrightarrow> handles_result ctx n (res, n)"
  by (cases res) (auto simp: plain_handles_def handles_from_def)

lemma new_plain:
  "plain_handles (port_new payload adapter src)" "plain_handles (in_port_new payload adapter)"
  "plain_handles (domain_regex_new X payload adapter)" "plain_handles (ipcidr_new X payload adapter src nr)"
  "plain_handles (network_new payload adapter)" "plain_handles (dscp_new payload adapter)"
  "plain_handles (uid_new payload adapter)" "plain_handles (in_type_new payload adapter)"
  "plain_handles (process_path_new X payload adapter)" "plain_handles (in_name_new payload adapter)"
  "plain_handles (in_user_new payload adapter)" "plain_handles (domain_wildcard_new X payload adapter)"
  "plain_handles (Inr (process_new payload adapter))" "plain_handles (Inr (final_new adapter))"
  "plain_handles (Inr (domain_keyword_new payload adapter))" "plain_handles (Inr (domain_new payload adapter))"
  "plain_handles (Inr (domain_suffix_new payload adapter))"
  "plain_handles (ip_suffix_new X payload adapter src nr)" "plain_handles (logic_finish ty adapter rs)"
  "plain_handles (Inl e)"
proof -
  show "plain_handles (port_new payload adapter src)" "plain_handles (in_port_new payload adapter)"
    by (cases "parse_port_list payload"; simp add: port_new_def in_port_new_def plain_handles_def)+
  show "plain_handles (ip_suffix_new X payload adapter src nr)"
    by (cases "parse_net X payload"; cases "suffix_family (the (parse_net X payload))")
      (auto simp: ip_suffix_new_def plain_handles_def)
qed (auto simp: domain_regex_new_def ipcidr_new_def network_new_def dscp_new_def uid_new_def process_new_def
    in_type_new_def process_path_new_def in_name_new_def in_user_new_def final_new_def domain_keyword_new_def
    domain_new_def domain_suffix_new_def domain_wildcard_new_def logic_finish_def and_new_def or_new_def not_new_def
    plain_handles_def Let_def split: option.splits list.splits)

lemma geo_handles:
  "handles_result ctx n (parse_geoip ctx payload adapter nr n)" "handles_result ctx n (parse_src_geoip ctx payload adapter n)"
  "handles_result ctx n (parse_ip_asn ctx payload adapter src nr n)"
  "handles_result ctx n (parse_geosite ctx payload adapter nr, n)"
  by (auto simp: parse_geoip_def parse_src_geoip_def parse_ip_asn_def parse_geosite_def geoip_new_def src_geoip_new_def
      ip_asn_new_def geosite_new_def handles_from_def dest: country_ranges_from asn_ranges_from
      split: option.splits sum.splits prod.splits)

lemma parse_typed_handles: "handles_result ctx n (parse_typed X ctx ty payload adapter extra n)"
  unfolding parse_typed_def Let_def
  by (simp add: handles_result_if handles_result_plain new_plain geo_handles del: if_split handles_result_simps)

lemma parse_parts_handles: "handles_result ctx n (parse_parts X ctx line n)"
  using parse_typed_handles handles_result_plain [OF new_plain(14)]
  by (auto simp: parse_parts_def split: list.splits)

lemma parse_handles:
  "handles_result ctx n (parse_rule X ctx line n)"
  "n \<le> snd (parse_inner X ctx gs n)"
proof (induction X ctx line n and X ctx gs n rule: parse_rule_parse_inner.induct)
  case (1 X ctx line n)
  have logic: "handles_result ctx n (logic_finish ty adapter rs, n')" if "n \<le> n'" for ty adapter rs n'
    using that new_plain(19) [of ty adapter rs]
    by (auto simp: plain_handles_def handles_result_def handles_from_def split: sum.splits)
  show ?case
  proof (cases "logic_line line")
    case (Some p)
    then show ?thesis using 1 logic
      by (cases p) (fastforce simp: parse_rule.simps [of X ctx line] split: sum.splits prod.splits)
  qed (simp add: parse_rule.simps parse_parts_handles)
next
  case (3 X ctx g gs n)
  then show ?case
    by (cases "parse_rule X ctx (splice_inner_adapter (trim g)) n")
      (fastforce simp: handles_result_def split: prod.splits sum.splits)
qed simp

subsection \<open>Printing and parsing\<close>

text \<open>
  The grammar of rule lines as a tree: a leaf has a type, a payload and possibly an option, a node the
  name of a logic rule and its parts. \<open>rule_text\<close> prints a tree with its target, \<open>denote\<close> is the rule it
  stands for. \<open>src_ok\<close> asks that the words are trimmed and without commas and that payloads balance
  their parentheses.
\<close>

datatype rule_src = SrcLeaf string string "string option" | SrcNode string "rule_src list"

definition opt_text :: "string option \<Rightarrow> string" where
  "opt_text extra = (case extra of None \<Rightarrow> [] | Some e \<Rightarrow> CHR '','' # e)"

fun inner_text :: "rule_src \<Rightarrow> string" where
  "inner_text (SrcLeaf ty payload extra) = ty @ CHR '','' # payload @ opt_text extra"
| "inner_text (SrcNode ty cs) =
     ty @ CHR '','' # CHR ''('' # join '','' (map (\<lambda>c. CHR ''('' # inner_text c @ '')'') cs) @ '')''"

fun rule_text :: "rule_src \<Rightarrow> string \<Rightarrow> string" where
  "rule_text (SrcLeaf ty payload extra) adapter =
     ty @ CHR '','' # payload @ CHR '','' # adapter @ opt_text extra"
| "rule_text (SrcNode ty cs) adapter = inner_text (SrcNode ty cs) @ CHR '','' # adapter"

fun denote :: "ext \<Rightarrow> parser_context \<Rightarrow> rule_src \<Rightarrow> string \<Rightarrow> nat \<Rightarrow> parsed"
  and denote_all :: "ext \<Rightarrow> parser_context \<Rightarrow> rule_src list \<Rightarrow> nat \<Rightarrow> (rule_error + rule list) \<times> nat" where
  "denote X ctx (SrcLeaf ty payload extra) adapter n = parse_typed X ctx ty payload adapter extra n"
| "denote X ctx (SrcNode ty cs) adapter n =
     (case denote_all X ctx cs n of
        (Inl e, n') \<Rightarrow> (Inl e, n')
      | (Inr rs, n') \<Rightarrow> (logic_finish (to_ascii_uppercase ty) adapter rs, n'))"
| "denote_all X ctx [] n = (Inr [], n)"
| "denote_all X ctx (c # cs) n =
     (case denote X ctx c logic_placeholder n of
        (Inl e, n') \<Rightarrow> (Inl e, n')
      | (Inr r, n') \<Rightarrow>
          (case denote_all X ctx cs n' of
             (Inl e, n'') \<Rightarrow> (Inl e, n'')
           | (Inr rs, n'') \<Rightarrow> (Inr (r # rs), n'')))"

fun balanced :: "nat \<Rightarrow> string \<Rightarrow> bool" where
  "balanced d [] \<longleftrightarrow> d = 0"
| "balanced d (c # s) \<longleftrightarrow>
     (if c = CHR ''('' then balanced (d + 1) s
      else if c = CHR '')'' then d > 0 \<and> balanced (d - 1) s
      else balanced d s)"

definition plain_word :: "string \<Rightarrow> bool" where
  "plain_word w \<longleftrightarrow> w \<noteq> [] \<and> trimmed w \<and> CHR '','' \<notin> set w"

fun src_ok :: "rule_src \<Rightarrow> bool" where
  "src_ok (SrcLeaf ty payload extra) \<longleftrightarrow>
     plain_word ty \<and> balanced 0 ty \<and> \<not> is_logic_type (to_ascii_uppercase ty) \<and> ty \<noteq> ''MATCH'' \<and>
     trimmed payload \<and> CHR '','' \<notin> set payload \<and> balanced 0 payload \<and>
     (case extra of None \<Rightarrow> True | Some e \<Rightarrow> trimmed e \<and> balanced 0 e)"
| "src_ok (SrcNode ty cs) \<longleftrightarrow>
     plain_word ty \<and> balanced 0 ty \<and> is_logic_type (to_ascii_uppercase ty) \<and> cs \<noteq> [] \<and> list_all src_ok cs"

lemma balanced_append: "balanced e a \<Longrightarrow> balanced (e + d) (a @ b) = balanced d b"
  by (induction e a rule: balanced.induct) (auto split: if_splits simp: Suc_diff_le)

lemmas balanced_append0 [simp] = balanced_append [of 0, simplified]

lemma split_close_balanced: "balanced d a \<Longrightarrow> split_close d (a @ CHR '')'' # b) = Some (a, b)"
  by (induction d a rule: balanced.induct) (auto split: if_splits)

lemma split_logic_groups_simps:
  "split_logic_groups [] = Inr []"
  "split_logic_groups (CHR '','' # s) = split_logic_groups s"
  "balanced 0 g \<Longrightarrow>
     split_logic_groups (CHR ''('' # g @ CHR '')'' # s) = map_sum id ((#) g) (split_logic_groups s)"
  by (simp add: split_logic_groups.simps)
    (simp add: split_logic_groups.simps [of "_ # s"] split_logic_groups.simps [of s],
     simp add: split_logic_groups.simps [of "_ # _"] split_close_balanced)

lemma split_logic_groups_join:
  "list_all (balanced 0) gs \<Longrightarrow> split_logic_groups (join '','' (map (\<lambda>g. CHR ''('' # g @ '')'') gs)) = Inr gs"
proof (induction gs)
  case (Cons g gs)
  then show ?case by (cases gs) (simp_all add: split_logic_groups_simps)
qed (simp add: split_logic_groups_simps)

lemma balanced_groups:
  "list_all (balanced 0) gs \<Longrightarrow> balanced 0 (join '','' (map (\<lambda>g. CHR ''('' # g @ '')'') gs))"
proof (induction gs)
  case (Cons g gs)
  then have "balanced (Suc 0) (g @ '')'')" using balanced_append [of 0 g "Suc 0" "'')''"] by simp
  with Cons balanced_append [of 0 g 1] show ?case by (cases gs) simp_all
qed simp

lemma balanced_inner_text: "src_ok c \<Longrightarrow> balanced 0 (inner_text c)"
proof (induction c)
  case (SrcNode ty cs)
  then have "list_all (balanced 0) (map inner_text cs)" by (simp add: list_all_iff)
  from balanced_groups [OF this] balanced_append [of 0 _ 1 "'')''"] SrcNode.prems show ?case
    by (simp add: comp_def)
qed (auto simp: opt_text_def split: option.splits)

lemma comma_not_ws [simp]: "\<not> is_ws (CHR '','')" "\<not> is_ws (CHR ''('')" "\<not> is_ws (CHR '')'')"
  by (simp_all add: is_ws_def)

lemma trim_fixed [simp]: "trimmed s \<Longrightarrow> trim s = s"
  by (simp add: trimmed_def)

lemma trimmed_sep:
  "trimmed a \<Longrightarrow> trimmed b \<Longrightarrow> trimmed (a @ CHR '','' # b)"
  by (auto simp: trimmed_iff hd_append)

lemma trim_inner_text: "src_ok c \<Longrightarrow> trim (inner_text c) = inner_text c"
proof (cases c)
  case (SrcLeaf ty payload extra)
  assume ok: "src_ok c"
  have "trimmed (ty @ CHR '','' # payload @ opt_text extra)"
    using ok SrcLeaf by (cases extra) (auto simp: opt_text_def plain_word_def intro!: trimmed_sep)
  with SrcLeaf show ?thesis by simp
next
  case (SrcNode ty cs)
  assume ok: "src_ok c"
  have "trimmed (CHR ''('' # join '','' (map (\<lambda>c. CHR ''('' # inner_text c @ '')'') cs) @ '')'')"
    by (simp add: trimmed_iff)
  with ok SrcNode show ?thesis by (auto simp: plain_word_def intro!: trim_fixed trimmed_sep)
qed

lemma splice_inner_text: "src_ok c \<Longrightarrow> splice_inner_adapter (inner_text c) = rule_text c logic_placeholder"
proof (cases c)
  case (SrcLeaf ty payload extra)
  assume "src_ok c"
  with SrcLeaf show ?thesis
    by (cases extra) (auto simp: splice_inner_adapter_def opt_text_def plain_word_def numeral_3_eq_3)
next
  case (SrcNode ty cs)
  assume "src_ok c"
  with SrcNode show ?thesis by (simp add: splice_inner_adapter_def plain_word_def)
qed

lemma parse_inner_text:
  assumes "list_all src_ok cs"
    "\<And>c n. c \<in> set cs \<Longrightarrow> parse_rule X ctx (rule_text c logic_placeholder) n = denote X ctx c logic_placeholder n"
  shows "parse_inner X ctx (map inner_text cs) n = denote_all X ctx cs n"
  using assms by (induction cs arbitrary: n) (simp_all add: trim_inner_text splice_inner_text split: prod.split sum.split)

lemma trim_start_fixed: "s = [] \<or> \<not> is_ws (hd s) \<Longrightarrow> trim_start s = s"
  by (cases s) (simp_all add: trim_start_def)

lemma logic_head_text:
  assumes "list_all (balanced 0) gs" "gs \<noteq> []" "plain_word adapter"
  shows "logic_head ty (CHR ''('' # join '','' (map (\<lambda>g. CHR ''('' # g @ '')'') gs) @ CHR '')'' # CHR '','' # adapter) =
    Inr (adapter, gs)"
  using assms split_close_balanced [OF balanced_groups [OF assms(1)], of "CHR '','' # adapter"]
  by (simp add: logic_head_def trim_start_fixed strip_prefix_def plain_word_def split_logic_groups_join)

lemma parse_print:
  "src_ok src \<Longrightarrow> plain_word adapter \<Longrightarrow> parse_rule X ctx (rule_text src adapter) n = denote X ctx src adapter n"
proof (induction src arbitrary: adapter n)
  case (SrcLeaf ty payload extra)
  then have "logic_line (rule_text (SrcLeaf ty payload extra) adapter) = None"
    by (simp add: logic_line_def split_once_trimmed_def plain_word_def)
  moreover from SrcLeaf have "parse_parts X ctx (rule_text (SrcLeaf ty payload extra) adapter) n =
      parse_typed X ctx ty payload adapter extra n"
    by (cases extra) (simp_all add: parse_parts_def opt_text_def plain_word_def eval_nat_numeral)
  ultimately show ?case by (simp add: parse_rule.simps)
next
  case (SrcNode ty cs)
  let ?gs = "map inner_text cs"
  have gs: "list_all (balanced 0) ?gs" using SrcNode.prems by (auto simp: list_all_iff balanced_inner_text)
  have line: "logic_line (rule_text (SrcNode ty cs) adapter) = Some (to_ascii_uppercase ty,
      CHR ''('' # join '','' (map (\<lambda>g. CHR ''('' # g @ '')'') ?gs) @ CHR '')'' # CHR '','' # adapter)"
    using SrcNode.prems
    by (simp add: logic_line_def split_once_trimmed_def plain_word_def trim_start_fixed comp_def)
  have head: "logic_head (to_ascii_uppercase ty)
      (CHR ''('' # join '','' (map (\<lambda>g. CHR ''('' # g @ '')'') ?gs) @ CHR '')'' # CHR '','' # adapter) = Inr (adapter, ?gs)"
    using SrcNode.prems by (intro logic_head_text gs) auto
  have placeholder: "plain_word logic_placeholder"
    by (simp add: plain_word_def trimmed_iff logic_placeholder_def is_ws_def)
  have "parse_inner X ctx ?gs n = denote_all X ctx cs n"
    using SrcNode placeholder by (intro parse_inner_text) (auto simp: list_all_iff)
  with line head show ?case by (simp add: parse_rule.simps del: rule_text.simps)
qed

text \<open>
  C9: printing then parsing. Parsing the line printed for a tree, with logic rules nested to any depth,
  gives the rule the tree stands for, or the error its first bad part gives.
\<close>

theorem parse_rule_text:
  assumes "src_ok src" "plain_word adapter"
  shows "parse_rule X ctx (rule_text src adapter) n = denote X ctx src adapter n"
  using assms by (rule parse_print)

theorem parse_rule_text_witness:
  "fst (parse_rule ref_ext parser_context_empty ''AND,((DOMAIN,A.com),(NOT,((DOMAIN-KEYWORD,x)))),P'' 0) =
     Inr (AndRule [DomainRule ''a.com'' logic_placeholder,
                   NotRule (DomainKeywordRule ''x'' logic_placeholder) logic_placeholder ''NOT x'']
            ''P'' ''a.com AND NOT x'')"
proof -
  let ?src = "SrcNode ''AND'' [SrcLeaf ''DOMAIN'' ''A.com'' None, SrcNode ''NOT'' [SrcLeaf ''DOMAIN-KEYWORD'' ''x'' None]]"
  have line: "rule_text ?src ''P'' = ''AND,((DOMAIN,A.com),(NOT,((DOMAIN-KEYWORD,x)))),P''" by code_simp
  have ok: "src_ok ?src" "plain_word ''P''" by code_simp+
  have "to_ascii_uppercase ''AND'' = ''AND''" "to_ascii_uppercase ''NOT'' = ''NOT''" "to_ascii_lowercase ''A.com'' = ''a.com''"
    "to_ascii_lowercase ''x'' = ''x''" by code_simp+
  then have "fst (denote ref_ext parser_context_empty ?src ''P'' 0) =
     Inr (AndRule [DomainRule ''a.com'' logic_placeholder,
                   NotRule (DomainKeywordRule ''x'' logic_placeholder) logic_placeholder ''NOT x'']
            ''P'' ''a.com AND NOT x'')"
    by (simp add: parse_typed_def domain_new_def domain_keyword_new_def logic_finish_def and_new_def not_new_def)
  with parse_rule_text [OF ok, of ref_ext parser_context_empty 0] show ?thesis unfolding line by simp
qed



subsection \<open>Errors\<close>

definition known_types :: "string list" where
  "known_types =
     [''DOMAIN'', ''DOMAIN-SUFFIX'', ''DOMAIN-KEYWORD'', ''DOMAIN-REGEX'', ''DOMAIN-WILDCARD'', ''IP-CIDR'', ''IP-CIDR6'',
      ''SRC-IP-CIDR'', ''SRC-PORT'', ''DST-PORT'', ''NETWORK'', ''PROCESS-NAME'', ''PROCESS-PATH'', ''GEOIP'', ''SRC-GEOIP'',
      ''GEOSITE'', ''IN-PORT'', ''IN-NAME'', ''IN-TYPE'', ''IN-USER'', ''DSCP'', ''UID'', ''IP-SUFFIX'', ''SRC-IP-SUFFIX'',
      ''IP-ASN'', ''SRC-IP-ASN'']"

definition unknown_type :: "rule_error + rule \<Rightarrow> bool" where
  "unknown_type res = (case res of Inl (UnknownRuleType _) \<Rightarrow> True | _ \<Rightarrow> False)"

lemma unknown_type_simps [simp]: "\<not> unknown_type (Inr r)"
  by (simp add: unknown_type_def)

lemma unknown_type_if: "unknown_type (fst (if b then x else y)) = (if b then unknown_type (fst x) else unknown_type (fst y))"
  by simp

lemma parse_port_parts_error: "parse_port_parts ps = Inl e \<Longrightarrow> e \<noteq> UnknownRuleType t"
proof (induction ps)
  case (Cons p ps)
  then show ?case
    by (cases "parse_port_parts ps") (auto simp: Let_def split: if_splits option.splits)
qed simp

lemma parse_port_list_error: "parse_port_list ports = Inl e \<Longrightarrow> e \<noteq> UnknownRuleType t"
  by (auto simp: parse_port_list_def split: sum.splits if_splits dest: parse_port_parts_error)

lemma new_not_unknown:
  "\<not> unknown_type (port_new payload adapter src)" "\<not> unknown_type (in_port_new payload adapter)"
  "\<not> unknown_type (domain_regex_new X payload adapter)" "\<not> unknown_type (ipcidr_new X payload adapter src nr)"
  "\<not> unknown_type (network_new payload adapter)" "\<not> unknown_type (dscp_new payload adapter)"
  "\<not> unknown_type (uid_new payload adapter)" "\<not> unknown_type (in_type_new payload adapter)"
  "\<not> unknown_type (process_path_new X payload adapter)" "\<not> unknown_type (in_name_new payload adapter)"
  "\<not> unknown_type (in_user_new payload adapter)" "\<not> unknown_type (domain_wildcard_new X payload adapter)"
  "\<not> unknown_type (ip_suffix_new X payload adapter src nr)" "\<not> unknown_type (parse_geosite ctx payload adapter nr)"
  "\<not> unknown_type (fst (parse_geoip ctx payload adapter nr n))"
  "\<not> unknown_type (fst (parse_src_geoip ctx payload adapter n))"
  "\<not> unknown_type (fst (parse_ip_asn ctx payload adapter src nr n))"
proof -
  show "\<not> unknown_type (port_new payload adapter src)" "\<not> unknown_type (in_port_new payload adapter)"
    by (cases "parse_port_list payload"; auto simp: port_new_def in_port_new_def unknown_type_def
        split: rule_error.splits dest: parse_port_list_error)+
  show "\<not> unknown_type (ip_suffix_new X payload adapter src nr)"
    by (auto simp: ip_suffix_new_def suffix_family_def unknown_type_def split: option.splits ipnet.splits)
qed (auto simp: domain_regex_new_def ipcidr_new_def network_new_def dscp_new_def uid_new_def in_type_new_def
    process_path_new_def in_name_new_def in_user_new_def domain_wildcard_new_def parse_geosite_def parse_geoip_def
    parse_src_geoip_def parse_ip_asn_def parse_asn_payload_def unknown_type_def Let_def split: option.splits prod.splits)





end
