(* ===== verification/GeoIndex.thy ===== *)
theory GeoIndex
  imports RuleParser "HOL-Library.AList"
begin

text \<open>
  Building the country and ASN indexes, \<open>meow-rules/src/country_index.rs\<close> and \<open>asn_index.rs\<close>. The
  database reader is a third-party crate: its walk over the networks is an argument, a list of
  lookups with their data offset, the decoded field and the network, or an error. The two builds share
  their loop; they differ in the keys and how a decoded value becomes a key. The result is compared
  with the networks of the database: a rule with a country code matches exactly the addresses of the
  networks recorded under it, provided equal offsets mean equal records.
\<close>

record 'v mmdb_lookup =
  lk_offset :: "nat option"
  lk_value :: "'v option"
  lk_network :: "(ipaddr \<times> nat) option"

type_synonym 'v mmdb_networks = "'v mmdb_lookup option list option"

datatype geo_error = AllowlistTooLong nat | CannotIterate

subsection \<open>Keys\<close>

definition country_key :: "string \<Rightarrow> string" where
  "country_key s =
     map to_upper_char (take 8 s) @ replicate (8 - length (take 8 s)) (CHR 0x00)"

definition country_key_as_str :: "string \<Rightarrow> string" where
  "country_key_as_str k = takeWhile (\<lambda>c. c \<noteq> CHR 0x00) k"

fun position :: "('a \<Rightarrow> bool) \<Rightarrow> 'a list \<Rightarrow> nat option" where
  "position P [] = None"
| "position P (x # xs) = (if P x then Some 0 else map_option Suc (position P xs))"

text \<open>The bucket of a decoded value, as the code's 16-bit index.\<close>

definition geo_resolve :: "('v \<Rightarrow> 'k) \<Rightarrow> 'k list \<Rightarrow> 'v option \<Rightarrow> 16 word option" where
  "geo_resolve key_of keys decoded =
     (case decoded of
        Some v \<Rightarrow> map_option of_nat (position (\<lambda>k. k = key_of v) keys)
      | None \<Rightarrow> None)"

subsection \<open>The walk\<close>

type_synonym geo_state = "(iprange \<times> iprange) list \<times> (nat \<times> 16 word option) list"

definition bucket_add :: "ext \<Rightarrow> ipaddr \<Rightarrow> nat \<Rightarrow> iprange \<times> iprange \<Rightarrow> iprange \<times> iprange" where
  "bucket_add X ip plen b =
     (case net_new X ip plen of
        None \<Rightarrow> b
      | Some net \<Rightarrow>
          (case ip of
             V4 _ \<Rightarrow> (RangeAdd net (fst b), snd b)
           | V6 _ \<Rightarrow> (fst b, RangeAdd net (snd b))))"

definition cached_resolve ::
  "('v option \<Rightarrow> 16 word option) \<Rightarrow> (nat \<times> 16 word option) list \<Rightarrow> nat \<Rightarrow> 'v option \<Rightarrow>
   16 word option \<times> (nat \<times> 16 word option) list" where
  "cached_resolve resolve cache offset decoded =
     (case map_of cache offset of
        Some cached \<Rightarrow> (cached, cache)
      | None \<Rightarrow> (resolve decoded, (offset, resolve decoded) # cache))"

definition geo_step ::
  "ext \<Rightarrow> ('v option \<Rightarrow> 16 word option) \<Rightarrow> 'v mmdb_lookup option \<Rightarrow> geo_state \<Rightarrow> geo_state" where
  "geo_step X resolve item st =
     (case item of
        None \<Rightarrow> st
      | Some lookup \<Rightarrow>
          (case lk_offset lookup of
             None \<Rightarrow> st
           | Some offset \<Rightarrow>
               (let (buckets, cache) = st;
                    (bucket_idx, cache') = cached_resolve resolve cache offset (lk_value lookup)
                in case bucket_idx of
                     None \<Rightarrow> (buckets, cache')
                   | Some idx \<Rightarrow>
                       (case lk_network lookup of
                          None \<Rightarrow> (buckets, cache')
                        | Some (ip, plen) \<Rightarrow>
                            (buckets[unat idx := bucket_add X ip plen (buckets ! unat idx)], cache')))))"

text \<open>Turning the buckets into shared ranges, skipping the empty ones.\<close>

fun geo_collect ::
  "ext \<Rightarrow> 'k list \<Rightarrow> (iprange \<times> iprange) list \<Rightarrow> ('k \<times> ip_ranges) list \<Rightarrow> nat \<Rightarrow> ('k \<times> ip_ranges) list \<times> nat" where
  "geo_collect X (k # ks) ((v4, v6) # bs) m n =
     (if range_is_empty X v4 \<and> range_is_empty X v6 then geo_collect X ks bs m n
      else geo_collect X ks bs
        (AList.update k (IpRanges (Arc n (RangeSimplify v4)) (Arc (n + 1) (RangeSimplify v6))) m) (n + 2))"
| "geo_collect X _ _ m n = (m, n)"

definition geo_build ::
  "ext \<Rightarrow> ('v \<Rightarrow> 'k) \<Rightarrow> 'k list \<Rightarrow> 'v mmdb_networks \<Rightarrow> (geo_error + (iprange \<times> iprange) list)" where
  "geo_build X key_of keys networks =
     (if length keys > 65535 then Inl (AllowlistTooLong (length keys))
      else case networks of
        None \<Rightarrow> Inl CannotIterate
      | Some items \<Rightarrow>
          Inr (fst (fold (geo_step X (geo_resolve key_of keys)) items
                 (replicate (length keys) (RangeNew, RangeNew), []))))"

definition country_index_build ::
  "ext \<Rightarrow> string mmdb_networks \<Rightarrow> string list \<Rightarrow> nat \<Rightarrow> (geo_error + country_index) \<times> nat" where
  "country_index_build X networks allowed n =
     (if allowed = [] then (Inr \<lparr>by_country = []\<rparr>, n)
      else let keys = map country_key allowed in
        case geo_build X country_key keys networks of
          Inl e \<Rightarrow> (Inl e, n)
        | Inr buckets \<Rightarrow>
            (let (m, n') = geo_collect X (map country_key_as_str keys) buckets [] n in
             (Inr \<lparr>by_country = m\<rparr>, n')))"

definition country_count :: "country_index \<Rightarrow> nat" where
  "country_count i = length (by_country i)"

definition asn_index_build ::
  "ext \<Rightarrow> 32 word mmdb_networks \<Rightarrow> 32 word list \<Rightarrow> nat \<Rightarrow> (geo_error + asn_index) \<times> nat" where
  "asn_index_build X networks allowed n =
     (if allowed = [] then (Inr \<lparr>by_asn = []\<rparr>, n)
      else case geo_build X (\<lambda>asn. asn) allowed networks of
          Inl e \<Rightarrow> (Inl e, n)
        | Inr buckets \<Rightarrow>
            (let (m, n') = geo_collect X allowed buckets [] n in
             (Inr \<lparr>by_asn = m\<rparr>, n')))"

definition asn_count :: "asn_index \<Rightarrow> nat" where
  "asn_count i = length (by_asn i)"

subsection \<open>The networks of the database\<close>

fun same_family :: "ipaddr \<Rightarrow> ipaddr \<Rightarrow> bool" where
  "same_family (V4 _) (V4 _) = True"
| "same_family (V6 _) (V6 _) = True"
| "same_family _ _ = False"

definition net_has :: "ext \<Rightarrow> 'v mmdb_lookup \<Rightarrow> ipaddr \<Rightarrow> bool" where
  "net_has X l ip =
     (case lk_network l of
        None \<Rightarrow> False
      | Some (a, plen) \<Rightarrow>
          same_family a ip \<and> (case net_new X a plen of None \<Rightarrow> False | Some net \<Rightarrow> net_contains X net ip))"

definition item_under :: "ext \<Rightarrow> ('v \<Rightarrow> 'k) \<Rightarrow> 'k \<Rightarrow> ipaddr \<Rightarrow> 'v mmdb_lookup option \<Rightarrow> bool" where
  "item_under X key_of k ip item =
     (case item of
        None \<Rightarrow> False
      | Some l \<Rightarrow> lk_offset l \<noteq> None \<and> map_option key_of (lk_value l) = Some k \<and> net_has X l ip)"

text \<open>Some network recorded under a key contains the address.\<close>

definition recorded :: "ext \<Rightarrow> ('v \<Rightarrow> 'k) \<Rightarrow> 'v mmdb_lookup option list \<Rightarrow> 'k \<Rightarrow> ipaddr \<Rightarrow> bool" where
  "recorded X key_of items k ip = list_ex (item_under X key_of k ip) items"

text \<open>Equal offsets mean equal records, the property of the database the offset cache relies on.\<close>

fun same_record :: "'v mmdb_lookup option \<Rightarrow> 'v mmdb_lookup option \<Rightarrow> bool" where
  "same_record (Some a) (Some b) \<longleftrightarrow>
     (if lk_offset a \<noteq> None \<and> lk_offset a = lk_offset b then lk_value a = lk_value b else True)"
| "same_record _ _ \<longleftrightarrow> True"

definition offsets_agree :: "'v mmdb_lookup option list \<Rightarrow> bool" where
  "offsets_agree items \<longleftrightarrow> list_all (\<lambda>a. list_all (same_record a) items) items"

lemma offsets_agreeD:
  "offsets_agree items \<Longrightarrow> Some a \<in> set items \<Longrightarrow> Some b \<in> set items \<Longrightarrow> lk_offset a = Some off \<Longrightarrow>
   lk_offset b = Some off \<Longrightarrow> lk_value a = lk_value b"
  by (auto simp: offsets_agree_def list_all_iff split: if_splits) (metis option.distinct(1) same_record.simps(1))

subsection \<open>The walk bins every network under its key\<close>

fun bucket_has :: "ext \<Rightarrow> iprange \<times> iprange \<Rightarrow> ipaddr \<Rightarrow> bool" where
  "bucket_has X (v4, v6) (V4 a) = range_has X v4 (V4 a)"
| "bucket_has X (v4, v6) (V6 a) = range_has X v6 (V6 a)"

lemma bucket_has_add:
  "bucket_has X (bucket_add X a plen b) ip \<longleftrightarrow>
     bucket_has X b ip \<or> (same_family a ip \<and> (case net_new X a plen of None \<Rightarrow> False | Some net \<Rightarrow> net_contains X net ip))"
  by (cases b; cases ip; cases a) (auto simp: bucket_add_def split: option.split)

lemma position_Some:
  "position P xs = Some i \<longleftrightarrow> i < length xs \<and> P (xs ! i) \<and> (\<forall>j < i. \<not> P (xs ! j))"
proof (induction xs arbitrary: i)
  case (Cons x xs)
  then show ?case by (cases i) (auto simp: less_Suc_eq_0_disj nth_Cons')
qed simp

lemma position_None: "position P xs = None \<longleftrightarrow> (\<forall>x \<in> set xs. \<not> P x)"
  by (induction xs) auto

text \<open>What holds of the state after some of the items, \<open>all\<close> being the whole walk.\<close>

definition walk_ok ::
  "ext \<Rightarrow> ('v \<Rightarrow> 'k) \<Rightarrow> 'k list \<Rightarrow> 'v mmdb_lookup option list \<Rightarrow> 'v mmdb_lookup option list \<Rightarrow> geo_state \<Rightarrow> bool" where
  "walk_ok X key_of keys all seen st \<longleftrightarrow>
     length (fst st) = length keys \<and>
     (\<forall>off r l. map_of (snd st) off = Some r \<longrightarrow> Some l \<in> set all \<longrightarrow> lk_offset l = Some off \<longrightarrow>
        r = geo_resolve key_of keys (lk_value l)) \<and>
     (\<forall>i < length keys. \<forall>ip. bucket_has X (fst st ! i) ip \<longleftrightarrow>
        position (\<lambda>k. k = keys ! i) keys = Some i \<and> recorded X key_of seen (keys ! i) ip) \<and>
     (\<forall>i < length keys. position (\<lambda>k. k = keys ! i) keys = Some i \<or> fst st ! i = (RangeNew, RangeNew))"

lemma geo_resolve_Some:
  assumes "length keys \<le> 65535"
  shows "geo_resolve key_of keys d = Some idx \<longleftrightarrow>
    (\<exists>v. d = Some v \<and> position (\<lambda>k. k = key_of v) keys = Some (unat idx))"
proof -
  have "unat (of_nat i :: 16 word) = i" if "i < length keys" for i
    using that assms by (simp add: unat_of_nat take_bit_nat_eq_self)
  then show ?thesis
    by (auto simp: geo_resolve_def split: option.splits) (simp_all add: position_Some)
qed

lemma recorded_snoc:
  "recorded X key_of (seen @ [item]) k ip \<longleftrightarrow> recorded X key_of seen k ip \<or> item_under X key_of k ip item"
  by (simp add: recorded_def)

lemma walk_ok_skip:
  assumes "walk_ok X key_of keys all seen (buckets, cache)" "map_of cache' = map_of cache"
    "\<And>i ip. i < length keys \<Longrightarrow> position (\<lambda>k. k = keys ! i) keys = Some i \<Longrightarrow> \<not> item_under X key_of (keys ! i) ip item"
  shows "walk_ok X key_of keys all (seen @ [item]) (buckets, cache')"
  using assms by (auto simp: walk_ok_def recorded_snoc)

lemma cached_resolve_eq:
  assumes "walk_ok X key_of keys all seen (buckets, cache)" "Some l \<in> set all" "lk_offset l = Some off"
  shows "fst (cached_resolve (geo_resolve key_of keys) cache off (lk_value l)) = geo_resolve key_of keys (lk_value l)"
  using assms by (auto simp: cached_resolve_def walk_ok_def split: option.split)

lemma cached_resolve_ok:
  assumes "walk_ok X key_of keys all seen (buckets, cache)" "Some l \<in> set all" "lk_offset l = Some off"
    "offsets_agree all"
  shows "walk_ok X key_of keys all seen (buckets, snd (cached_resolve (geo_resolve key_of keys) cache off (lk_value l)))"
proof -
  have "geo_resolve key_of keys (lk_value l) = geo_resolve key_of keys (lk_value l')"
    if "Some l' \<in> set all" "lk_offset l' = Some off" for l'
    using offsets_agreeD [OF assms(4,2) that(1) assms(3) that(2)] by simp
  then show ?thesis using assms(1) by (simp add: cached_resolve_def walk_ok_def split: option.split)
qed

lemma walk_ok_add:
  assumes ok: "walk_ok X key_of keys all seen (buckets, cache)" and off: "lk_offset l = Some off"
    and v: "lk_value l = Some v" and pos: "position (\<lambda>k. k = key_of v) keys = Some j" and net: "lk_network l = Some (a, plen)"
  shows "walk_ok X key_of keys all (seen @ [Some l]) (buckets[j := bucket_add X a plen (buckets ! j)], cache)"
proof -
  from pos have j: "j < length keys" "keys ! j = key_of v" by (simp_all add: position_Some)
  have len: "length buckets = length keys" using ok by (simp add: walk_ok_def)
  have pos_j: "position (\<lambda>k. k = keys ! j) keys = Some j" using pos j(2) by simp
  have first: "i = j" if "position (\<lambda>k. k = keys ! i) keys = Some i" "keys ! i = key_of v" for i
    using that pos by simp
  have under: "item_under X key_of k ip (Some l) \<longleftrightarrow>
      k = key_of v \<and> same_family a ip \<and> (case net_new X a plen of None \<Rightarrow> False | Some n \<Rightarrow> net_contains X n ip)" for k ip
    using off v net by (auto simp: item_under_def net_has_def)
  have "bucket_has X (buckets[j := bucket_add X a plen (buckets ! j)] ! i) ip \<longleftrightarrow>
      position (\<lambda>k. k = keys ! i) keys = Some i \<and> recorded X key_of (seen @ [Some l]) (keys ! i) ip"
    if "i < length keys" for i ip
  proof (cases "i = j")
    case True
    then show ?thesis using ok j pos_j len that
      by (simp add: walk_ok_def bucket_has_add recorded_snoc under)
  next
    case False
    with first have "\<not> (position (\<lambda>k. k = keys ! i) keys = Some i \<and> keys ! i = key_of v)" by blast
    then show ?thesis using ok False that by (auto simp: walk_ok_def recorded_snoc under)
  qed
  then show ?thesis using ok len j pos_j by (auto simp: walk_ok_def nth_list_update)
qed

lemma geo_step_ok:
  assumes ok: "walk_ok X key_of keys all seen st" and mem: "item \<in> set all" and agree: "offsets_agree all"
    and len: "length keys \<le> 65535"
  shows "walk_ok X key_of keys all (seen @ [item]) (geo_step X (geo_resolve key_of keys) item st)"
proof -
  obtain buckets cache where st: "st = (buckets, cache)" by (cases st)
  show ?thesis
  proof (cases "item = None \<or> lk_offset (the item) = None")
    case True
    then have "geo_step X (geo_resolve key_of keys) item st = (buckets, cache)"
      "\<And>k ip. \<not> item_under X key_of k ip item"
      by (auto simp: geo_step_def item_under_def st split: option.splits)
    with walk_ok_skip [OF ok [unfolded st]] show ?thesis by simp
  next
    case False
    then obtain l off where l: "item = Some l" "lk_offset l = Some off" by auto
    obtain r cache' where r: "cached_resolve (geo_resolve key_of keys) cache off (lk_value l) = (r, cache')" by fastforce
    have r_eq: "r = geo_resolve key_of keys (lk_value l)"
      using cached_resolve_eq [OF ok [unfolded st], of l off] mem l r by simp
    have ok': "walk_ok X key_of keys all seen (buckets, cache')"
      using cached_resolve_ok [OF ok [unfolded st], of l off] mem l r agree by simp
    show ?thesis
    proof (cases r)
      case None
      then have "\<not> item_under X key_of (keys ! i) ip item" if "i < length keys" for i ip
        using that l r_eq by (auto simp: item_under_def geo_resolve_def position_None split: option.splits)
      then show ?thesis using None l r ok'
        by (simp add: geo_step_def st walk_ok_skip)
    next
      case (Some idx)
      with r_eq obtain v where v: "lk_value l = Some v" "position (\<lambda>k. k = key_of v) keys = Some (unat idx)"
        using geo_resolve_Some [OF len] by metis
      show ?thesis
      proof (cases "lk_network l")
        case None
        then show ?thesis using Some l r ok'
          by (simp add: geo_step_def st walk_ok_skip item_under_def net_has_def)
      next
        case net: (Some p)
        then show ?thesis using Some l r walk_ok_add [OF ok' l(2) v]
          by (cases p) (simp add: geo_step_def st)
      qed
    qed
  qed
qed

lemma geo_walk_ok:
  assumes "offsets_agree all" "length keys \<le> 65535"
  shows "walk_ok X key_of keys all seen st \<Longrightarrow> set items \<subseteq> set all \<Longrightarrow>
    walk_ok X key_of keys all (seen @ items) (fold (geo_step X (geo_resolve key_of keys)) items st)"
proof (induction items arbitrary: seen st)
  case (Cons item items)
  then have "walk_ok X key_of keys all (seen @ [item]) (geo_step X (geo_resolve key_of keys) item st)"
    using assms by (intro geo_step_ok) auto
  from Cons.IH [OF this] Cons.prems show ?case by simp
qed simp

lemma geo_build_buckets:
  assumes "offsets_agree items" "geo_build X key_of keys (Some items) = Inr buckets"
  shows "length buckets = length keys"
    "i < length keys \<Longrightarrow> bucket_has X (buckets ! i) ip \<longleftrightarrow>
      position (\<lambda>k. k = keys ! i) keys = Some i \<and> recorded X key_of items (keys ! i) ip"
    "i < length keys \<Longrightarrow> position (\<lambda>k. k = keys ! i) keys = Some i \<or> buckets ! i = (RangeNew, RangeNew)"
proof -
  have len: "length keys \<le> 65535" using assms(2) by (auto simp: geo_build_def split: if_splits)
  have "bucket_has X (RangeNew, RangeNew) ip = False" for ip by (cases ip) simp_all
  then have "walk_ok X key_of keys items [] (replicate (length keys) (RangeNew, RangeNew), [])"
    by (simp add: walk_ok_def recorded_def)
  from geo_walk_ok [OF assms(1) len this, of items] assms(2) len
  have "\<exists>c. walk_ok X key_of keys items items (buckets, c)"
    by (auto simp: geo_build_def) (metis prod.collapse)
  then show "length buckets = length keys"
    "i < length keys \<Longrightarrow> bucket_has X (buckets ! i) ip \<longleftrightarrow>
      position (\<lambda>k. k = keys ! i) keys = Some i \<and> recorded X key_of items (keys ! i) ip"
    "i < length keys \<Longrightarrow> position (\<lambda>k. k = keys ! i) keys = Some i \<or> buckets ! i = (RangeNew, RangeNew)"
    by (auto simp: walk_ok_def)
qed

subsection \<open>Collecting the buckets\<close>

definition entry_has :: "ext \<Rightarrow> ip_ranges option \<Rightarrow> ipaddr \<Rightarrow> bool" where
  "entry_has X e ip = (case e of None \<Rightarrow> False | Some rs \<Rightarrow> ranges_match X rs (Some ip))"

definition empty_bucket :: "ext \<Rightarrow> iprange \<times> iprange \<Rightarrow> bool" where
  "empty_bucket X b \<longleftrightarrow> range_is_empty X (fst b) \<and> range_is_empty X (snd b)"

lemma range_is_empty_laws:
  "ext_laws X \<Longrightarrow> range_is_empty X RangeNew" "ext_laws X \<Longrightarrow> range_has X r ip \<Longrightarrow> \<not> range_is_empty X r"
  unfolding ext_laws_def iprange_laws_def by blast+

lemma bucket_has_nonempty: "ext_laws X \<Longrightarrow> bucket_has X b ip \<Longrightarrow> \<not> empty_bucket X b"
  by (cases b; cases ip) (auto simp: empty_bucket_def range_is_empty_laws)

lemma simplified_entry:
  "ext_laws X \<Longrightarrow> entry_has X (Some (IpRanges (Arc p (RangeSimplify v4)) (Arc q (RangeSimplify v6)))) ip \<longleftrightarrow>
     bucket_has X (v4, v6) ip"
  using range_contains_host [of X v4 ip] range_contains_host [of X v6 ip]
  by (cases ip) (simp_all add: entry_has_def ranges_match_def)

lemma geo_collect_entry:
  "ext_laws X \<Longrightarrow> length ks = length bs \<Longrightarrow> entry_has X (map_of (fst (geo_collect X ks bs m n)) k) ip \<longleftrightarrow>
    (case map_of (rev (filter (\<lambda>(_, b). \<not> empty_bucket X b) (zip ks bs))) k of
       Some b \<Rightarrow> bucket_has X b ip
     | None \<Rightarrow> entry_has X (map_of m k) ip)"
proof (induction X ks bs m n rule: geo_collect.induct)
  case (1 X k' ks v4 v6 bs m n)
  show ?case
  proof (cases "empty_bucket X (v4, v6)")
    case True
    with 1 show ?thesis by (simp add: empty_bucket_def)
  next
    case False
    with 1 show ?thesis
      by (auto simp: empty_bucket_def update_conv map_add_def simplified_entry split: option.split)
  qed
qed simp_all

text \<open>Only the first of equal keys has a bucket that is not empty, so the entry of a key is that bucket.\<close>

lemma geo_collect_unique:
  assumes X: "ext_laws X" and len: "length ks = length bs"
    and unique: "\<And>i j. i < length ks \<Longrightarrow> j < length ks \<Longrightarrow> ks ! i = ks ! j \<Longrightarrow>
      \<not> empty_bucket X (bs ! i) \<Longrightarrow> \<not> empty_bucket X (bs ! j) \<Longrightarrow> i = j"
  shows "entry_has X (map_of (fst (geo_collect X ks bs [] n)) k) ip \<longleftrightarrow>
    (\<exists>i < length ks. ks ! i = k \<and> bucket_has X (bs ! i) ip)"
proof -
  let ?l = "filter (\<lambda>(_, b). \<not> empty_bucket X b) (zip ks bs)"
  have mem: "(k, b) \<in> set ?l \<longleftrightarrow> (\<exists>i < length ks. ks ! i = k \<and> bs ! i = b \<and> \<not> empty_bucket X b)" for b
    using len by (auto simp: in_set_zip)
  have val: "map_of (rev ?l) k = Some b \<longleftrightarrow> (k, b) \<in> set ?l" for b
  proof
    assume "(k, b) \<in> set ?l"
    then obtain b' where b': "map_of (rev ?l) k = Some b'"
      by (metis map_of_eq_None_iff not_Some_eq set_rev image_eqI fst_conv)
    then have "(k, b') \<in> set ?l" by (metis map_of_SomeD set_rev)
    with \<open>(k, b) \<in> set ?l\<close> have "b' = b" unfolding mem using unique by metis
    with b' show "map_of (rev ?l) k = Some b" by simp
  qed (metis map_of_SomeD set_rev)
  have "entry_has X (map_of (fst (geo_collect X ks bs [] n)) k) ip \<longleftrightarrow>
      (\<exists>b. map_of (rev ?l) k = Some b \<and> bucket_has X b ip)"
    unfolding geo_collect_entry [OF X len] by (auto simp: entry_has_def split: option.split)
  then show ?thesis unfolding val mem using bucket_has_nonempty [OF X] by blast
qed

lemma geo_index_entry:
  assumes X: "ext_laws X" and agree: "offsets_agree items"
    and build: "geo_build X key_of keys (Some items) = Inr buckets"
    and inj: "inj_on name (set keys)"
  shows "entry_has X (map_of (fst (geo_collect X (map name keys) buckets [] n)) s) ip \<longleftrightarrow>
    (\<exists>k \<in> set keys. name k = s \<and> recorded X key_of items k ip)"
proof -
  note b = geo_build_buckets [OF agree build]
  have pos: "position (\<lambda>k. k = keys ! i) keys = Some i" if "i < length keys" "\<not> empty_bucket X (buckets ! i)" for i
    using b(3) [OF that(1)] that(2) range_is_empty_laws(1) [OF X] by (auto simp: empty_bucket_def)
  have "entry_has X (map_of (fst (geo_collect X (map name keys) buckets [] n)) s) ip \<longleftrightarrow>
      (\<exists>i < length keys. name (keys ! i) = s \<and> bucket_has X (buckets ! i) ip)"
  proof (subst geo_collect_unique [OF X])
    fix i j
    assume a: "i < length (map name keys)" "j < length (map name keys)" "map name keys ! i = map name keys ! j"
      "\<not> empty_bucket X (buckets ! i)" "\<not> empty_bucket X (buckets ! j)"
    then have eq: "keys ! i = keys ! j" using inj by (auto dest: inj_onD)
    have "position (\<lambda>k. k = keys ! j) keys = Some i" using pos [of i] a unfolding eq by simp
    then show "i = j" using pos [of j] a by simp
  qed (auto simp: b(1))
  also have "\<dots> \<longleftrightarrow> (\<exists>k \<in> set keys. name k = s \<and> recorded X key_of items k ip)"
  proof
    assume "\<exists>i < length keys. name (keys ! i) = s \<and> bucket_has X (buckets ! i) ip"
    then show "\<exists>k \<in> set keys. name k = s \<and> recorded X key_of items k ip" using b(2) by fastforce
  next
    assume "\<exists>k \<in> set keys. name k = s \<and> recorded X key_of items k ip"
    then obtain k where k: "k \<in> set keys" "name k = s" "recorded X key_of items k ip" by blast
    then obtain i where "position (\<lambda>x. x = k) keys = Some i" using position_None [of "\<lambda>x. x = k" keys] by fastforce
    with k b(2) [of i ip] show "\<exists>i < length keys. name (keys ! i) = s \<and> bucket_has X (buckets ! i) ip"
      by (auto simp: position_Some intro!: exI [of _ i])
  qed
  finally show ?thesis .
qed

lemma fresh_ranges_match: "ext_laws X \<Longrightarrow> \<not> ranges_match X (fst (fresh_ranges n)) ip"
  using range_contains_sound [of X RangeNew] 
  by (auto simp: ranges_match_def fresh_ranges_def ext_laws_def iprange_laws_def split: option.split ipaddr.split)
    (metis host_net.simps range_has.simps(1))+

subsection \<open>Rules on the indexes\<close>

lemma to_upper_char_nul: "to_upper_char c = CHR 0x00 \<longleftrightarrow> c = CHR 0x00"
proof (cases "lower_letter c")
  case True
  then have "of_char (to_upper_char c) = (of_char c :: nat) - 32" "(of_char c :: nat) \<ge> 97"
    using of_char_of [of "(of_char c :: nat) - 32"] by (auto simp: to_upper_char_def lower_letter_def)
  then have "of_char (to_upper_char c) \<noteq> (0 :: nat)" by simp
  with True show ?thesis by (auto simp: lower_letter_def)
qed (simp add: to_upper_char_def)

lemma country_key_as_str: "CHR 0x00 \<notin> set s \<Longrightarrow> country_key_as_str (country_key s) = to_ascii_uppercase (take 8 s)"
proof -
  assume s: "CHR 0x00 \<notin> set s"
  have "c \<noteq> CHR 0x00" if "c \<in> set (map to_upper_char (take 8 s))" for c
    using s that by (auto simp: to_upper_char_nul dest: in_set_takeD)
  then show ?thesis unfolding country_key_as_str_def country_key_def to_ascii_uppercase_def
    by (subst takeWhile_append2) (simp_all add: takeWhile_replicate)
qed

lemma country_key_split:
  "CHR 0x00 \<notin> set s \<Longrightarrow>
     country_key s = country_key_as_str (country_key s) @
       replicate (8 - length (country_key_as_str (country_key s))) (CHR 0x00)"
  by (simp add: country_key_as_str) (simp add: country_key_def to_ascii_uppercase_def)

lemma country_key_inj:
  "list_all (\<lambda>c. CHR 0x00 \<notin> set c) allowed \<Longrightarrow> inj_on country_key_as_str (set (map country_key allowed))"
  by (rule inj_onI) (auto simp: list_all_iff, metis country_key_split)

lemma country_index_entry:
  assumes "ext_laws X" "offsets_agree items" "list_all (\<lambda>c. CHR 0x00 \<notin> set c) allowed"
    "country_index_build X (Some items) allowed n = (Inr index, n')"
  shows "entry_has X (map_of (by_country index) s) ip \<longleftrightarrow>
    (\<exists>c \<in> set allowed. to_ascii_uppercase (take 8 c) = s \<and> recorded X country_key items (country_key c) ip)"
proof (cases "allowed = []")
  case True
  with assms(4) show ?thesis by (auto simp: country_index_build_def entry_has_def)
next
  case False
  then obtain buckets where b: "geo_build X country_key (map country_key allowed) (Some items) = Inr buckets"
      "by_country index = fst (geo_collect X (map country_key_as_str (map country_key allowed)) buckets [] n)"
    using assms(4) by (auto simp: country_index_build_def Let_def split: sum.splits prod.splits)
  show ?thesis
    unfolding b(2) geo_index_entry [OF assms(1,2) b(1) country_key_inj [OF assms(3)]]
    using assms(3) by (auto simp: country_key_as_str list_all_iff)
qed

lemma asn_index_entry:
  assumes "ext_laws X" "offsets_agree items" "asn_index_build X (Some items) allowed n = (Inr index, n')"
  shows "entry_has X (map_of (by_asn index) asn) ip \<longleftrightarrow> asn \<in> set allowed \<and> recorded X (\<lambda>a. a) items asn ip"
proof (cases "allowed = []")
  case True
  with assms(3) show ?thesis by (auto simp: asn_index_build_def entry_has_def)
next
  case False
  then obtain buckets where b: "geo_build X (\<lambda>a. a) allowed (Some items) = Inr buckets"
      "by_asn index = fst (geo_collect X allowed buckets [] n)"
    using assms(3) by (auto simp: asn_index_build_def Let_def split: sum.splits prod.splits)
  show ?thesis
    using geo_index_entry [OF assms(1,2) b(1), of "\<lambda>a. a"] unfolding b(2) by auto
qed

lemma ranges_for_match:
  assumes "ext_laws X"
  shows "ranges_match X (fst (country_ranges_for index c k)) (Some ip) \<longleftrightarrow>
      entry_has X (map_of (by_country index) (to_ascii_uppercase c)) ip"
    "ranges_match X (fst (asn_ranges_for aindex asn k)) (Some ip) \<longleftrightarrow> entry_has X (map_of (by_asn aindex) asn) ip"
  using fresh_ranges_match [OF assms]
  by (auto simp: country_ranges_for_def asn_ranges_for_def entry_has_def split: option.split)

lemma index_build_total:
  assumes "length allowed \<le> 65535"
  shows "\<exists>index n'. country_index_build X (Some items) allowed n = (Inr index, n')"
  using assms by (auto simp: country_index_build_def geo_build_def Let_def split: prod.split)

lemma asn_build_total:
  assumes "length allowed \<le> 65535"
  shows "\<exists>index n'. asn_index_build X (Some items) allowed n = (Inr index, n')"
  using assms by (auto simp: asn_index_build_def geo_build_def split: prod.split)


text \<open>
  C13: GEOIP rules against the database. A GEOIP rule parsed with the index matches a connection exactly
  when its target address lies in a network the database records under the code, compared without
  regard to case, for codes of at most eight characters on the list the index was built for. The
  cache of data offsets changes nothing, since equal offsets hold equal records.
\<close>

theorem geoip_rule_database:
  assumes "ext_laws X" "offsets_agree items" "list_all (\<lambda>c. CHR 0x00 \<notin> set c \<and> length c \<le> 8) allowed"
    "country_index_build X (Some items) allowed n = (Inr index, n')" "ctx_geoip ctx = Some index"
    "parse_geoip ctx code adapter no_resolve k = (Inr r, k')"
  shows "match_metadata X r m \<longleftrightarrow>
    (\<exists>ip. md_dst_ip m = Some ip \<and>
       (\<exists>c \<in> set allowed. to_ascii_uppercase c = to_ascii_uppercase code \<and> recorded X country_key items (country_key c) ip))"
proof -
  have r: "r = GeoIpRule (to_ascii_uppercase code) adapter no_resolve (fst (country_ranges_for index code k))"
    using assms(5,6) by (auto simp: parse_geoip_def geoip_new_def split: prod.splits)
  have nul: "list_all (\<lambda>c. CHR 0x00 \<notin> set c) allowed" using assms(3) by (simp add: list_all_iff)
  have take8: "take 8 c = c" if "c \<in> set allowed" for c using that assms(3) by (simp add: list_all_iff)
  show ?thesis
  proof (cases "md_dst_ip m")
    case (Some ip)
    then show ?thesis
      using country_index_entry [OF assms(1,2) nul assms(4), of "to_ascii_uppercase code" ip] take8
      by (auto simp: r ranges_for_match [OF assms(1)])
  qed (simp add: r ranges_match_def)
qed

theorem geoip_rule_database_witness:
  "\<exists>index n' r k'.
     country_index_build ref_ext
       (Some [Some \<lparr>lk_offset = Some 7, lk_value = Some ''US'', lk_network = Some (V4 0x01000000, 8)\<rparr>,
              Some \<lparr>lk_offset = Some 9, lk_value = Some ''CN'', lk_network = Some (V4 0x02000000, 8)\<rparr>,
              Some \<lparr>lk_offset = Some 9, lk_value = Some ''CN'', lk_network = Some (V4 0x03000000, 8)\<rparr>])
       [''cn''] 0 = (Inr index, n') \<and>
     parse_geoip (parser_context_empty\<lparr>ctx_geoip := Some index\<rparr>) ''Cn'' ''P'' False n' = (Inr r, k') \<and>
     match_metadata ref_ext r (default_metadata\<lparr>md_dst_ip := Some (V4 0x03000005)\<rparr>)"
proof -
  let ?items = "[Some \<lparr>lk_offset = Some 7, lk_value = Some ''US'', lk_network = Some (V4 0x01000000, 8)\<rparr>,
              Some \<lparr>lk_offset = Some 9, lk_value = Some ''CN'', lk_network = Some (V4 0x02000000, 8)\<rparr>,
              Some \<lparr>lk_offset = Some 9, lk_value = Some ''CN'', lk_network = Some (V4 0x03000000, 8)\<rparr>]"
  obtain index n' where b: "country_index_build ref_ext (Some ?items) [''cn''] 0 = (Inr index, n')"
    using index_build_total [of "[''cn'']"] by fastforce
  obtain r k' where p: "parse_geoip (parser_context_empty\<lparr>ctx_geoip := Some index\<rparr>) ''Cn'' ''P'' False n' = (Inr r, k')"
    by (cases "country_ranges_for index ''Cn'' n'") (auto simp: parse_geoip_def)
  have "offsets_agree ?items" "list_all (\<lambda>c. CHR 0x00 \<notin> set c \<and> length c \<le> 8) [''cn'']"
    "recorded ref_ext country_key ?items (country_key ''cn'') (V4 0x03000005)"
    "to_ascii_uppercase ''cn'' = to_ascii_uppercase ''Cn''"
    by code_simp+
  with geoip_rule_database [OF ref_ext_laws _ _ b _ p, of "default_metadata\<lparr>md_dst_ip := Some (V4 0x03000005)\<rparr>"]
  have "match_metadata ref_ext r (default_metadata\<lparr>md_dst_ip := Some (V4 0x03000005)\<rparr>)" by simp
  with b p show ?thesis by blast
qed

text \<open>
  C14: IP-ASN rules against the database. An IP-ASN or SRC-IP-ASN rule parsed with the index matches
  exactly the connections whose address lies in a network the database records under the number, for
  numbers on the list the index was built for.
\<close>

theorem ip_asn_rule_database:
  assumes "ext_laws X" "offsets_agree items" "asn_index_build X (Some items) allowed n = (Inr index, n')"
    "ctx_asn ctx = Some index" "parse_ip_asn ctx payload adapter src no_resolve k = (Inr r, k')"
  shows "match_metadata X r m \<longleftrightarrow>
    (\<exists>ip asn. (if src then md_src_ip m else md_dst_ip m) = Some ip \<and> parse_u32 (trim payload) = Some asn \<and>
       asn \<in> set allowed \<and> recorded X (\<lambda>a. a) items asn ip)"
proof -
  obtain asn where asn: "parse_u32 (trim payload) = Some asn"
      "r = IpAsnRule payload adapter (fst (asn_ranges_for index asn k)) src no_resolve"
    using assms(4,5)
    by (auto simp: parse_ip_asn_def parse_asn_payload_def ip_asn_new_def split: prod.splits sum.splits option.splits)
  show ?thesis
  proof (cases "if src then md_src_ip m else md_dst_ip m")
    case (Some ip)
    then show ?thesis
      using asn_index_entry [OF assms(1-3), of asn ip] by (simp add: asn ranges_for_match [OF assms(1)])
  qed (simp add: asn ranges_match_def)
qed

theorem ip_asn_rule_database_witness:
  "\<exists>index n' r k'.
     asn_index_build ref_ext
       (Some [Some \<lparr>lk_offset = Some 7, lk_value = Some 13335, lk_network = Some (V4 0x01010100, 24)\<rparr>]) [13335] 0 =
       (Inr index, n') \<and>
     parse_ip_asn (parser_context_empty\<lparr>ctx_asn := Some index\<rparr>) ''13335'' ''P'' False False n' = (Inr r, k') \<and>
     match_metadata ref_ext r (default_metadata\<lparr>md_dst_ip := Some (V4 0x01010101)\<rparr>)"
proof -
  let ?items = "[Some \<lparr>lk_offset = Some 7, lk_value = Some (13335 :: 32 word), lk_network = Some (V4 0x01010100, 24)\<rparr>]"
  obtain index n' where b: "asn_index_build ref_ext (Some ?items) [13335] 0 = (Inr index, n')"
    using asn_build_total [of "[13335]"] by fastforce
  have asn: "parse_u32 (trim ''13335'') = Some 13335"
    by (simp add: parse_u32_def parse_uint_def digits_val_def is_digit_def trim_def trim_start_def
        trim_end_matches_def is_ws_def)
  obtain r k' where p: "parse_ip_asn (parser_context_empty\<lparr>ctx_asn := Some index\<rparr>) ''13335'' ''P'' False False n' = (Inr r, k')"
    using asn by (cases "asn_ranges_for index 13335 n'") (auto simp: parse_ip_asn_def parse_asn_payload_def)
  have agree: "offsets_agree ?items" by code_simp
  have rec: "recorded ref_ext (\<lambda>a. a) ?items 13335 (V4 0x01010101)" by code_simp
  have "match_metadata ref_ext r (default_metadata\<lparr>md_dst_ip := Some (V4 0x01010101)\<rparr>)"
    by (rule ip_asn_rule_database [OF ref_ext_laws agree b _ p, THEN iffD2], simp)
      (intro exI conjI, simp, rule asn, simp, rule rec)
  with b p show ?thesis by blast
qed

end
