(* ===== verification/RuleConfig.thy ===== *)
theory RuleConfig
  imports GeoIndex "HOL-Library.Char_ord" "HOL-Library.List_Lexorder"
begin

text \<open>
  The rule blocks of the configuration, \<open>meow-config/src/rule_parser.rs\<close> and \<open>sub_rules_parser.rs\<close>:
  rule lines with references to rule providers and sub-rule blocks, the reference graph of the blocks,
  its topological order with cycle detection, and parsing the blocks in that order. Hash maps are
  association lists with distinct keys, in any order. The depth-first search takes fuel; the fuel
  \<open>topo_order\<close> gives it, one more than the number of blocks, never runs out.
\<close>

datatype config_error =
    RuleSetNeedsName | UnknownProvider string | SubRuleNotDefined string | BadRule rule_error
  | UndefinedReference string string | SubRuleCycle "string list" | BlockNotDefined string
  | InBlock string config_error

type_synonym providers = "(string \<times> rule_set arc) list"
type_synonym sub_rule_blocks = "(string \<times> rule list arc) list"
type_synonym raw_blocks = "(string \<times> string list) list"

subsection \<open>Single lines\<close>

definition try_parse_rule_set :: "string \<Rightarrow> providers \<Rightarrow> (config_error + rule) option" where
  "try_parse_rule_set line ps =
     (case map trim (splitn 4 (CHR '','') line) of
        [] \<Rightarrow> None
      | ty # parts \<Rightarrow>
          if ty \<noteq> ''RULE-SET'' then None
          else Some (case parts of
              name # adapter # extras \<Rightarrow>
                (let no_resolve = (case extras of e # _ \<Rightarrow> eq_ignore_ascii_case e ''no-resolve'' | [] \<Rightarrow> False) in
                 case map_of ps name of
                   None \<Rightarrow> Inl (UnknownProvider name)
                 | Some rs \<Rightarrow> Inr (rule_set_new name rs adapter no_resolve))
            | _ \<Rightarrow> Inl RuleSetNeedsName))"

definition skipped_line :: "string \<Rightarrow> bool" where
  "skipped_line line \<longleftrightarrow> line = [] \<or> starts_with ''#'' line"

definition parse_sub_rule_reference :: "string \<Rightarrow> string option" where
  "parse_sub_rule_reference line0 =
     (let line = trim line0 in
      if skipped_line line then None
      else case splitn 2 (CHR '','') line of
        ty # parts \<Rightarrow>
          if \<not> eq_ignore_ascii_case (trim ty) ''SUB-RULE'' then None
          else (case parts of
                  [] \<Rightarrow> None
                | rest # _ \<Rightarrow>
                    if trim rest = [] then None
                    else Some (trim (hd (split_on (CHR '','') (trim rest)))))
      | [] \<Rightarrow> None)"

definition build_sub_rule_rule :: "string \<Rightarrow> sub_rule_blocks \<Rightarrow> config_error + rule" where
  "build_sub_rule_rule block_name built =
     (case map_of built block_name of
        None \<Rightarrow> Inl (SubRuleNotDefined block_name)
      | Some block \<Rightarrow> Inr (sub_rule_new block_name block))"

definition parse_one_rule_or_subrule ::
  "ext \<Rightarrow> parser_context \<Rightarrow> providers \<Rightarrow> sub_rule_blocks \<Rightarrow> string \<Rightarrow> nat \<Rightarrow> (config_error + rule) \<times> nat" where
  "parse_one_rule_or_subrule X ctx ps blocks line n =
     (case try_parse_rule_set line ps of
        Some result \<Rightarrow> (result, n)
      | None \<Rightarrow>
          (case parse_sub_rule_reference line of
             Some block_name \<Rightarrow> (build_sub_rule_rule block_name blocks, n)
           | None \<Rightarrow> (case parse_rule X ctx line n of (res, n') \<Rightarrow> (map_sum BadRule id res, n'))))"

text \<open>The \<open>rules:\<close> block: a line that does not parse is logged and left out.\<close>

fun parse_rules_full ::
  "ext \<Rightarrow> parser_context \<Rightarrow> providers \<Rightarrow> sub_rule_blocks \<Rightarrow> string list \<Rightarrow> nat \<Rightarrow> rule list \<times> nat" where
  "parse_rules_full X ctx ps blocks [] n = ([], n)"
| "parse_rules_full X ctx ps blocks (l # ls) n =
     (let line = trim l in
      if skipped_line line then parse_rules_full X ctx ps blocks ls n
      else case parse_one_rule_or_subrule X ctx ps blocks line n of
        (res, n') \<Rightarrow>
          (let (rs, n'') = parse_rules_full X ctx ps blocks ls n' in
           ((case res of Inr r \<Rightarrow> r # rs | Inl _ \<Rightarrow> rs), n'')))"

definition parse_rules_with_providers ::
  "ext \<Rightarrow> parser_context \<Rightarrow> providers \<Rightarrow> string list \<Rightarrow> nat \<Rightarrow> rule list \<times> nat" where
  "parse_rules_with_providers X ctx ps ls n = parse_rules_full X ctx ps [] ls n"

definition parse_rules :: "ext \<Rightarrow> parser_context \<Rightarrow> string list \<Rightarrow> nat \<Rightarrow> rule list \<times> nat" where
  "parse_rules X ctx ls n = parse_rules_with_providers X ctx [] ls n"

subsection \<open>The reference graph\<close>

fun collect_refs :: "raw_blocks \<Rightarrow> string \<Rightarrow> string list \<Rightarrow> config_error + string list" where
  "collect_refs raw name [] = Inr []"
| "collect_refs raw name (l # ls) =
     (case parse_sub_rule_reference l of
        None \<Rightarrow> collect_refs raw name ls
      | Some target \<Rightarrow>
          if map_of raw target = None then Inl (UndefinedReference name target)
          else map_sum id ((#) target) (collect_refs raw name ls))"

fun reference_graph_loop :: "raw_blocks \<Rightarrow> raw_blocks \<Rightarrow> config_error + (string \<times> string list) list" where
  "reference_graph_loop raw [] = Inr []"
| "reference_graph_loop raw ((name, ls) # es) =
     (case collect_refs raw name ls of
        Inl e \<Rightarrow> Inl e
      | Inr refs \<Rightarrow> map_sum id ((#) (name, refs)) (reference_graph_loop raw es))"

definition build_reference_graph :: "raw_blocks \<Rightarrow> config_error + (string \<times> string list) list" where
  "build_reference_graph raw = reference_graph_loop raw raw"

subsection \<open>Topological order\<close>

datatype mark = Fresh | OnStack | Done

record dfs_state =
  marks :: "string \<Rightarrow> mark option"
  finished :: "string list"

definition neighbours :: "(string \<times> string list) list \<Rightarrow> string \<Rightarrow> string list" where
  "neighbours graph node = (case map_of graph node of Some ns \<Rightarrow> ns | None \<Rightarrow> [])"

fun dfs ::
  "nat \<Rightarrow> (string \<times> string list) list \<Rightarrow> string list \<Rightarrow> string \<Rightarrow> dfs_state \<Rightarrow> (config_error + dfs_state) option"
  and dfs_all ::
  "nat \<Rightarrow> (string \<times> string list) list \<Rightarrow> string list \<Rightarrow> string list \<Rightarrow> dfs_state \<Rightarrow> (config_error + dfs_state) option" where
  "dfs 0 graph path node st = None"
| "dfs (Suc fuel) graph path node st =
     (case marks st node of
        Some Done \<Rightarrow> Some (Inr st)
      | Some OnStack \<Rightarrow> Some (Inl (SubRuleCycle (path @ [node])))
      | Some Fresh \<Rightarrow>
          (case dfs_all fuel graph (path @ [node]) (neighbours graph node)
                  (st\<lparr>marks := (marks st)(node \<mapsto> OnStack)\<rparr>) of
             Some (Inr st') \<Rightarrow>
               Some (Inr (st'\<lparr>marks := (marks st')(node \<mapsto> Done), finished := finished st' @ [node]\<rparr>))
           | res \<Rightarrow> res)
      | None \<Rightarrow> Some (Inl (BlockNotDefined node)))"
| "dfs_all fuel graph path [] st = Some (Inr st)"
| "dfs_all fuel graph path (nxt # ns) st =
     (case dfs fuel graph path nxt st of
        Some (Inr st') \<Rightarrow> dfs_all fuel graph path ns st'
      | res \<Rightarrow> res)"

definition dfs_init :: "raw_blocks \<Rightarrow> dfs_state" where
  "dfs_init raw = \<lparr>marks = (\<lambda>k. if map_of raw k = None then None else Some Fresh), finished = []\<rparr>"

definition topo_order :: "raw_blocks \<Rightarrow> (string \<times> string list) list \<Rightarrow> (config_error + string list) option" where
  "topo_order raw graph =
     map_option (map_sum id finished)
       (dfs_all (length raw + 1) graph [] (sort (map fst raw)) (dfs_init raw))"

subsection \<open>Parsing the blocks\<close>

fun parse_block_lines ::
  "ext \<Rightarrow> parser_context \<Rightarrow> providers \<Rightarrow> sub_rule_blocks \<Rightarrow> string list \<Rightarrow> nat \<Rightarrow> (config_error + rule list) \<times> nat" where
  "parse_block_lines X ctx ps blocks [] n = (Inr [], n)"
| "parse_block_lines X ctx ps blocks (l # ls) n =
     (let line = trim l in
      if skipped_line line then parse_block_lines X ctx ps blocks ls n
      else case parse_one_rule_or_subrule X ctx ps blocks line n of
        (Inl e, n') \<Rightarrow> (Inl e, n')
      | (Inr r, n') \<Rightarrow>
          (case parse_block_lines X ctx ps blocks ls n' of
             (Inl e, n'') \<Rightarrow> (Inl e, n'')
           | (Inr rs, n'') \<Rightarrow> (Inr (r # rs), n'')))"

text \<open>The loop over the order; the code expects each name to be a key of the raw map.\<close>

fun parse_blocks ::
  "ext \<Rightarrow> parser_context \<Rightarrow> providers \<Rightarrow> raw_blocks \<Rightarrow> string list \<Rightarrow> sub_rule_blocks \<Rightarrow> nat \<Rightarrow>
   (config_error + sub_rule_blocks) \<times> nat" where
  "parse_blocks X ctx ps raw [] built n = (Inr built, n)"
| "parse_blocks X ctx ps raw (b # bs) built n =
     (case parse_block_lines X ctx ps built (the (map_of raw b)) n of
        (Inl e, n') \<Rightarrow> (Inl (InBlock b e), n')
      | (Inr rs, n') \<Rightarrow> parse_blocks X ctx ps raw bs ((b, Arc n' rs) # built) (n' + 1))"

definition parse_sub_rules ::
  "ext \<Rightarrow> parser_context \<Rightarrow> providers \<Rightarrow> raw_blocks \<Rightarrow> nat \<Rightarrow> ((config_error + sub_rule_blocks) \<times> nat) option" where
  "parse_sub_rules X ctx ps raw n =
     (case build_reference_graph raw of
        Inl e \<Rightarrow> Some (Inl e, n)
      | Inr graph \<Rightarrow>
          (case topo_order raw graph of
             None \<Rightarrow> None
           | Some (Inl e) \<Rightarrow> Some (Inl e, n)
           | Some (Inr bs) \<Rightarrow> Some (parse_blocks X ctx ps raw bs [] n)))"

subsection \<open>The search returns\<close>

definition fresh_nodes :: "dfs_state \<Rightarrow> string set" where
  "fresh_nodes st = {k. marks st k = Some Fresh}"

lemma dfs_returns:
  "finite (fresh_nodes st) \<Longrightarrow> card (fresh_nodes st) < fuel \<Longrightarrow>
     \<exists>res. dfs fuel graph path node st = Some res \<and> (\<forall>st'. res = Inr st' \<longrightarrow> fresh_nodes st' \<subseteq> fresh_nodes st)"
  "finite (fresh_nodes st) \<Longrightarrow> card (fresh_nodes st) < fuel \<Longrightarrow>
     \<exists>res. dfs_all fuel graph path ns st = Some res \<and> (\<forall>st'. res = Inr st' \<longrightarrow> fresh_nodes st' \<subseteq> fresh_nodes st)"
proof (induction fuel graph path node st and fuel graph path ns st rule: dfs_dfs_all.induct)
  case (2 fuel graph path node st)
  show ?case
  proof (cases "marks st node = Some Fresh")
    case True
    let ?st = "st\<lparr>marks := (marks st)(node \<mapsto> OnStack)\<rparr>"
    have fr: "fresh_nodes ?st = fresh_nodes st - {node}" by (auto simp: fresh_nodes_def)
    have node: "node \<in> fresh_nodes st" using True by (simp add: fresh_nodes_def)
    then have "card (fresh_nodes ?st) < fuel"
      using 2(2,3) card_Diff1_less [OF 2(2) node] unfolding fr by simp
    then obtain res where res: "dfs_all fuel graph (path @ [node]) (neighbours graph node) ?st = Some res"
        "\<And>st'. res = Inr st' \<Longrightarrow> fresh_nodes st' \<subseteq> fresh_nodes ?st"
      using 2(1) [OF True refl] 2(2) fr by fastforce
    show ?thesis
    proof (cases res)
      case (Inr st')
      have "fresh_nodes (st'\<lparr>marks := (marks st')(node \<mapsto> Done), finished := finished st' @ [node]\<rparr>) \<subseteq> fresh_nodes st"
        using res(2) [OF Inr] by (auto simp: fresh_nodes_def split: if_splits)
      with True res(1) Inr show ?thesis by simp
    qed (use True res(1) in simp)
  next
    case False
    then show ?thesis by (auto split: option.split mark.split)
  qed
next
  case (4 fuel graph path nxt ns st)
  then obtain res where res: "dfs fuel graph path nxt st = Some res"
      "\<And>st'. res = Inr st' \<Longrightarrow> fresh_nodes st' \<subseteq> fresh_nodes st"
    by fastforce
  show ?case
  proof (cases res)
    case (Inr st')
    then have sub: "fresh_nodes st' \<subseteq> fresh_nodes st" using res(2) by simp
    then have "finite (fresh_nodes st')" "card (fresh_nodes st') < fuel"
      using 4(3,4) finite_subset card_mono [OF 4(3) sub] by auto
    from 4(2) [OF res(1) Inr this] res(1) Inr sub show ?thesis by fastforce
  qed (use res(1) in simp)
qed auto

subsection \<open>The order is topological, and a reported cycle is one\<close>

fun chain :: "(string \<times> string list) list \<Rightarrow> string list \<Rightarrow> bool" where
  "chain g (x # y # zs) \<longleftrightarrow> y \<in> set (neighbours g x) \<and> chain g (y # zs)"
| "chain g _ \<longleftrightarrow> True"

definition is_cycle :: "(string \<times> string list) list \<Rightarrow> string list \<Rightarrow> bool" where
  "is_cycle g p \<longleftrightarrow> chain g p \<and> p \<noteq> [] \<and> last p \<in> set (butlast p)"

text \<open>Every name comes after all the names it refers to.\<close>

fun topo_sorted :: "(string \<times> string list) list \<Rightarrow> string list \<Rightarrow> string list \<Rightarrow> bool" where
  "topo_sorted g seen [] \<longleftrightarrow> True"
| "topo_sorted g seen (x # xs) \<longleftrightarrow> set (neighbours g x) \<subseteq> set seen \<and> topo_sorted g (x # seen) xs"

lemma topo_sorted_snoc:
  "topo_sorted g seen (xs @ [x]) \<longleftrightarrow> topo_sorted g seen xs \<and> set (neighbours g x) \<subseteq> set seen \<union> set xs"
  by (induction g seen xs rule: topo_sorted.induct) auto

lemma chain_snoc: "chain g (p @ [x, y]) \<longleftrightarrow> chain g (p @ [x]) \<and> y \<in> set (neighbours g x)"
  by (induction g p rule: chain.induct) (auto simp: append_eq_Cons_conv)

definition search_ok :: "(string \<times> string list) list \<Rightarrow> string set \<Rightarrow> string list \<Rightarrow> dfs_state \<Rightarrow> bool" where
  "search_ok g K path st \<longleftrightarrow>
     dom (marks st) = K \<and> (\<forall>k. k \<in> set path \<longleftrightarrow> marks st k = Some OnStack) \<and>
     (\<forall>k. k \<in> set (finished st) \<longleftrightarrow> marks st k = Some Done) \<and> distinct (finished st) \<and> topo_sorted g [] (finished st)"

lemma search_ok_push:
  "search_ok g K path st \<Longrightarrow> marks st node = Some Fresh \<Longrightarrow>
     search_ok g K (path @ [node]) (st\<lparr>marks := (marks st)(node \<mapsto> OnStack)\<rparr>)"
  by (auto simp: search_ok_def dom_def)

lemma search_ok_pop:
  assumes "search_ok g K (path @ [node]) st" "node \<notin> set path" "set (neighbours g node) \<subseteq> set (finished st)"
  shows "search_ok g K path (st\<lparr>marks := (marks st)(node \<mapsto> Done), finished := finished st @ [node]\<rparr>)"
proof -
  have "marks st node = Some OnStack" using assms(1) by (auto simp: search_ok_def)
  with assms show ?thesis by (auto simp: search_ok_def topo_sorted_snoc)
qed

lemma dfs_correct:
  assumes closed: "\<And>k. k \<in> K \<Longrightarrow> set (neighbours graph k) \<subseteq> K"
  shows "search_ok graph K path st \<Longrightarrow> chain graph (path @ [node]) \<Longrightarrow> node \<in> K \<Longrightarrow> dfs fuel graph path node st = Some res \<Longrightarrow>
     (case res of Inl e \<Rightarrow> \<exists>p. e = SubRuleCycle p \<and> is_cycle graph p
      | Inr st' \<Rightarrow> search_ok graph K path st' \<and> insert node (set (finished st)) \<subseteq> set (finished st'))"
    and "search_ok graph K path st \<Longrightarrow> (\<And>x. x \<in> set ns \<Longrightarrow> chain graph (path @ [x]) \<and> x \<in> K) \<Longrightarrow>
     dfs_all fuel graph path ns st = Some res \<Longrightarrow>
     (case res of Inl e \<Rightarrow> \<exists>p. e = SubRuleCycle p \<and> is_cycle graph p
      | Inr st' \<Rightarrow> search_ok graph K path st' \<and> set ns \<union> set (finished st) \<subseteq> set (finished st'))"
  using closed
proof (induction fuel graph path node st and fuel graph path ns st arbitrary: res and res rule: dfs_dfs_all.induct)
  case (2 fuel graph path node st)
  obtain m where m: "marks st node = Some m" using 2(2,4) by (auto simp: search_ok_def)
  show ?case
  proof (cases m)
    case Fresh
    let ?st = "st\<lparr>marks := (marks st)(node \<mapsto> OnStack)\<rparr>"
    obtain res' where res': "dfs_all fuel graph (path @ [node]) (neighbours graph node) ?st = Some res'"
      using 2(5) m Fresh by (auto split: option.splits)
    have fresh: "node \<notin> set path" using 2(2) m Fresh by (auto simp: search_ok_def)
    have IH: "case res' of Inl e \<Rightarrow> \<exists>p. e = SubRuleCycle p \<and> is_cycle graph p
        | Inr st' \<Rightarrow> search_ok graph K (path @ [node]) st' \<and> set (neighbours graph node) \<union> set (finished ?st) \<subseteq> set (finished st')"
      using 2(1) [OF m [unfolded Fresh] refl search_ok_push [OF 2(2) m [unfolded Fresh]] _ res' 2(6)] 2(3) 2(6) [OF 2(4)]
      by (auto simp: chain_snoc)
    show ?thesis
    proof (cases res')
      case (Inl e)
      with IH res' 2(5) m Fresh show ?thesis by auto
    next
      case (Inr st')
      then have "search_ok graph K path (st'\<lparr>marks := (marks st')(node \<mapsto> Done), finished := finished st' @ [node]\<rparr>)"
        using IH fresh by (intro search_ok_pop) auto
      with Inr IH res' 2(5) m Fresh show ?thesis by auto
    qed
  next
    case OnStack
    then have "is_cycle graph (path @ [node])" using 2(2,3) m by (auto simp: is_cycle_def search_ok_def)
    with OnStack m 2(5) show ?thesis by auto
  next
    case Done
    with m 2(2,5) show ?thesis by (auto simp: search_ok_def)
  qed
next
  case (4 fuel graph path nxt ns st)
  obtain res' where res': "dfs fuel graph path nxt st = Some res'" using 4(5) by (auto split: option.splits)
  have first: "case res' of Inl e \<Rightarrow> \<exists>p. e = SubRuleCycle p \<and> is_cycle graph p
      | Inr st' \<Rightarrow> search_ok graph K path st' \<and> insert nxt (set (finished st)) \<subseteq> set (finished st')"
    using 4(1) [OF 4(3) _ _ res' 4(6)] 4(4) by auto
  show ?case
  proof (cases res')
    case (Inl e)
    with first res' 4(5) show ?thesis by auto
  next
    case (Inr st')
    with first have st': "search_ok graph K path st'" "insert nxt (set (finished st)) \<subseteq> set (finished st')" by auto
    from 4(2) [OF res' Inr st'(1) _ _ 4(6), of res] 4(4,5) res' Inr st'(2)
    show ?thesis by (cases res) auto
  qed
qed auto

lemma collect_refs_Inr:
  "collect_refs raw name ls = Inr refs \<longleftrightarrow>
     refs = List.map_filter parse_sub_rule_reference ls \<and> (\<forall>r \<in> set refs. map_of raw r \<noteq> None)"
proof (induction ls arbitrary: refs)
  case (Cons l ls)
  show ?case
  proof (cases "parse_sub_rule_reference l")
    case None
    with Cons show ?thesis by (simp add: List.map_filter_simps)
  next
    case (Some t)
    show ?thesis
    proof (cases "collect_refs raw name ls")
      case (Inl e)
      then have "\<not> (\<forall>r \<in> set (List.map_filter parse_sub_rule_reference ls). map_of raw r \<noteq> None)"
        using Cons by fastforce
      with Some Inl show ?thesis by (auto simp: List.map_filter_simps)
    next
      case (Inr rs)
      then have "rs = List.map_filter parse_sub_rule_reference ls \<and> (\<forall>r \<in> set rs. map_of raw r \<noteq> None)"
        using Cons.IH [of rs] by simp
      with Inr Some show ?thesis by (auto simp: List.map_filter_simps)
    qed
  qed
qed (auto simp: List.map_filter_simps)

lemma reference_graph_loop_Inr:
  "reference_graph_loop raw es = Inr graph \<Longrightarrow>
     graph = map (\<lambda>(name, ls). (name, List.map_filter parse_sub_rule_reference ls)) es \<and>
     (\<forall>(name, refs) \<in> set graph. \<forall>r \<in> set refs. map_of raw r \<noteq> None)"
proof (induction raw es arbitrary: graph rule: reference_graph_loop.induct)
  case (2 raw name ls es)
  then obtain refs g where "collect_refs raw name ls = Inr refs" "reference_graph_loop raw es = Inr g" "graph = (name, refs) # g"
    by (cases "collect_refs raw name ls"; cases "reference_graph_loop raw es") auto
  with 2(1) [of refs g] show ?case by (auto simp: collect_refs_Inr)
qed simp

definition block_refs :: "raw_blocks \<Rightarrow> string \<Rightarrow> string list" where
  "block_refs raw b =
     (case map_of raw b of Some ls \<Rightarrow> List.map_filter parse_sub_rule_reference ls | None \<Rightarrow> [])"

lemma reference_graph:
  assumes "build_reference_graph raw = Inr graph"
  shows "neighbours graph b = block_refs raw b" "r \<in> set (block_refs raw b) \<Longrightarrow> r \<in> fst ` set raw"
proof -
  note g = reference_graph_loop_Inr [OF assms [unfolded build_reference_graph_def]]
  have "map_of graph b = map_option (List.map_filter parse_sub_rule_reference) (map_of raw b)"
    using g by (simp add: map_of_map)
  then show nb: "neighbours graph b = block_refs raw b"
    by (simp add: neighbours_def block_refs_def split: option.split)
  show "r \<in> fst ` set raw" if "r \<in> set (block_refs raw b)"
  proof -
    from that [folded nb] obtain refs where "map_of graph b = Some refs" "r \<in> set refs"
      by (cases "map_of graph b") (auto simp: neighbours_def)
    with g have "map_of raw r \<noteq> None" by (fastforce dest: map_of_SomeD)
    then show ?thesis by (simp add: map_of_eq_None_iff)
  qed
qed

lemma topo_order_cases:
  assumes "build_reference_graph raw = Inr graph"
  obtains bs where "topo_order raw graph = Some (Inr bs)" "distinct bs" "set bs = fst ` set raw" "topo_sorted graph [] bs"
  | p where "topo_order raw graph = Some (Inl (SubRuleCycle p))" "is_cycle graph p"
proof -
  let ?K = "fst ` set raw" and ?st = "dfs_init raw"
  have fresh: "fresh_nodes ?st = ?K" by (auto simp: fresh_nodes_def dfs_init_def map_of_eq_None_iff image_iff)
  have "card ?K < length raw + 1" using card_length [of "map fst raw"] by simp
  then obtain res where res: "dfs_all (length raw + 1) graph [] (sort (map fst raw)) ?st = Some res"
    using dfs_returns(2) [of ?st "length raw + 1" graph "[]" "sort (map fst raw)"] fresh by auto
  have ok: "search_ok graph ?K [] ?st"
    by (auto simp: search_ok_def dfs_init_def dom_def map_of_eq_None_iff)
  have "case res of Inl e \<Rightarrow> \<exists>p. e = SubRuleCycle p \<and> is_cycle graph p
      | Inr st' \<Rightarrow> search_ok graph ?K [] st' \<and> set (sort (map fst raw)) \<union> set (finished ?st) \<subseteq> set (finished st')"
    by (rule dfs_correct(2) [OF _ ok _ res]) (auto simp: reference_graph [OF assms])
  then show ?thesis
  proof (cases res)
    case (Inr st')
    assume "case res of Inl e \<Rightarrow> \<exists>p. e = SubRuleCycle p \<and> is_cycle graph p
      | Inr st' \<Rightarrow> search_ok graph ?K [] st' \<and> set (sort (map fst raw)) \<union> set (finished ?st) \<subseteq> set (finished st')"
    with Inr have st': "search_ok graph ?K [] st'" "?K \<subseteq> set (finished st')" by auto
    moreover have "set (finished st') \<subseteq> dom (marks st')" "dom (marks st') = ?K"
      using st'(1) unfolding search_ok_def by blast+
    ultimately have "set (finished st') = ?K" by blast
    with st' res Inr show ?thesis by (intro that(1) [of "finished st'"]) (auto simp: topo_order_def search_ok_def)
  qed (use res that(2) in \<open>auto simp: topo_order_def\<close>)
qed

lemma chain_suffix: "chain g (u @ w) \<Longrightarrow> chain g w"
proof (induction u)
  case (Cons x u)
  then have "chain g (u @ w)" by (cases "u @ w") auto
  with Cons show ?case by simp
qed simp

lemma topo_sorted_before:
  "topo_sorted g seen (a @ x # b) \<Longrightarrow> set (neighbours g x) \<subseteq> set seen \<union> set a"
  by (induction a arbitrary: seen) fastforce+

text \<open>Along a chain that starts at a name of the order, every later name comes before it.\<close>

lemma topo_chain_before:
  "topo_sorted g [] (a @ x # b) \<Longrightarrow> chain g (x # ys) \<Longrightarrow> set ys \<subseteq> set a"
proof (induction ys arbitrary: a x b)
  case (Cons y ys)
  then have "y \<in> set a" using topo_sorted_before [of g "[]" a x b] by auto
  then obtain a1 a2 where a: "a = a1 @ y # a2" by (meson split_list)
  from Cons.IH [of a1 y "a2 @ x # b"] Cons.prems a have "set ys \<subseteq> set a1" by simp
  with a show ?case by auto
qed simp

lemma topo_no_cycle:
  assumes "topo_sorted g [] bs" "distinct bs" "\<And>x. x \<notin> set bs \<Longrightarrow> neighbours g x = []"
  shows "\<not> is_cycle g p"
proof
  assume "is_cycle g p"
  then have p: "chain g p" "p = butlast p @ [last p]" "last p \<in> set (butlast p)" by (auto simp: is_cycle_def)
  then obtain u v where "butlast p = u @ last p # v" by (meson split_list)
  with p(2) have "p = u @ last p # v @ [last p]" by simp
  with p(1) have c: "chain g (last p # v @ [last p])" using chain_suffix by metis
  then have "neighbours g (last p) \<noteq> []" by (cases v) auto
  then have "last p \<in> set bs" using assms(3) by blast
  then obtain a b where "bs = a @ last p # b" by (meson split_list)
  with topo_chain_before [of g a "last p" b "v @ [last p]"] assms(1,2) c show False by auto
qed

text \<open>
  C27: ordering the sub-rule blocks. The search over the reference graph always returns. If it gives an
  order, that order has every block once, each after the blocks it refers to, and the graph has no
  cycle; otherwise it reports a path of references that ends in one of its own earlier names.
\<close>

theorem topo_order_correct:
  assumes "build_reference_graph raw = Inr graph"
  shows "case topo_order raw graph of
      Some (Inr bs) \<Rightarrow> distinct bs \<and> set bs = fst ` set raw \<and> topo_sorted graph [] bs \<and> (\<nexists>p. is_cycle graph p)
    | Some (Inl (SubRuleCycle p)) \<Rightarrow> is_cycle graph p
    | _ \<Rightarrow> False"
proof (cases rule: topo_order_cases [OF assms])
  case (1 bs)
  have "neighbours graph x = []" if "x \<notin> set bs" for x
    using that 1(3) map_of_eq_None_iff [of raw x] by (auto simp: reference_graph [OF assms] block_refs_def)
  with 1 topo_no_cycle [of graph bs] show ?thesis by simp
next
  case (2 p)
  then show ?thesis by simp
qed

theorem topo_order_correct_witness:
  "topo_order [(''A'', [''SUB-RULE,B'']), (''B'', [''sub-rule , A''])] [(''A'', [''B'']), (''B'', [''A''])] =
     Some (Inl (SubRuleCycle [''A'', ''B'', ''A'']))"
proof -
  have g: "build_reference_graph [(''A'', [''SUB-RULE,B'']), (''B'', [''sub-rule , A''])] =
      Inr [(''A'', [''B'']), (''B'', [''A''])]" by code_simp
  have run: "topo_order [(''A'', [''SUB-RULE,B'']), (''B'', [''sub-rule , A''])] [(''A'', [''B'']), (''B'', [''A''])] =
      Some (Inl (SubRuleCycle [''A'', ''B'', ''A'']))" by code_simp
  have "is_cycle [(''A'', [''B'']), (''B'', [''A''])] [''A'', ''B'', ''A'']"
    using topo_order_correct [OF g] unfolding run by simp
  with run show ?thesis by simp
qed

subsection \<open>Parsing the blocks in order\<close>

lemma reference_trim [simp]: "parse_sub_rule_reference (trim l) = parse_sub_rule_reference l"
  by (simp add: parse_sub_rule_reference_def)

lemma parse_one_undefined:
  assumes "fst (parse_one_rule_or_subrule X ctx ps blocks line n) = Inl (SubRuleNotDefined r)"
  shows "parse_sub_rule_reference line = Some r \<and> r \<notin> fst ` set blocks"
proof -
  have set: "try_parse_rule_set line ps \<noteq> Some (Inl (SubRuleNotDefined r))"
    by (auto simp: try_parse_rule_set_def Let_def split: option.splits list.splits)
  have rule: "map_sum BadRule id res \<noteq> Inl (SubRuleNotDefined r)" for res :: "rule_error + rule"
    by (cases res) auto
  show ?thesis
    using assms set rule
    by (auto simp: parse_one_rule_or_subrule_def build_sub_rule_rule_def map_of_eq_None_iff split: option.splits prod.splits)
qed

lemma parse_block_lines_defined:
  "set (List.map_filter parse_sub_rule_reference ls) \<subseteq> fst ` set blocks \<Longrightarrow>
     fst (parse_block_lines X ctx ps blocks ls n) \<noteq> Inl (SubRuleNotDefined r)"
proof (induction ls arbitrary: n)
  case (Cons l ls)
  obtain res n' where one: "parse_one_rule_or_subrule X ctx ps blocks (trim l) n = (res, n')" by fastforce
  have sub: "set (List.map_filter parse_sub_rule_reference ls) \<subseteq> fst ` set blocks"
    using Cons.prems by (auto simp: List.map_filter_simps split: option.splits)
  have "res \<noteq> Inl (SubRuleNotDefined r)"
  proof
    assume "res = Inl (SubRuleNotDefined r)"
    then have "parse_sub_rule_reference l = Some r \<and> r \<notin> fst ` set blocks"
      using parse_one_undefined [of X ctx ps blocks "trim l" n r] one by simp
    with Cons.prems show False by (simp add: List.map_filter_simps)
  qed
  then show ?case using Cons.IH [OF sub] one
    by (cases res; cases "parse_block_lines X ctx ps blocks ls n'"; cases "fst (parse_block_lines X ctx ps blocks ls n')")
      (auto simp: Let_def, metis fst_conv)
qed simp

definition blocks_ok :: "raw_blocks \<Rightarrow> config_error + sub_rule_blocks \<Rightarrow> bool" where
  "blocks_ok raw res =
     (case res of
        Inl (InBlock _ (SubRuleNotDefined _)) \<Rightarrow> False
      | Inl (BlockNotDefined _) \<Rightarrow> False
      | Inl _ \<Rightarrow> True
      | Inr blocks \<Rightarrow> fst ` set blocks = fst ` set raw)"

lemma parse_blocks_ok:
  "topo_sorted graph (map fst built) bs \<Longrightarrow> (\<And>b. neighbours graph b = block_refs raw b) \<Longrightarrow>
     set bs \<union> fst ` set built = fst ` set raw \<Longrightarrow> blocks_ok raw (fst (parse_blocks X ctx ps raw bs built n))"
proof (induction bs arbitrary: built n)
  case (Cons b bs)
  obtain res n' where lines: "parse_block_lines X ctx ps built (the (map_of raw b)) n = (res, n')" by fastforce
  have "b \<in> fst ` set raw" using Cons.prems(3) by auto
  then obtain ls where ls: "map_of raw b = Some ls" using map_of_eq_None_iff [of raw b] by fastforce
  then have "set (List.map_filter parse_sub_rule_reference ls) \<subseteq> fst ` set built"
    using Cons.prems(1,2) by (simp add: block_refs_def)
  then have "res \<noteq> Inl (SubRuleNotDefined r)" for r
    using parse_block_lines_defined [of ls built X ctx ps n r] lines ls by simp
  moreover have "blocks_ok raw (fst (parse_blocks X ctx ps raw bs ((b, Arc n' rs) # built) (n' + 1)))" for rs
    using Cons.prems by (intro Cons.IH) auto
  ultimately show ?case
    by (cases res) (auto simp: lines blocks_ok_def split: config_error.split)
qed (simp add: blocks_ok_def)

text \<open>
  C28: parsing the sub-rule blocks. It always returns. An error is never that of a reference to a block
  that is not there yet: the blocks are parsed in an order in which every reference is to a finished
  block. Without an error there is a parsed block for every block of the configuration.
\<close>

theorem parse_sub_rules_ok:
  "case parse_sub_rules X ctx ps raw n of None \<Rightarrow> False | Some (res, n') \<Rightarrow> blocks_ok raw res"
proof (cases "build_reference_graph raw")
  case (Inl e)
  have loop: "collect_refs raw name ls = Inl e \<Longrightarrow> \<exists>a b. e = UndefinedReference a b" for name ls e
  proof (induction ls)
    case (Cons l ls)
    then show ?case by (cases "collect_refs raw name ls") (auto split: option.splits if_splits)
  qed simp
  have "reference_graph_loop raw es = Inl e \<Longrightarrow> \<exists>a b. e = UndefinedReference a b" for es
  proof (induction es)
    case (Cons x es)
    then show ?case by (cases x; cases "reference_graph_loop raw es") (auto split: sum.splits dest: loop)
  qed simp
  from this [of raw] Inl obtain a b where "e = UndefinedReference a b" by (auto simp: build_reference_graph_def)
  with Inl show ?thesis by (simp add: parse_sub_rules_def blocks_ok_def)
next
  case (Inr graph)
  show ?thesis
  proof (cases rule: topo_order_cases [OF Inr])
    case (1 bs)
    then have "blocks_ok raw (fst (parse_blocks X ctx ps raw bs [] n))"
      by (intro parse_blocks_ok [of graph]) (auto simp: reference_graph [OF Inr])
    with 1 Inr show ?thesis by (auto simp: parse_sub_rules_def split: prod.split)
  next
    case (2 p)
    with Inr show ?thesis by (simp add: parse_sub_rules_def blocks_ok_def)
  qed
qed

subsection \<open>Rules of a configuration\<close>

definition providers_ok :: "providers \<Rightarrow> bool" where
  "providers_ok ps \<longleftrightarrow> list_all (\<lambda>(_, a). list_all (\<lambda>(_, b). same_value a b) ps) ps"

text \<open>A rule of the \<open>rules:\<close> block: one with the handles of a parsed line, or with a provider's rule set.\<close>

definition config_handles :: "parser_context \<Rightarrow> providers \<Rightarrow> nat \<Rightarrow> nat \<Rightarrow> rule \<Rightarrow> bool" where
  "config_handles ctx ps lo hi r \<longleftrightarrow>
     handles_from ctx lo hi r \<or>
     (db_handle r = None \<and> range_handles r = None \<and> (\<exists>a. set_handle r = Some a \<and> a \<in> snd ` set ps))"

lemma config_handles_same:
  assumes "ctx_ok ctx lo" "providers_ok ps" "config_handles ctx ps lo hi r1" "config_handles ctx ps lo hi r2"
  shows "same_arcs r1 r2"
proof -
  have "same_value a b" if "a \<in> snd ` set ps" "b \<in> snd ` set ps" for a b
    using that assms(2) by (fastforce simp: providers_ok_def list_all_iff)
  then have sets: "same_arcs r1 r2" if "set_handle r1 = Some a" "set_handle r2 = Some b" "a \<in> snd ` set ps" "b \<in> snd ` set ps"
      "db_handle r1 = None" "range_handles r1 = None" for a b
    using that by (simp add: same_arcs_def)
  have mixed: "same_arcs r1 r2" if "set_handle r1 = None \<or> set_handle r2 = None" "db_handle r1 = None \<or> db_handle r2 = None"
      "range_handles r1 = None \<or> range_handles r2 = None"
    using that by (auto simp: same_arcs_def split: option.split)
  from assms(3,4) show ?thesis
    unfolding config_handles_def
    by (elim disjE) (auto intro: handles_from_same [OF assms(1)] mixed sets simp: handles_from_def)
qed

lemma parse_one_handles:
  assumes "parse_one_rule_or_subrule X ctx ps blocks line n = (res, n')" "is_ascii line"
  shows "n \<le> n' \<and> (case res of Inl _ \<Rightarrow> True | Inr r \<Rightarrow> wf_rule X r \<and> config_handles ctx ps n n' r)"
proof (cases "try_parse_rule_set line ps")
  case (Some result)
  then have "case result of Inl _ \<Rightarrow> True | Inr r \<Rightarrow> wf_rule X r \<and> config_handles ctx ps n n' r"
    by (auto simp: try_parse_rule_set_def rule_set_new_def config_handles_def Let_def
        split: option.splits list.splits if_splits dest: map_of_snd)
  with Some assms(1) show ?thesis by (simp add: parse_one_rule_or_subrule_def)
next
  case None
  show ?thesis
  proof (cases "parse_sub_rule_reference line")
    case (Some b)
    with None assms(1) show ?thesis
      by (auto simp: parse_one_rule_or_subrule_def build_sub_rule_rule_def sub_rule_new_def config_handles_def
          handles_from_def split: option.splits)
  next
    case sub: None
    obtain res' where r: "parse_rule X ctx line n = (res', n')" "res = map_sum BadRule id res'"
      using assms(1) None sub by (auto simp: parse_one_rule_or_subrule_def split: prod.splits)
    with parse_wf(1) [OF assms(2), of X ctx n] parse_handles(1) [of ctx n X line] show ?thesis
      by (cases res') (simp_all add: config_handles_def)
  qed
qed

lemma config_handles_mono: "config_handles ctx ps lo hi r \<Longrightarrow> lo' \<le> lo \<Longrightarrow> hi \<le> hi' \<Longrightarrow> config_handles ctx ps lo' hi' r"
  using handles_from_mono by (auto simp: config_handles_def)

lemma parse_rules_full_handles:
  "list_all is_ascii ls \<Longrightarrow> parse_rules_full X ctx ps blocks ls n = (rs, n') \<Longrightarrow>
     n \<le> n' \<and> list_all (\<lambda>r. wf_rule X r \<and> config_handles ctx ps n n' r) rs"
proof (induction ls arbitrary: n rs n')
  case (Cons l ls)
  show ?case
  proof (cases "skipped_line (trim l)")
    case False
    obtain res k where one: "parse_one_rule_or_subrule X ctx ps blocks (trim l) n = (res, k)" by fastforce
    obtain rs' k' where rest: "parse_rules_full X ctx ps blocks ls k = (rs', k')" by fastforce
    have "is_ascii (trim l)" using Cons.prems(1) set_trim by (auto intro: is_ascii_subset)
    note h = parse_one_handles [OF one this]
    have k': "k' = n'" and rs: "rs = (case res of Inr r \<Rightarrow> r # rs' | Inl _ \<Rightarrow> rs')"
      using Cons.prems(2) one rest False by (auto simp: Let_def)
    have IH: "k \<le> n'" "\<And>r. r \<in> set rs' \<Longrightarrow> wf_rule X r \<and> config_handles ctx ps k n' r"
      using Cons.IH [OF _ rest] Cons.prems(1) k' by (auto simp: list_all_iff)
    then have "wf_rule X r \<and> config_handles ctx ps n n' r" if "r \<in> set rs'" for r
      using that h config_handles_mono [of ctx ps k n' r n n'] by auto
    with h IH(1) rs config_handles_mono [of ctx ps n k _ n n'] show ?thesis
      by (cases res) (auto simp: list_all_iff)
  qed (use Cons in simp)
qed simp

end
