(* ===== verification/Bytes.thy ===== *)
theory Bytes
  imports Prelude "HOL-Library.Word"
begin

text \<open>
  Bytes and readers. A byte is an \<open>8 word\<close>; Rust strings made from bytes are lists of characters with
  the bytes' codes, and \<open>utf8_ok\<close> is the standard library's validity check. The locale \<open>codec\<close> is the
  contract of a reader with its writer: reading what was written, followed by anything, gives back the
  value and leaves the rest. It is proved once that it carries over to counted and length-prefixed
  sequences.
\<close>

unbundle bit_operations_syntax

type_synonym byte = "8 word"

lemma byte_less: "unat (b :: byte) < 256"
  using unsigned_less [where w = b, where 'a = nat] by simp

definition bytes_of :: "string \<Rightarrow> byte list" where
  "bytes_of s = map (\<lambda>c. of_nat (of_char c)) s"

definition str_of :: "byte list \<Rightarrow> string" where
  "str_of bs = map (\<lambda>b. char_of (unat b)) bs"

lemma str_of_bytes_of [simp]: "str_of (bytes_of s) = s"
proof -
  have "unat (of_nat (of_char c) :: byte) = of_char c" for c :: char
    using nat_of_char_less_256 [of c] by (simp add: unat_of_nat take_bit_nat_eq_self)
  then show ?thesis by (simp add: str_of_def bytes_of_def comp_def)
qed

lemma bytes_of_str_of [simp]: "bytes_of (str_of bs) = bs"
proof -
  have "of_nat (of_char (char_of (unat b) :: char)) = b" for b :: byte
    using byte_less [of b] by (simp add: of_char_of)
  then show ?thesis by (simp add: str_of_def bytes_of_def comp_def)
qed

lemma length_bytes_of [simp]: "length (bytes_of s) = length s"
  by (simp add: bytes_of_def)

subsection \<open>UTF-8\<close>

definition cont_byte :: "byte \<Rightarrow> bool" where
  "cont_byte b \<longleftrightarrow> 0x80 \<le> b \<and> b \<le> 0xBF"

fun utf8_ok :: "byte list \<Rightarrow> bool" where
  "utf8_ok [] = True"
| "utf8_ok (a # bs) =
     (if a < 0x80 then utf8_ok bs
      else if 0xC2 \<le> a \<and> a \<le> 0xDF then (case bs of b # bs' \<Rightarrow> cont_byte b \<and> utf8_ok bs' | _ \<Rightarrow> False)
      else if 0xE0 \<le> a \<and> a \<le> 0xEF then
        (case bs of
           b # c # bs' \<Rightarrow>
             cont_byte b \<and> cont_byte c \<and> (if a = 0xE0 then 0xA0 \<le> b else True) \<and> (if a = 0xED then b \<le> 0x9F else True) \<and>
             utf8_ok bs'
         | _ \<Rightarrow> False)
      else if 0xF0 \<le> a \<and> a \<le> 0xF4 then
        (case bs of
           b # c # d # bs' \<Rightarrow>
             cont_byte b \<and> cont_byte c \<and> cont_byte d \<and> (if a = 0xF0 then 0x90 \<le> b else True) \<and>
             (if a = 0xF4 then b \<le> 0x8F else True) \<and> utf8_ok bs'
         | _ \<Rightarrow> False)
      else False)"

lemma utf8_ok_ascii: "list_all (\<lambda>b. b < 0x80) bs \<Longrightarrow> utf8_ok bs"
  by (induction bs) auto

lemma utf8_ok_ascii_string: "is_ascii s \<Longrightarrow> utf8_ok (bytes_of s)"
proof (rule utf8_ok_ascii)
  assume "is_ascii s"
  moreover have "(of_nat n :: byte) < 0x80" if "n < 128" for n
    using that by (simp add: word_less_nat_alt unat_of_nat take_bit_nat_eq_self)
  ultimately show "list_all (\<lambda>b. b < 0x80) (bytes_of s)"
    by (auto simp: is_ascii_def bytes_of_def list_all_iff)
qed

subsection \<open>Big-endian numbers\<close>

definition be_val :: "byte list \<Rightarrow> nat" where
  "be_val bs = foldl (\<lambda>n b. 256 * n + unat b) 0 bs"

fun be_bytes :: "nat \<Rightarrow> nat \<Rightarrow> byte list" where
  "be_bytes 0 v = []"
| "be_bytes (Suc k) v = be_bytes k (v div 256) @ [of_nat (v mod 256)]"

lemma length_be_bytes [simp]: "length (be_bytes k v) = k"
  by (induction k arbitrary: v) auto

lemma be_val_snoc: "be_val (bs @ [b]) = 256 * be_val bs + unat b"
  by (simp add: be_val_def)

lemma be_val_bytes: "be_val (be_bytes k v) = v mod 256 ^ k"
proof (induction k arbitrary: v)
  case (Suc k)
  have "unat (of_nat (v mod 256) :: byte) = v mod 256"
    by (simp add: unat_of_nat take_bit_eq_mod)
  then show ?case
    using Suc mod_mult2_eq [of v 256 "256 ^ k"] by (simp add: be_val_snoc)
qed (simp add: be_val_def)

lemma be_val_less: "be_val bs < 256 ^ length bs"
proof (induction bs rule: rev_induct)
  case (snoc b bs)
  have "unat b < 256" using byte_less [of b] by simp
  with snoc show ?case by (simp add: be_val_snoc)
qed (simp add: be_val_def)

lemma be_bytes_val: "be_bytes (length bs) (be_val bs) = bs"
proof (induction bs rule: rev_induct)
  case (snoc b bs)
  have "unat b < 256" using byte_less [of b] by simp
  then have "(256 * be_val bs + unat b) div 256 = be_val bs" "(256 * be_val bs + unat b) mod 256 = unat b" by simp_all
  with snoc show ?case by (simp add: be_val_snoc)
qed simp

text \<open>The value of eight bytes as an \<open>i64\<close>.\<close>

definition i64_of :: "byte list \<Rightarrow> int" where
  "i64_of bs = sint (of_nat (be_val bs) :: 64 word)"

subsection \<open>Readers\<close>

record byte_reader =
  rd_pos :: nat
  rd_rest :: "byte list"

definition reader_new :: "byte list \<Rightarrow> byte_reader" where
  "reader_new data = \<lparr>rd_pos = 0, rd_rest = data\<rparr>"

definition and_then :: "'e + 'a \<Rightarrow> ('a \<Rightarrow> 'e + 'b) \<Rightarrow> 'e + 'b" where
  "and_then x f = (case x of Inl e \<Rightarrow> Inl e | Inr a \<Rightarrow> f a)"

lemma and_then_simps [simp]: "and_then (Inl e) f = Inl e" "and_then (Inr a) f = f a"
  by (simp_all add: and_then_def)

lemma and_then_cong [fundef_cong]: "x = y \<Longrightarrow> (\<And>a. y = Inr a \<Longrightarrow> f a = g a) \<Longrightarrow> and_then x f = and_then y g"
  by (cases y) simp_all

lemma and_then_Inr: "and_then x f = Inr b \<longleftrightarrow> (\<exists>a. x = Inr a \<and> f a = Inr b)"
  by (cases x) auto

text \<open>Reading a number of values one after the other.\<close>

fun read_times :: "nat \<Rightarrow> (byte_reader \<Rightarrow> 'e + ('a \<times> byte_reader)) \<Rightarrow> byte_reader \<Rightarrow> 'e + ('a list \<times> byte_reader)" where
  "read_times 0 rd r = Inr ([], r)"
| "read_times (Suc n) rd r =
     and_then (rd r) (\<lambda>(x, r'). and_then (read_times n rd r') (\<lambda>(xs, r''). Inr (x # xs, r'')))"

subsection \<open>The contract of a reader and its writer\<close>

locale codec =
  fixes enc :: "'a \<Rightarrow> byte list" and dec :: "byte_reader \<Rightarrow> 'e + ('b \<times> byte_reader)"
    and good :: "'a \<Rightarrow> bool" and val :: "'a \<Rightarrow> 'b"
  assumes dec_enc: "good x \<Longrightarrow> dec \<lparr>rd_pos = p, rd_rest = enc x @ rest\<rparr> =
    Inr (val x, \<lparr>rd_pos = p + length (enc x), rd_rest = rest\<rparr>)"
begin

lemma read_times_enc:
  "list_all good xs \<Longrightarrow> read_times (length xs) dec \<lparr>rd_pos = p, rd_rest = concat (map enc xs) @ rest\<rparr> =
     Inr (map val xs, \<lparr>rd_pos = p + length (concat (map enc xs)), rd_rest = rest\<rparr>)"
  by (induction xs arbitrary: p) (simp_all add: dec_enc add.assoc)

lemma dec_new: "good x \<Longrightarrow> dec (reader_new (enc x @ rest)) = Inr (val x, \<lparr>rd_pos = length (enc x), rd_rest = rest\<rparr>)"
  using dec_enc [of x 0 rest] by (simp add: reader_new_def)

end

end
