(* ===== verification/MrsParser.thy ===== *)
theory MrsParser
  imports Bytes
begin

text \<open>
  The binary formats of \<open>meow-rules/src/mrs_parser.rs\<close>: the header, the geosite payload with its
  encoder, and the fields of the rule-set file. zstd is a third-party crate: decompression and
  compression are arguments. \<open>Vec::with_capacity\<close> panics when the bytes asked for exceed the
  address space, which is the error \<open>CapacityOverflow\<close>. The encoder and the reader of strings and of
  categories are instances of the codec contract, which gives the round trip of whole payloads.
\<close>

datatype mrs_error =
    WrongFormat | UnsupportedVersion byte | UnsupportedType byte | InvalidBehavior byte | InvalidReservedLength int
  | Truncated string nat nat nat | ZstdFailed | InvalidUtf8 string | InvalidDomainSetVersion byte
  | InvalidIpCidrSetVersion byte | InvalidLength string int | CapacityOverflow string

definition mrs_magic :: "byte list" where
  "mrs_magic = bytes_of ''MRS!''"

definition upstream_mrs_magic :: "byte list" where
  "upstream_mrs_magic = bytes_of ''MRS'' @ [1]"

definition zstd_magic :: "byte list" where
  "zstd_magic = [0x28, 0xB5, 0x2F, 0xFD]"

definition mrs_version :: byte where
  "mrs_version = 1"

definition type_domain :: byte where
  "type_domain = 0"

definition type_ipcidr :: byte where
  "type_ipcidr = 1"

definition type_classical :: byte where
  "type_classical = 2"

record mrs_header =
  hdr_version :: byte
  hdr_type_tag :: byte
  hdr_count :: nat

definition parse_header :: "byte list \<Rightarrow> mrs_error + (mrs_header \<times> byte list)" where
  "parse_header data =
     (if length data < 4 then Inl WrongFormat
      else if take 4 data \<noteq> mrs_magic then Inl WrongFormat
      else if length data < 10 then Inl (Truncated ''header'' 4 6 (length data - 4))
      else if data ! 4 \<noteq> mrs_version then Inl (UnsupportedVersion (data ! 4))
      else Inr (\<lparr>hdr_version = data ! 4, hdr_type_tag = data ! 5, hdr_count = be_val (take 4 (drop 6 data))\<rparr>,
                drop 10 data))"

definition decompress_payload :: "(byte list \<Rightarrow> byte list option) \<Rightarrow> byte list \<Rightarrow> mrs_error + byte list" where
  "decompress_payload unzstd compressed =
     (case unzstd compressed of None \<Rightarrow> Inl ZstdFailed | Some out \<Rightarrow> Inr out)"

subsection \<open>Fields\<close>

definition read_slice :: "string \<Rightarrow> nat \<Rightarrow> byte_reader \<Rightarrow> mrs_error + (byte list \<times> byte_reader)" where
  "read_slice what n r =
     (if n > length (rd_rest r) then Inl (Truncated what (rd_pos r) n (length (rd_rest r)))
      else Inr (take n (rd_rest r), \<lparr>rd_pos = rd_pos r + n, rd_rest = drop n (rd_rest r)\<rparr>))"

definition read_u8 :: "string \<Rightarrow> byte_reader \<Rightarrow> mrs_error + (byte \<times> byte_reader)" where
  "read_u8 what r = and_then (read_slice what 1 r) (\<lambda>(bs, r'). Inr (hd bs, r'))"

definition read_u16_be :: "string \<Rightarrow> byte_reader \<Rightarrow> mrs_error + (nat \<times> byte_reader)" where
  "read_u16_be what r = and_then (read_slice what 2 r) (\<lambda>(bs, r'). Inr (be_val bs, r'))"

definition read_u32_be :: "string \<Rightarrow> byte_reader \<Rightarrow> mrs_error + (nat \<times> byte_reader)" where
  "read_u32_be what r = and_then (read_slice what 4 r) (\<lambda>(bs, r'). Inr (be_val bs, r'))"

definition read_u64_be :: "string \<Rightarrow> byte_reader \<Rightarrow> mrs_error + (64 word \<times> byte_reader)" where
  "read_u64_be what r = and_then (read_slice what 8 r) (\<lambda>(bs, r'). Inr (of_nat (be_val bs), r'))"

definition read_i64_be :: "string \<Rightarrow> byte_reader \<Rightarrow> mrs_error + (int \<times> byte_reader)" where
  "read_i64_be what r = and_then (read_slice what 8 r) (\<lambda>(bs, r'). Inr (i64_of bs, r'))"

subsection \<open>The geosite payload\<close>

text \<open>A string with a 16-bit length, checked and lowered; the two fields have their own names in errors.\<close>

definition read_lower_string :: "string \<Rightarrow> string \<Rightarrow> byte_reader \<Rightarrow> mrs_error + (string \<times> byte_reader)" where
  "read_lower_string what_len what r =
     and_then (read_u16_be what_len r) (\<lambda>(len, r1).
     and_then (read_slice what len r1) (\<lambda>(bs, r2).
       if utf8_ok bs then Inr (to_ascii_lowercase (str_of bs), r2) else Inl (InvalidUtf8 what)))"

definition skip_domain :: "byte_reader \<Rightarrow> mrs_error + (unit \<times> byte_reader)" where
  "skip_domain r =
     and_then (read_u16_be ''domain_len'' r) (\<lambda>(len, r1).
     and_then (read_slice ''domain'' len r1) (\<lambda>(_, r2). Inr ((), r2)))"

text \<open>One turn of the loop over the categories; \<open>None\<close> for a category that is skipped.\<close>

definition read_category ::
  "string list option \<Rightarrow> byte_reader \<Rightarrow> mrs_error + ((string \<times> string list) option \<times> byte_reader)" where
  "read_category allowed r =
     and_then (read_lower_string ''category_name_len'' ''category_name'' r) (\<lambda>(name, r1).
     and_then (read_u32_be ''domain_count'' r1) (\<lambda>(dom_count, r2).
       if (case allowed of None \<Rightarrow> False | Some cats \<Rightarrow> name \<notin> set cats)
       then and_then (read_times dom_count skip_domain r2) (\<lambda>(_, r3). Inr (None, r3))
       else and_then (read_times dom_count (read_lower_string ''domain_len'' ''domain'') r2)
              (\<lambda>(domains, r3). Inr (Some (name, domains), r3))))"

definition parse_geosite_payload ::
  "byte list \<Rightarrow> string list option \<Rightarrow> mrs_error + (string \<times> string list) list" where
  "parse_geosite_payload decompressed allowed =
     and_then (read_u32_be ''category_count'' (reader_new decompressed)) (\<lambda>(cat_count, r1).
     and_then (read_times cat_count (read_category allowed) r1) (\<lambda>(cats, _).
       Inr (List.map_filter (\<lambda>c. c) cats)))"

definition enc_string :: "string \<Rightarrow> byte list" where
  "enc_string s = be_bytes 2 (length s) @ bytes_of s"

definition enc_category :: "string \<times> string list \<Rightarrow> byte list" where
  "enc_category c = enc_string (fst c) @ be_bytes 4 (length (snd c)) @ concat (map enc_string (snd c))"

definition encode_geosite_payload :: "(string \<times> string list) list \<Rightarrow> byte list" where
  "encode_geosite_payload cats = be_bytes 4 (length cats) @ concat (map enc_category cats)"

definition mrs_file :: "byte \<Rightarrow> nat \<Rightarrow> byte list \<Rightarrow> byte list" where
  "mrs_file type_tag count compressed = mrs_magic @ [mrs_version, type_tag] @ be_bytes 4 count @ compressed"

definition write_geosite_mrs ::
  "(byte list \<Rightarrow> byte list option) \<Rightarrow> (string \<times> string list) list \<Rightarrow> mrs_error + byte list" where
  "write_geosite_mrs zstd cats =
     (case zstd (encode_geosite_payload cats) of
        None \<Rightarrow> Inl ZstdFailed
      | Some compressed \<Rightarrow> Inr (mrs_file type_domain (length cats) compressed))"

definition write_ruleset_mrs ::
  "(byte list \<Rightarrow> byte list option) \<Rightarrow> byte \<Rightarrow> string list \<Rightarrow> mrs_error + byte list" where
  "write_ruleset_mrs zstd type_tag entries =
     (case zstd (concat (map enc_string entries)) of
        None \<Rightarrow> Inl ZstdFailed
      | Some compressed \<Rightarrow> Inr (mrs_file type_tag (length entries) compressed))"

subsection \<open>Reading back\<close>

lemma read_slice_append:
  "read_slice what (length bs) \<lparr>rd_pos = p, rd_rest = bs @ rest\<rparr> = Inr (bs, \<lparr>rd_pos = p + length bs, rd_rest = rest\<rparr>)"
  by (simp add: read_slice_def)

lemma read_numbers:
  "v < 2 ^ 16 \<Longrightarrow> read_u16_be what \<lparr>rd_pos = p, rd_rest = be_bytes 2 v @ rest\<rparr> = Inr (v, \<lparr>rd_pos = p + 2, rd_rest = rest\<rparr>)"
  "w < 2 ^ 32 \<Longrightarrow> read_u32_be what \<lparr>rd_pos = p, rd_rest = be_bytes 4 w @ rest\<rparr> = Inr (w, \<lparr>rd_pos = p + 4, rd_rest = rest\<rparr>)"
  using read_slice_append [of what "be_bytes 2 v" p rest] read_slice_append [of what "be_bytes 4 w" p rest]
  by (simp_all add: read_u16_be_def read_u32_be_def be_val_bytes)

definition good_string :: "string \<Rightarrow> bool" where
  "good_string s \<longleftrightarrow> length s < 2 ^ 16 \<and> utf8_ok (bytes_of s)"

definition good_category :: "string \<times> string list \<Rightarrow> bool" where
  "good_category c \<longleftrightarrow> good_string (fst c) \<and> length (snd c) < 2 ^ 32 \<and> list_all good_string (snd c)"

definition lower_category :: "string \<times> string list \<Rightarrow> string \<times> string list" where
  "lower_category c = (to_ascii_lowercase (fst c), map to_ascii_lowercase (snd c))"

definition allowed_category :: "string list option \<Rightarrow> string \<times> string list \<Rightarrow> (string \<times> string list) option" where
  "allowed_category allowed c =
     (case allowed of
        None \<Rightarrow> Some c
      | Some cats \<Rightarrow> if fst c \<in> set cats then Some c else None)"

interpretation string_codec: codec enc_string "read_lower_string what_len what" good_string to_ascii_lowercase
  for what_len what
proof
  fix s p rest
  assume "good_string s"
  then show "read_lower_string what_len what \<lparr>rd_pos = p, rd_rest = enc_string s @ rest\<rparr> =
      Inr (to_ascii_lowercase s, \<lparr>rd_pos = p + length (enc_string s), rd_rest = rest\<rparr>)"
    using read_slice_append [of what "bytes_of s" "p + 2" rest]
    by (simp add: read_lower_string_def enc_string_def good_string_def read_numbers)
qed

interpretation skip_codec: codec enc_string skip_domain good_string "\<lambda>_. ()"
proof
  fix s p rest
  assume "good_string s"
  then show "skip_domain \<lparr>rd_pos = p, rd_rest = enc_string s @ rest\<rparr> =
      Inr ((), \<lparr>rd_pos = p + length (enc_string s), rd_rest = rest\<rparr>)"
    using read_slice_append [of "''domain''" "bytes_of s" "p + 2" rest]
    by (simp add: skip_domain_def enc_string_def good_string_def read_numbers)
qed

interpretation category_codec: codec enc_category "read_category allowed" good_category
  "\<lambda>c. allowed_category allowed (lower_category c)" for allowed
proof
  fix c p rest
  assume good: "good_category c"
  let ?name = "to_ascii_lowercase (fst c)" and ?ds = "concat (map enc_string (snd c))"
  let ?p = "p + length (enc_string (fst c)) + 4"
  note name = string_codec.dec_enc [of "fst c" "''category_name_len''" "''category_name''" p "be_bytes 4 (length (snd c)) @ ?ds @ rest"]
  note ds = string_codec.read_times_enc [of "snd c" "''domain_len''" "''domain''" ?p rest]
  note skip = skip_codec.read_times_enc [of "snd c" ?p rest]
  show "read_category allowed \<lparr>rd_pos = p, rd_rest = enc_category c @ rest\<rparr> =
      Inr (allowed_category allowed (lower_category c), \<lparr>rd_pos = p + length (enc_category c), rd_rest = rest\<rparr>)"
    using good name ds skip
    by (auto simp: read_category_def enc_category_def good_category_def read_numbers allowed_category_def
        lower_category_def add.assoc split: option.split)
qed

lemma parse_geosite_encode:
  assumes "list_all good_category cats" "length cats < 2 ^ 32"
  shows "parse_geosite_payload (encode_geosite_payload cats) allowed =
    Inr (List.map_filter (allowed_category allowed) (map lower_category cats))"
proof -
  have "read_times (length cats) (read_category allowed) \<lparr>rd_pos = 4, rd_rest = concat (map enc_category cats)\<rparr> =
      Inr (map (\<lambda>c. allowed_category allowed (lower_category c)) cats,
           \<lparr>rd_pos = 4 + length (concat (map enc_category cats)), rd_rest = []\<rparr>)"
    using category_codec.read_times_enc [OF assms(1), of allowed 4 "[]"] by simp
  then show ?thesis
    using read_numbers(2) [OF assms(2), of "''category_count''" 0 "concat (map enc_category cats)"]
    by (simp add: parse_geosite_payload_def encode_geosite_payload_def reader_new_def List.map_filter_def comp_def
        filter_map)
qed

lemma parse_header_file:
  assumes "count < 2 ^ 32"
  shows "parse_header (mrs_file tag count compressed) =
    Inr (\<lparr>hdr_version = mrs_version, hdr_type_tag = tag, hdr_count = count\<rparr>, compressed)"
  using assms by (simp add: parse_header_def mrs_file_def mrs_magic_def bytes_of_def be_val_bytes)

end
