(* ===== verification/MrsRanges.thy ===== *)
theory MrsRanges
  imports MrsParser RuleIr
begin

text \<open>
  Address ranges in rule-set files, \<open>meow-rules/src/mrs_parser.rs\<close>: a range is cut into aligned
  blocks, each printed as a network. The IPv4 and IPv6 loops are one function over the width. The
  remaining length is a \<open>u64\<close> or a \<open>u128\<close> that does not wrap, since the full range is printed
  without the loop; \<open>ilog2\<close> is the number of its highest bit, which the code has from its leading zeros.
  The lemmas show that the blocks cover exactly the range.
\<close>

subsection \<open>Addresses as text\<close>

definition octets :: "32 word \<Rightarrow> nat list" where
  "octets w = map (\<lambda>i. unat (drop_bit (8 * i) w AND 0xFF)) [3, 2, 1, 0]"

definition show_ipv4 :: "32 word \<Rightarrow> string" where
  "show_ipv4 w = join ''.'' (map show_nat (octets w))"

definition segments :: "128 word \<Rightarrow> nat list" where
  "segments w = map (\<lambda>i. unat (drop_bit (16 * i) w AND 0xFFFF)) [7, 6, 5, 4, 3, 2, 1, 0]"

definition to_ipv4_mapped :: "128 word \<Rightarrow> 32 word option" where
  "to_ipv4_mapped w = (if drop_bit 32 w = 0xFFFF then Some (ucast w) else None)"

text \<open>The first longest run of zero segments, as start and length; the run being counted comes with it.\<close>

fun zero_span :: "nat list \<Rightarrow> nat \<Rightarrow> nat \<times> nat \<Rightarrow> nat \<times> nat \<Rightarrow> nat \<times> nat" where
  "zero_span [] i cur best = best"
| "zero_span (x # xs) i cur best =
     (if x = 0 then
        (let cur' = (if snd cur = 0 then (i, 1) else (fst cur, snd cur + 1)) in
         zero_span xs (i + 1) cur' (if snd cur' > snd best then cur' else best))
      else zero_span xs (i + 1) (0, 0) best)"

definition show_ipv6 :: "128 word \<Rightarrow> string" where
  "show_ipv6 w =
     (case to_ipv4_mapped w of
        Some a \<Rightarrow> ''::ffff:'' @ show_ipv4 a
      | None \<Rightarrow>
          (let segs = segments w; (start, len) = zero_span segs 0 (0, 0) (0, 0) in
           if len > 1 then join '':'' (map show_hex (take start segs)) @ ''::'' @
                           join '':'' (map show_hex (drop (start + len) segs))
           else join '':'' (map show_hex segs)))"

subsection \<open>Cutting a range into blocks\<close>

definition trailing_zeros :: "'a::len word \<Rightarrow> nat" where
  "trailing_zeros w = length (takeWhile (\<lambda>i. \<not> bit w i) [0..<LENGTH('a)])"

fun ilog2 :: "nat \<Rightarrow> nat" where
  "ilog2 n = (if n < 2 then 0 else Suc (ilog2 (n div 2)))"

declare ilog2.simps [simp del]

definition saturating_add :: "'a::len word \<Rightarrow> 'a word \<Rightarrow> 'a word" where
  "saturating_add a b = (if unat a + unat b < 2 ^ LENGTH('a) then a + b else - 1)"

lemma ilog2_le: "n > 0 \<Longrightarrow> 2 ^ ilog2 n \<le> n"
proof (induction n rule: ilog2.induct)
  case (1 n)
  show ?case
  proof (cases "n < 2")
    case False
    then have "2 ^ ilog2 (n div 2) \<le> n div 2" using 1 by simp
    with False show ?thesis by (subst ilog2.simps) simp
  qed (use 1 in \<open>simp add: ilog2.simps\<close>)
qed

lemma trailing_zeros_low:
  assumes "i < trailing_zeros (w :: 'a::len word)"
  shows "\<not> bit w i"
proof -
  let ?t = "takeWhile (\<lambda>i. \<not> bit w i) [0..<LENGTH('a)]"
  have "?t ! i \<in> set ?t" using assms by (simp add: trailing_zeros_def)
  then have "\<not> bit w (?t ! i)" by (auto dest: set_takeWhileD)
  moreover have "?t ! i = i"
    using assms length_takeWhile_le [of "\<lambda>i. \<not> bit w i" "[0..<LENGTH('a)]"]
    by (simp add: trailing_zeros_def takeWhile_nth)
  ultimately show ?thesis by simp
qed

lemma trailing_zeros_dvd: "2 ^ trailing_zeros w dvd unat (w :: 'a::len word)"
proof -
  have "take_bit (trailing_zeros w) (unat w) = 0"
    by (rule bit_eqI) (auto simp: bit_take_bit_iff bit_unsigned_iff trailing_zeros_low)
  then show ?thesis by (simp add: take_bit_eq_0_iff)
qed

function range_blocks :: "'a::len word \<Rightarrow> 'a word \<Rightarrow> ('a word \<times> nat) list" where
  "range_blocks start stop =
     (if start \<le> stop then
        (let remaining = unat stop - unat start + 1;
             block_bits = min (trailing_zeros start) (ilog2 remaining);
             step = push_bit block_bits 1
         in (start, LENGTH('a) - block_bits) #
            (if remaining = 2 ^ block_bits then [] else range_blocks (saturating_add start step) stop))
      else [])"
  by pat_completeness auto

lemma block_fits:
  fixes start stop :: "'a::len word"
  assumes "start \<le> stop" "b = min (trailing_zeros start) (ilog2 (unat stop - unat start + 1))"
  shows "2 ^ b \<le> unat stop - unat start + 1" "2 ^ b dvd unat start"
    "unat stop - unat start + 1 \<noteq> 2 ^ b \<Longrightarrow>
       unat (saturating_add start (push_bit b 1)) = unat start + 2 ^ b \<and> unat start + 2 ^ b \<le> unat stop \<and> b < LENGTH('a)"
proof -
  let ?r = "unat stop - unat start + 1"
  have le: "unat start \<le> unat stop" using assms(1) by (simp add: word_le_nat_alt)
  have "(2::nat) ^ b \<le> 2 ^ ilog2 ?r" using assms(2) by (intro power_increasing) auto
  also have "\<dots> \<le> ?r" by (rule ilog2_le) simp
  finally show fits: "2 ^ b \<le> ?r" .
  show "2 ^ b dvd unat start"
  proof (rule dvd_trans)
    show "(2::nat) ^ b dvd 2 ^ trailing_zeros start" by (rule le_imp_power_dvd) (simp add: assms(2))
  qed (rule trailing_zeros_dvd)
  assume "?r \<noteq> 2 ^ b"
  with fits le have end_le: "unat start + 2 ^ b \<le> unat stop" by simp
  have stop: "unat stop < 2 ^ LENGTH('a)" by (rule unsigned_less)
  with end_le have "(2::nat) ^ b < 2 ^ LENGTH('a)" by linarith
  then have b: "b < LENGTH('a)" using power_less_imp_less_exp by fastforce
  have "push_bit b 1 = (of_nat (2 ^ b) :: 'a word)" by (simp add: push_bit_eq_mult)
  with \<open>2 ^ b < 2 ^ LENGTH('a)\<close> have step: "unat (push_bit b 1 :: 'a word) = 2 ^ b"
    by (simp only: unat_of_nat mod_less)
  moreover have "unat start + 2 ^ b < 2 ^ LENGTH('a)" using end_le stop by (rule le_less_trans)
  ultimately have "unat (saturating_add start (push_bit b 1)) = unat start + 2 ^ b"
    by (simp add: saturating_add_def unat_word_ariths)
  with end_le b show "unat (saturating_add start (push_bit b 1)) = unat start + 2 ^ b \<and> unat start + 2 ^ b \<le> unat stop \<and> b < LENGTH('a)"
    by simp
qed

termination range_blocks
proof (relation "measure (\<lambda>(start, stop). unat stop - unat start)")
  fix start stop step :: "'a word" and remaining block_bits
  assume a: "start \<le> stop" "remaining = unat stop - unat start + 1" "block_bits = min (trailing_zeros start) (ilog2 remaining)"
    "step = push_bit block_bits 1" "remaining \<noteq> 2 ^ block_bits"
  then have next_block: "unat (saturating_add start step) = unat start + 2 ^ block_bits" "unat start + 2 ^ block_bits \<le> unat stop"
    using block_fits(3) [of start stop block_bits] by simp_all
  moreover have "(0::nat) < 2 ^ block_bits" by simp
  ultimately have "unat stop - unat (saturating_add start step) < unat stop - unat start" by linarith
  then show "((saturating_add start step, stop), start, stop) \<in> measure (\<lambda>(start, stop). unat stop - unat start)" by simp
qed simp

declare range_blocks.simps [simp del]

definition push_v4_range :: "32 word \<Rightarrow> 32 word \<Rightarrow> string list" where
  "push_v4_range from to =
     (if from = 0 \<and> to = - 1 then [''0.0.0.0/0'']
      else map (\<lambda>(a, p). show_ipv4 a @ ''/'' @ show_nat p) (range_blocks from to))"

definition push_v6_range :: "128 word \<Rightarrow> 128 word \<Rightarrow> string list" where
  "push_v6_range from to =
     (if from = 0 \<and> to = - 1 then [''::/0'']
      else map (\<lambda>(a, p). show_ipv6 a @ ''/'' @ show_nat p) (range_blocks from to))"

definition push_range_prefixes :: "128 word \<Rightarrow> 128 word \<Rightarrow> string list" where
  "push_range_prefixes from to =
     (case (to_ipv4_mapped from, to_ipv4_mapped to) of
        (Some a, Some b) \<Rightarrow> push_v4_range a b
      | _ \<Rightarrow> push_v6_range from to)"

definition read_ip_range :: "byte_reader \<Rightarrow> mrs_error + (string list \<times> byte_reader)" where
  "read_ip_range r =
     and_then (read_slice ''ipcidr_from'' 16 r) (\<lambda>(from, r1).
     and_then (read_slice ''ipcidr_to'' 16 r1) (\<lambda>(to, r2).
       Inr (push_range_prefixes (of_nat (be_val from)) (of_nat (be_val to)), r2)))"

definition parse_upstream_ipcidr_set :: "byte list \<Rightarrow> mrs_error + string list" where
  "parse_upstream_ipcidr_set data =
     and_then (read_u8 ''ipcidr_set_version'' (reader_new data)) (\<lambda>(version, r1).
       if version \<noteq> 1 then Inl (InvalidIpCidrSetVersion version)
       else and_then (read_i64_be ''ipcidr_set_ranges_len'' r1) (\<lambda>(len, r2).
         if len < 1 then Inl (InvalidLength ''ipcidr_set_ranges_len'' len)
         else and_then (read_times (nat len) read_ip_range r2) (\<lambda>(outs, _). Inr (concat outs))))"

subsection \<open>The blocks cover the range\<close>

text \<open>An address is in a network when the bits of the prefix agree.\<close>

definition in_block :: "'a::len word \<times> nat \<Rightarrow> 'a word \<Rightarrow> bool" where
  "in_block blk x \<longleftrightarrow> drop_bit (LENGTH('a) - snd blk) x = drop_bit (LENGTH('a) - snd blk) (fst blk)"

lemma in_block_iff:
  fixes a :: "'a::len word"
  assumes "2 ^ b dvd unat a" "b \<le> LENGTH('a)"
  shows "in_block (a, LENGTH('a) - b) x \<longleftrightarrow> unat a \<le> unat x \<and> unat x < unat a + 2 ^ b"
proof -
  obtain k where k: "unat a = 2 ^ b * k" using assms(1) by (rule dvdE)
  have "in_block (a, LENGTH('a) - b) x \<longleftrightarrow> unat x div 2 ^ b = unat a div 2 ^ b"
    using assms(2) by (simp only: in_block_def word_unat_eq_iff unat_drop_bit_eq fst_conv snd_conv diff_diff_cancel)
      (simp only: drop_bit_eq_div)
  also have "\<dots> \<longleftrightarrow> unat x div 2 ^ b = k" by (simp add: k)
  also have "\<dots> \<longleftrightarrow> unat a \<le> unat x \<and> unat x < unat a + 2 ^ b"
    using less_eq_div_iff_mult_less_eq [of "2 ^ b" k "unat x"] div_less_iff_less_mult [of "2 ^ b" "unat x" "Suc k"]
    by (auto simp: k mult.commute)
  finally show ?thesis .
qed

lemma range_blocks_step:
  fixes start stop :: "'a::len word"
  assumes "start \<le> stop" "r = unat stop - unat start + 1" "b = min (trailing_zeros start) (ilog2 r)"
  shows "range_blocks start stop =
    (start, LENGTH('a) - b) # (if r = 2 ^ b then [] else range_blocks (saturating_add start (push_bit b 1)) stop)"
  by (subst range_blocks.simps) (simp only: assms Let_def if_True)

lemma range_blocks_empty: "\<not> start \<le> stop \<Longrightarrow> range_blocks start stop = []"
  by (subst range_blocks.simps) simp

lemma block_bits_le: "min (trailing_zeros (start :: 'a::len word)) n \<le> LENGTH('a)"
  unfolding trailing_zeros_def
  by (rule min.coboundedI1) (use length_takeWhile_le [of _ "[0..<LENGTH('a)]"] in simp)

lemma range_blocks_cover:
  fixes start stop :: "'a::len word"
  shows "(\<exists>blk \<in> set (range_blocks start stop). in_block blk x) \<longleftrightarrow> start \<le> x \<and> x \<le> stop"
proof (induction start stop rule: range_blocks.induct)
  case (1 start stop)
  show ?case
  proof (cases "start \<le> stop")
    case True
    define r b where "r = unat stop - unat start + 1" and "b = min (trailing_zeros start) (ilog2 r)"
    note fits = block_fits [OF True, of b, folded r_def, OF b_def]
    have le: "unat start \<le> unat stop" using True by (simp add: word_le_nat_alt)
    have "b \<le> LENGTH('a)" unfolding b_def by (rule block_bits_le)
    note blk = in_block_iff [OF fits(2) this, of x]
    show ?thesis
    proof (cases "r = 2 ^ b")
      case last: True
      then have "range_blocks start stop = [(start, LENGTH('a) - b)]"
        using range_blocks_step [OF True r_def b_def] by simp
      moreover have "unat start + 2 ^ b = unat stop + 1" using last le by (simp add: r_def)
      ultimately show ?thesis using blk by (simp add: word_le_nat_alt less_Suc_eq_le)
    next
      case False
      let ?next = "saturating_add start (push_bit b 1)"
      have "range_blocks start stop = (start, LENGTH('a) - b) # range_blocks ?next stop"
        using False range_blocks_step [OF True r_def b_def] by simp
      moreover have "(\<exists>blk \<in> set (range_blocks ?next stop). in_block blk x) \<longleftrightarrow> ?next \<le> x \<and> x \<le> stop"
        by (rule "1.IH" [OF True r_def b_def refl False])
      moreover note fits(3) [OF False]
      ultimately show ?thesis using blk by (auto simp: word_le_nat_alt)
    qed
  qed (auto simp: range_blocks_empty)
qed

lemma range_blocks_valid:
  fixes start stop :: "'a::len word"
  shows "list_all (\<lambda>(a, p). p \<le> LENGTH('a) \<and> 2 ^ (LENGTH('a) - p) dvd unat a) (range_blocks start stop)"
proof (induction start stop rule: range_blocks.induct)
  case (1 start stop)
  define r b where "r = unat stop - unat start + 1" and "b = min (trailing_zeros start) (ilog2 r)"
  have "b \<le> LENGTH('a)" unfolding b_def by (rule block_bits_le)
  moreover have "2 ^ b dvd unat start" if "start \<le> stop"
    by (rule block_fits(2) [OF that]) (simp add: b_def r_def)
  ultimately show ?case
    using "1.IH" [OF _ r_def b_def refl] range_blocks_step [OF _ r_def b_def]
    by (cases "start \<le> stop") (simp_all add: range_blocks_empty)
qed

text \<open>The first address of every block is in the range, and each block ends before the next begins.\<close>

lemma range_blocks_from: "(a, p) \<in> set (range_blocks start stop) \<Longrightarrow> start \<le> a"
  using range_blocks_cover [of start stop a] bexI [of "\<lambda>blk. in_block blk a" "(a, p)"] by (simp add: in_block_def)

definition before_block :: "'a::len word \<times> nat \<Rightarrow> 'a word \<times> nat \<Rightarrow> bool" where
  "before_block blk blk' \<longleftrightarrow> unat (fst blk) + 2 ^ (LENGTH('a) - snd blk) \<le> unat (fst blk')"

lemma range_blocks_sorted:
  fixes start stop :: "'a::len word"
  shows "sorted_wrt before_block (range_blocks start stop)"
proof (induction start stop rule: range_blocks.induct)
  case (1 start stop)
  define r b where "r = unat stop - unat start + 1" and "b = min (trailing_zeros start) (ilog2 r)"
  have b: "b \<le> LENGTH('a)" unfolding b_def by (rule block_bits_le)
  let ?next = "saturating_add start (push_bit b 1)"
  have "before_block (start, LENGTH('a) - b) blk"
    if "start \<le> stop" "r \<noteq> 2 ^ b" "blk \<in> set (range_blocks ?next stop)" for blk
  proof -
    have "unat ?next = unat start + 2 ^ b"
      using block_fits(3) [OF that(1), folded r_def, OF b_def that(2)] by simp
    then show ?thesis
      using that(3) b range_blocks_from [of "fst blk" "snd blk" ?next stop] by (simp add: before_block_def word_le_nat_alt)
  qed
  then show ?case
    using "1.IH" [OF _ r_def b_def refl] range_blocks_step [OF _ r_def b_def]
    by (cases "start \<le> stop") (simp_all add: range_blocks_empty)
qed

text \<open>The networks a range is printed as, the full range included.\<close>

definition range_networks :: "'a::len word \<Rightarrow> 'a word \<Rightarrow> ('a word \<times> nat) list" where
  "range_networks lo hi = (if lo = 0 \<and> hi = - 1 then [(0, 0)] else range_blocks lo hi)"

lemma range_networks_exact:
  fixes lo hi :: "'a::len word"
  shows "list_ex (\<lambda>net. in_block net x) (range_networks lo hi) \<longleftrightarrow> lo \<le> x \<and> x \<le> hi"
    and "list_all (\<lambda>(a, p). p \<le> LENGTH('a) \<and> 2 ^ (LENGTH('a) - p) dvd unat a) (range_networks lo hi)"
    and "sorted_wrt before_block (range_networks lo hi)"
proof -
  have "drop_bit LENGTH('a) x = 0" by (rule bit_word_eqI) (simp add: bit_drop_bit_eq)
  then have "in_block (0 :: 'a word, 0) x" by (simp add: in_block_def)
  then show "list_ex (\<lambda>net. in_block net x) (range_networks lo hi) \<longleftrightarrow> lo \<le> x \<and> x \<le> hi"
    using range_blocks_cover [of lo hi x] by (simp add: range_networks_def list_ex_iff)
qed (simp_all add: range_networks_def range_blocks_valid range_blocks_sorted)

lemma push_v4_networks: "push_v4_range lo hi = map (\<lambda>(a, p). show_ipv4 a @ ''/'' @ show_nat p) (range_networks lo hi)"
proof -
  have "show_ipv4 0 @ ''/'' @ show_nat 0 = ''0.0.0.0/0''" by code_simp
  then show ?thesis by (simp add: push_v4_range_def range_networks_def)
qed

lemma push_v6_networks: "push_v6_range lo hi = map (\<lambda>(a, p). show_ipv6 a @ ''/'' @ show_nat p) (range_networks lo hi)"
proof -
  have "show_ipv6 0 @ ''/'' @ show_nat 0 = ''::/0''" by code_simp
  then show ?thesis by (simp add: push_v6_range_def range_networks_def)
qed

text \<open>
  C29: a range of a rule-set file is printed as networks that hold exactly the addresses of the range:
  every network has a valid prefix and its address is the first one of the network, no two networks
  overlap and they come in increasing order, for IPv4 and for IPv6, the full range and the empty range
  included. A range from one IPv4-mapped address to another is printed as IPv4 networks.
\<close>

theorem range_prefixes_exact:
  "(\<exists>nets. push_v4_range lo hi = map (\<lambda>(a, p). show_ipv4 a @ ''/'' @ show_nat p) nets \<and>
      (\<forall>x. list_ex (\<lambda>net. in_block net x) nets \<longleftrightarrow> lo \<le> x \<and> x \<le> hi) \<and>
      list_all (\<lambda>(a, p). p \<le> 32 \<and> 2 ^ (32 - p) dvd unat a) nets \<and> sorted_wrt before_block nets) \<and>
   (\<exists>nets. push_v6_range lo6 hi6 = map (\<lambda>(a, p). show_ipv6 a @ ''/'' @ show_nat p) nets \<and>
      (\<forall>x. list_ex (\<lambda>net. in_block net x) nets \<longleftrightarrow> lo6 \<le> x \<and> x \<le> hi6) \<and>
      list_all (\<lambda>(a, p). p \<le> 128 \<and> 2 ^ (128 - p) dvd unat a) nets \<and> sorted_wrt before_block nets) \<and>
   push_range_prefixes lo6 hi6 =
     (if drop_bit 32 lo6 = 0xFFFF \<and> drop_bit 32 hi6 = 0xFFFF then push_v4_range (ucast lo6) (ucast hi6)
      else push_v6_range lo6 hi6)"
proof (intro conjI exI)
  show "push_v4_range lo hi = map (\<lambda>(a, p). show_ipv4 a @ ''/'' @ show_nat p) (range_networks lo hi)"
    by (rule push_v4_networks)
  show "push_v6_range lo6 hi6 = map (\<lambda>(a, p). show_ipv6 a @ ''/'' @ show_nat p) (range_networks lo6 hi6)"
    by (rule push_v6_networks)
  show "list_all (\<lambda>(a, p). p \<le> 32 \<and> 2 ^ (32 - p) dvd unat a) (range_networks lo hi)"
    using range_networks_exact(2) [of lo hi] by simp
  show "list_all (\<lambda>(a, p). p \<le> 128 \<and> 2 ^ (128 - p) dvd unat a) (range_networks lo6 hi6)"
    using range_networks_exact(2) [of lo6 hi6] by simp
qed (simp_all add: range_networks_exact(1,3) push_range_prefixes_def to_ipv4_mapped_def)

end
