(* ===== verification/MrsDomainSet.thy ===== *)
theory MrsDomainSet
  imports MrsRanges
begin

text \<open>
  The domain sets of upstream rule-set files, \<open>meow-rules/src/mrs_parser.rs\<close>: a trie in a bitmap with
  rank and select indexes, and its traversal. The traversal recurses without a bound of its own, so it
  has fuel and \<open>None\<close> is a recursion that goes deeper. The lemmas show that the indexes count and find
  the bits, and that the traversal of a bitmap with no more labels than zero bits ends and lists the
  paths of the trie; a bitmap with too many labels can make it recurse for ever.
\<close>

subsection \<open>Rank and select\<close>

definition get_bit :: "64 word list \<Rightarrow> nat \<Rightarrow> bool" where
  "get_bit bits idx =
     (if idx div 64 < length bits then (bits ! (idx div 64)) AND push_bit (idx mod 64) 1 \<noteq> 0 else False)"

definition count_ones :: "64 word \<Rightarrow> nat" where
  "count_ones w = length (filter (bit w) [0..<64])"

function word_ones :: "nat \<Rightarrow> 64 word \<Rightarrow> nat list" where
  "word_ones word_idx remaining =
     (if remaining = 0 then []
      else (word_idx * 64 + trailing_zeros remaining) # word_ones word_idx (remaining AND (remaining - 1)))"
  by pat_completeness auto
termination
proof (relation "measure (\<lambda>(_, w). unat w)")
  fix w :: "64 word"
  assume "w \<noteq> 0"
  then have "unat (w - 1) < unat w" by (simp add: unat_minus_one unat_gt_0)
  moreover have "unat (w AND (w - 1)) \<le> unat (w - 1)"
    using word_and_le1 [of w "w - 1"] by (simp add: word_le_nat_alt)
  ultimately show "((i, w AND (w - 1)), i, w) \<in> measure (\<lambda>(_, w). unat w)" for i :: nat by simp
qed simp

declare word_ones.simps [simp del]

record domain_set_index =
  rank_ones_by_word :: "nat list"
  select_ones :: "nat list"

fun index_words :: "nat \<Rightarrow> nat \<Rightarrow> 64 word list \<Rightarrow> nat list \<times> nat list" where
  "index_words word_idx seen_ones [] = ([seen_ones], [])"
| "index_words word_idx seen_ones (w # ws) =
     (let (ranks, selects) = index_words (word_idx + 1) (seen_ones + count_ones w) ws in
      (seen_ones # ranks, word_ones word_idx w @ selects))"

definition domain_set_index_new :: "64 word list \<Rightarrow> domain_set_index" where
  "domain_set_index_new bits =
     (let (ranks, selects) = index_words 0 0 bits in \<lparr>rank_ones_by_word = ranks, select_ones = selects\<rparr>)"

definition count_zeros :: "domain_set_index \<Rightarrow> 64 word list \<Rightarrow> nat \<Rightarrow> nat" where
  "count_zeros index bits upto0 =
     (let upto = min upto0 (length bits * 64); word = upto div 64; b = upto mod 64;
          ones = (if word < length (rank_ones_by_word index) then rank_ones_by_word index ! word else 0) +
                 (if b > 0 \<and> word < length bits then count_ones ((bits ! word) AND (push_bit b 1 - 1)) else 0)
      in upto - ones)"

definition select_one :: "domain_set_index \<Rightarrow> nat \<Rightarrow> nat option" where
  "select_one index k = (if k < length (select_ones index) then Some (select_ones index ! k) else None)"

subsection \<open>Traversal\<close>

record domain_set =
  ds_leaves :: "64 word list"
  ds_label_bitmap :: "64 word list"
  ds_label_index :: domain_set_index
  ds_labels :: "byte list"

fun traverse :: "nat \<Rightarrow> domain_set \<Rightarrow> nat \<Rightarrow> nat \<Rightarrow> byte list \<Rightarrow> byte list list option"
and traverse_loop :: "nat \<Rightarrow> domain_set \<Rightarrow> nat \<Rightarrow> nat \<Rightarrow> byte list \<Rightarrow> byte list list option" where
  "traverse 0 d node_id bm_idx current = None"
| "traverse (Suc fuel) d node_id bm_idx current =
     map_option (\<lambda>out. (if get_bit (ds_leaves d) node_id then [current] else []) @ out)
       (traverse_loop fuel d node_id bm_idx current)"
| "traverse_loop 0 d node_id idx current = None"
| "traverse_loop (Suc fuel) d node_id idx current =
     (if get_bit (ds_label_bitmap d) idx then Some []
      else if idx - node_id < length (ds_labels d) then
        (let next_node_id = count_zeros (ds_label_index d) (ds_label_bitmap d) (idx + 1) in
         case select_one (ds_label_index d) (next_node_id - 1) of
           None \<Rightarrow> Some []
         | Some prev_terminator \<Rightarrow>
             (case traverse fuel d next_node_id (prev_terminator + 1) (current @ [ds_labels d ! (idx - node_id)]) of
                None \<Rightarrow> None
              | Some out \<Rightarrow> map_option (\<lambda>out'. out @ out') (traverse_loop fuel d node_id (idx + 1) current)))
      else Some [])"

subsection \<open>Files\<close>

text \<open>The largest number of eight-byte elements a \<open>Vec\<close> can be asked to hold.\<close>

definition max_u64_capacity :: int where
  "max_u64_capacity = 2 ^ 60 - 1"

definition read_u64_vec :: "string \<Rightarrow> byte_reader \<Rightarrow> mrs_error + (64 word list \<times> byte_reader)" where
  "read_u64_vec what r =
     and_then (read_i64_be what r) (\<lambda>(len, r1).
       if len < 1 then Inl (InvalidLength what len)
       else if len > max_u64_capacity then Inl (CapacityOverflow what)
       else read_times (nat len) (read_u64_be what) r1)"

definition domain_set_new :: "64 word list \<Rightarrow> 64 word list \<Rightarrow> byte list \<Rightarrow> domain_set" where
  "domain_set_new leaves label_bitmap labels =
     \<lparr>ds_leaves = leaves, ds_label_bitmap = label_bitmap, ds_label_index = domain_set_index_new label_bitmap,
      ds_labels = labels\<rparr>"

definition read_domain_set :: "byte list \<Rightarrow> mrs_error + domain_set" where
  "read_domain_set data =
     and_then (read_u8 ''domain_set_version'' (reader_new data)) (\<lambda>(version, r1).
       if version \<noteq> 1 then Inl (InvalidDomainSetVersion version)
       else and_then (read_u64_vec ''domain_set_leaves'' r1) (\<lambda>(leaves, r2).
            and_then (read_u64_vec ''domain_set_label_bitmap'' r2) (\<lambda>(label_bitmap, r3).
            and_then (read_i64_be ''domain_set_labels_len'' r3) (\<lambda>(labels_len, r4).
              if labels_len < 1 then Inl (InvalidLength ''domain_set_labels_len'' labels_len)
              else and_then (read_slice ''domain_set_labels'' (nat labels_len) r4) (\<lambda>(labels, _).
                     Inr (domain_set_new leaves label_bitmap labels))))))"

definition domain_set_entries :: "byte list list \<Rightarrow> string list" where
  "domain_set_entries reversed = map str_of (filter utf8_ok (map rev reversed))"

definition parse_upstream_domain_set :: "nat \<Rightarrow> byte list \<Rightarrow> (mrs_error + string list) option" where
  "parse_upstream_domain_set fuel data =
     (case read_domain_set data of
        Inl e \<Rightarrow> Some (Inl e)
      | Inr d \<Rightarrow> map_option (\<lambda>reversed. Inr (domain_set_entries reversed)) (traverse fuel d 0 0 []))"

record upstream_payload =
  up_behavior :: byte
  up_count :: nat
  up_entries :: "string list"

definition upstream_entries :: "nat \<Rightarrow> byte \<Rightarrow> byte list \<Rightarrow> (mrs_error + string list) option" where
  "upstream_entries fuel behavior body =
     (if behavior = type_domain then parse_upstream_domain_set fuel body
      else if behavior = type_ipcidr then Some (parse_upstream_ipcidr_set body)
      else Some (Inl (InvalidBehavior behavior)))"

definition read_upstream_header :: "byte list \<Rightarrow> mrs_error + ((byte \<times> nat) \<times> byte list)" where
  "read_upstream_header decompressed =
     and_then (read_slice ''upstream_magic'' 4 (reader_new decompressed)) (\<lambda>(magic, r1).
       if magic \<noteq> upstream_mrs_magic then Inl WrongFormat
       else and_then (read_u8 ''behavior'' r1) (\<lambda>(behavior, r2).
            and_then (read_i64_be ''count'' r2) (\<lambda>(count, r3).
              if count < 0 then Inl (InvalidLength ''count'' count)
              else and_then (read_i64_be ''extra_len'' r3) (\<lambda>(extra_len, r4).
                     if extra_len < 0 then Inl (InvalidReservedLength extra_len)
                     else and_then (read_slice ''extra'' (nat extra_len) r4) (\<lambda>(_, r5).
                            Inr ((behavior, nat count), rd_rest r5))))))"

definition parse_upstream_ruleset_mrs ::
  "(byte list \<Rightarrow> byte list option) \<Rightarrow> nat \<Rightarrow> byte list \<Rightarrow> (mrs_error + upstream_payload) option" where
  "parse_upstream_ruleset_mrs unzstd fuel bytes =
     (case and_then (decompress_payload unzstd bytes) read_upstream_header of
        Inl e \<Rightarrow> Some (Inl e)
      | Inr ((behavior, count), body) \<Rightarrow>
          map_option (\<lambda>res. and_then res (\<lambda>entries.
              Inr \<lparr>up_behavior = behavior, up_count = count, up_entries = entries\<rparr>))
            (upstream_entries fuel behavior body))"

subsection \<open>The indexes count and find bits\<close>

text \<open>The reference definitions: the number of zero bits below a position and the positions of the ones.\<close>

definition bit_count :: "64 word list \<Rightarrow> nat" where
  "bit_count bits = length bits * 64"

definition zeros_below :: "64 word list \<Rightarrow> nat \<Rightarrow> nat" where
  "zeros_below bits k = length (filter (\<lambda>i. \<not> get_bit bits i) [0..<k])"

definition ones_of :: "64 word list \<Rightarrow> nat list" where
  "ones_of bits = filter (get_bit bits) [0..<bit_count bits]"

lemma get_bit_iff: "get_bit bits idx \<longleftrightarrow> idx div 64 < length bits \<and> bit (bits ! (idx div 64)) (idx mod 64)"
proof -
  have "w AND push_bit k 1 \<noteq> 0 \<longleftrightarrow> bit w k" for w :: "64 word" and k
    by (simp add: and_exp_eq_0_iff_not_bit push_bit_eq_mult)
  then show ?thesis by (simp add: get_bit_def)
qed

lemma get_bit_less: "get_bit bits idx \<Longrightarrow> idx < bit_count bits"
  by (auto simp: get_bit_iff bit_count_def div_less_iff_less_mult)

lemma upt_split: "i < k \<Longrightarrow> [0..<k] = [0..<i] @ i # [Suc i..<k]"
  using upt_add_eq_append [of 0 i "k - i"] by (simp add: upt_conv_Cons)

lemma clear_lowest:
  fixes w :: "64 word"
  assumes "w \<noteq> 0"
  shows "trailing_zeros w < 64" "bit w (trailing_zeros w)" "j < trailing_zeros w \<Longrightarrow> \<not> bit w j"
proof -
  let ?t = "trailing_zeros w" and ?tw = "takeWhile (\<lambda>i. \<not> bit w i) [0..<64]"
  have t: "?t = length ?tw" by (simp add: trailing_zeros_def)
  obtain k where "bit w k" using assms by (auto simp: bit_eq_iff)
  then have "k < 64" using bit_imp_le_length [of w k] by simp
  then have "?tw \<noteq> [0..<64]" using \<open>bit w k\<close> by (auto simp: takeWhile_eq_all_conv)
  then have lt: "?t < 64"
    using t length_takeWhile_le [of "\<lambda>i. \<not> bit w i" "[0..<64]"] takeWhile_eq_take [of "\<lambda>i. \<not> bit w i" "[0..<64]"]
    by (cases "?t = 64") auto
  then show "?t < 64" .
  show bt: "bit w ?t" using nth_length_takeWhile [of "\<lambda>i. \<not> bit w i" "[0..<64]"] lt t by simp
  show "\<not> bit w j" if "j < ?t" for j using that by (rule trailing_zeros_low)
qed

lemma clear_lowest_bit:
  fixes w :: "64 word"
  assumes "w \<noteq> 0"
  shows "bit (w AND (w - 1)) j \<longleftrightarrow> bit w j \<and> j \<noteq> trailing_zeros w"
proof -
  let ?t = "trailing_zeros w" and ?n = "unat w"
  obtain m where m: "?n = 2 ^ ?t * m" using trailing_zeros_dvd [of w] by (rule dvdE)
  have bits: "bit v j \<longleftrightarrow> odd (unat v div 2 ^ j)" for v :: "64 word" and j
    using bit_iff_odd [of "unat v" j] by (simp add: bit_unsigned_iff)
  have odd: "odd m" using clear_lowest(2) [OF assms] by (simp add: bits m)
  then have "m > 0" by (rule odd_pos)
  have pred: "unat (w - 1) = 2 ^ ?t * m - 1" using assms m by (simp add: unat_minus_one)
  have "2 ^ ?t * m - 1 = (2 ^ ?t - 1) + (m - 1) * 2 ^ ?t" using \<open>m > 0\<close> by (cases m) (simp_all add: mult.commute)
  then have low: "(2 ^ ?t * m - 1) div 2 ^ ?t = m - 1" 
    using div_mult_self1 [of "(2::nat) ^ ?t" "2 ^ ?t - 1" "m - 1"] by simp
  consider "j < ?t" | "j = ?t" | i where "j = ?t + Suc i" using less_imp_Suc_add by (metis add_Suc_right nat_neq_iff)
  then show ?thesis
  proof cases
    case 2
    have "\<not> bit (w - 1) ?t" using odd low by (simp add: bits pred)
    with 2 show ?thesis by (simp add: bit_and_iff)
  next
    case (3 i)
    have "(m - 1) div 2 = m div 2" using odd by (auto elim: oddE)
    moreover have "x div 2 ^ j = x div 2 ^ ?t div 2 div 2 ^ i" for x :: nat
      by (simp only: 3 power_add power_Suc div_mult2_eq)
    ultimately have "unat (w - 1) div 2 ^ j = unat w div 2 ^ j" using m by (simp only: pred low) simp
    then have "bit (w - 1) j \<longleftrightarrow> bit w j" by (simp only: bits)
    with 3 show ?thesis by (simp add: bit_and_iff)
  qed (simp add: bit_and_iff clear_lowest(3) [OF assms])
qed

lemma word_ones_eq: "word_ones i w = map (\<lambda>k. i * 64 + k) (filter (bit w) [0..<64])"
proof (induction i w rule: word_ones.induct)
  case (1 i w)
  show ?case
  proof (cases "w = 0")
    case False
    let ?t = "trailing_zeros w" and ?w = "w AND (w - 1)"
    note low = clear_lowest [OF False]
    have split: "[0..<64] = [0..<?t] @ ?t # [Suc ?t..<64]" using low(1) by (rule upt_split)
    have "filter (bit w) [0..<?t] = []" "filter (bit ?w) [0..<?t] = []"
      using low(3) clear_lowest_bit [OF False] by (auto simp: filter_empty_conv)
    moreover have "filter (bit ?w) [Suc ?t..<64] = filter (bit w) [Suc ?t..<64]"
      by (rule filter_cong [OF refl]) (simp only: set_upt atLeastLessThan_iff clear_lowest_bit [OF False], linarith)
    moreover have "bit w ?t" "\<not> bit ?w ?t" using low(2) clear_lowest_bit [OF False, of ?t] by simp_all
    ultimately have "filter (bit w) [0..<64] = ?t # filter (bit ?w) [0..<64]"
      unfolding split by (simp only: filter_append filter.simps append_Nil if_True if_False)
    with 1 False show ?thesis by (subst word_ones.simps) simp
  qed (simp add: word_ones.simps)
qed

definition ones_below :: "64 word list \<Rightarrow> nat \<Rightarrow> nat" where
  "ones_below bits k = length (filter (get_bit bits) [0..<k])"

lemma zeros_ones: "zeros_below bits k + ones_below bits k = k"
  using sum_length_filter_compl [of "get_bit bits" "[0..<k]"] by (simp add: zeros_below_def ones_below_def)

lemma get_bit_word: "k < 64 \<Longrightarrow> i < length bits \<Longrightarrow> get_bit bits (i * 64 + k) \<longleftrightarrow> bit (bits ! i) k"
  by (simp add: get_bit_iff)

lemma filter_word:
  assumes "b \<le> 64" "i < length bits"
  shows "filter (get_bit bits) [i * 64..<i * 64 + b] = map (\<lambda>k. i * 64 + k) (filter (bit (bits ! i)) [0..<b])"
proof -
  have "[i * 64..<i * 64 + b] = map (\<lambda>k. i * 64 + k) [0..<b]" using map_add_upt [of "i * 64" b] by (simp add: add.commute)
  moreover have "filter (\<lambda>k. get_bit bits (i * 64 + k)) [0..<b] = filter (bit (bits ! i)) [0..<b]"
    using assms by (intro filter_cong) (auto simp: get_bit_word)
  ultimately show ?thesis by (simp add: filter_map comp_def)
qed

lemma filter_words:
  assumes "b \<le> 64" "i < length bits"
  shows "filter (get_bit bits) [0..<i * 64 + b] =
    filter (get_bit bits) [0..<i * 64] @ map (\<lambda>k. i * 64 + k) (filter (bit (bits ! i)) [0..<b])"
  using filter_word [OF assms] upt_add_eq_append [of 0 "i * 64" b] by simp

lemma index_words_select:
  "snd (index_words i seen ws) = concat (map (\<lambda>(j, w). map (\<lambda>k. j * 64 + k) (filter (bit w) [0..<64])) (enumerate i ws))"
  by (induction ws arbitrary: i seen) (simp_all add: word_ones_eq split_def Let_def)

lemma index_words_rank:
  "fst (index_words i seen ws) = map (\<lambda>k. seen + sum_list (map count_ones (take k ws))) [0..<Suc (length ws)]"
proof (induction ws arbitrary: i seen)
  case (Cons w ws)
  show ?case
  proof -
    have "[0..<Suc (length (w # ws))] = 0 # map Suc [0..<Suc (length ws)]"
      by (simp add: map_Suc_upt upt_conv_Cons del: upt_Suc)
    then show ?thesis
      using Cons [of "i + 1" "seen + count_ones w"] by (simp add: split_def Let_def add.assoc comp_def del: upt_Suc)
  qed
qed simp

lemma select_ones_new: "select_ones (domain_set_index_new bits) = ones_of bits"
proof -
  have "concat (map (\<lambda>(j, w). map (\<lambda>k. j * 64 + k) (filter (bit w) [0..<64])) (enumerate 0 (take n bits))) =
      filter (get_bit bits) [0..<n * 64]" if "n \<le> length bits" for n
    using that
  proof (induction n)
    case (Suc n)
    then have "n < length bits" by simp
    then show ?case
      using Suc.IH filter_words [of 64 n bits]
      by (simp add: take_Suc_conv_app_nth enumerate_append_eq add.commute)
  qed simp
  from this [of "length bits"] show ?thesis
    by (simp add: domain_set_index_new_def split_def Let_def index_words_select ones_of_def bit_count_def)
qed

lemma ones_below_words: "n \<le> length bits \<Longrightarrow> ones_below bits (n * 64) = sum_list (map count_ones (take n bits))"
proof (induction n)
  case (Suc n)
  then have "n < length bits" by simp
  then show ?case
    using Suc.IH filter_words [of 64 n bits] by (simp add: take_Suc_conv_app_nth ones_below_def count_ones_def add.commute)
qed (simp add: ones_below_def)

lemma count_ones_mask: "b < 64 \<Longrightarrow> count_ones (w AND (push_bit b 1 - 1)) = length (filter (bit w) [0..<b])"
proof -
  assume b: "b < 64"
  have "push_bit b 1 - 1 = (mask b :: 64 word)" by (simp add: mask_eq_exp_minus_1)
  then have bits: "bit (w AND (push_bit b 1 - 1)) = (\<lambda>k. bit w k \<and> k < b)"
    using b by (auto simp: bit_and_iff bit_mask_iff fun_eq_iff)
  have "[0..<64] = [0..<b] @ [b..<64]" using b upt_add_eq_append [of 0 b "64 - b"] by (simp del: upt_rec_numeral)
  then have "filter (bit (w AND (push_bit b 1 - 1))) [0..<64] =
      filter (\<lambda>k. bit w k \<and> k < b) [0..<b] @ filter (\<lambda>k. bit w k \<and> k < b) [b..<64]"
    by (simp only: filter_append bits)
  also have "filter (\<lambda>k. bit w k \<and> k < b) [b..<64] = []" by (auto simp: filter_empty_conv simp del: upt_rec_numeral)
  also have "filter (\<lambda>k. bit w k \<and> k < b) [0..<b] = filter (bit w) [0..<b]" by (rule filter_cong) auto
  finally show ?thesis by (simp add: count_ones_def)
qed

lemma count_zeros_new: "count_zeros (domain_set_index_new bits) bits k = zeros_below bits (min k (bit_count bits))"
proof -
  define n word b where "n = min k (bit_count bits)" and "word = n div 64" and "b = n mod 64"
  have split: "n = word * 64 + b" "b < 64" by (simp_all add: word_def b_def)
  have le: "word \<le> length bits" unfolding word_def n_def bit_count_def
    using div_le_mono [of "min k (length bits * 64)" "length bits * 64" 64] by simp
  have rank: "rank_ones_by_word (domain_set_index_new bits) =
      map (\<lambda>j. sum_list (map count_ones (take j bits))) [0..<Suc (length bits)]"
    using index_words_rank [of 0 0 bits] by (simp add: domain_set_index_new_def split_def Let_def del: upt_Suc)
  have ones: "ones_below bits n = ones_below bits (word * 64) +
      (if b > 0 \<and> word < length bits then count_ones ((bits ! word) AND (push_bit b 1 - 1)) else 0)"
  proof (cases "word < length bits")
    case True
    then have "ones_below bits n = ones_below bits (word * 64) + length (filter (bit (bits ! word)) [0..<b])"
      using filter_words [of b word bits] split by (simp add: ones_below_def)
    with True show ?thesis using count_ones_mask [OF split(2), of "bits ! word"] by (cases b) simp_all
  next
    case False
    with le have "word = length bits" by simp
    then have "b = 0" using split by (simp add: n_def bit_count_def)
    then show ?thesis using split by simp
  qed
  have "count_zeros (domain_set_index_new bits) bits k = n - ones_below bits n"
    using le unfolding ones
    by (simp add: count_zeros_def Let_def rank ones_below_words del: upt_Suc flip: bit_count_def n_def word_def b_def)
  then show ?thesis using zeros_ones [of bits n] unfolding n_def by linarith
qed

lemma filter_upt_nth:
  "k < length (filter P [0..<n]) \<Longrightarrow>
     P (filter P [0..<n] ! k) \<and> filter P [0..<n] ! k < n \<and> length (filter P [0..<filter P [0..<n] ! k]) = k"
proof (induction n)
  case (Suc n)
  show ?case
  proof (cases "k < length (filter P [0..<n])")
    case True
    with Suc.IH show ?thesis by (simp add: nth_append)
  next
    case False
    with Suc.prems have "P n" "k = length (filter P [0..<n])" by (auto split: if_splits)
    then show ?thesis by (simp add: nth_append)
  qed
qed simp

text \<open>The one found is a one, lies in the bitmap and has as many ones below it as asked for.\<close>

lemma select_one_new:
  "select_one (domain_set_index_new bits) k = Some t \<Longrightarrow> get_bit bits t \<and> t < bit_count bits \<and> ones_below bits t = k"
  using filter_upt_nth [of k "get_bit bits" "bit_count bits"]
  by (auto simp: select_one_def select_ones_new ones_of_def ones_below_def split: if_splits)

subsection \<open>The traversal lists the paths\<close>

text \<open>
  The trie a bitmap describes: node \<open>n\<close> starts after the \<open>n\<close>-th one, each zero bit from there to the
  next one is an edge, and the edge at a position leads to the node with the number of zeros up to it.
\<close>

definition node_start :: "64 word list \<Rightarrow> nat \<Rightarrow> nat option" where
  "node_start bits n =
     (if n = 0 then Some 0 else if n - 1 < length (ones_of bits) then Some (ones_of bits ! (n - 1) + 1) else None)"

definition trie_edge :: "64 word list \<Rightarrow> byte list \<Rightarrow> nat \<Rightarrow> nat \<Rightarrow> byte \<Rightarrow> nat \<Rightarrow> bool" where
  "trie_edge bits labels n idx c m \<longleftrightarrow>
     (\<exists>s. node_start bits n = Some s \<and> s \<le> idx) \<and> ones_below bits (idx + 1) = n \<and> idx < bit_count bits \<and>
     idx - n < length labels \<and> c = labels ! (idx - n) \<and> m = zeros_below bits (idx + 1) \<and> node_start bits m \<noteq> None"

inductive trie_path :: "64 word list \<Rightarrow> byte list \<Rightarrow> nat \<Rightarrow> byte list \<Rightarrow> nat \<Rightarrow> byte list \<Rightarrow> bool"
  for bits labels where
  here: "trie_path bits labels n p n p"
| down: "trie_edge bits labels n idx c m \<Longrightarrow> trie_path bits labels m (p @ [c]) k q \<Longrightarrow> trie_path bits labels n p k q"

inductive_simps trie_path_iff: "trie_path bits labels n p k q"

text \<open>Where the traversal is: in node \<open>n\<close>, at a position with no one since the start of the node.\<close>

definition at_node :: "64 word list \<Rightarrow> nat \<Rightarrow> nat \<Rightarrow> bool" where
  "at_node bits n idx \<longleftrightarrow>
     (\<exists>s. node_start bits n = Some s \<and> s \<le> idx) \<and> ones_below bits idx = n \<and> (n = 0 \<or> n \<le> zeros_below bits idx)"

lemma below_Suc:
  "ones_below bits (Suc k) = ones_below bits k + (if get_bit bits k then 1 else 0)"
  "zeros_below bits (Suc k) = zeros_below bits k + (if get_bit bits k then 0 else 1)"
  by (simp_all add: ones_below_def zeros_below_def)

lemma below_mono: "j \<le> k \<Longrightarrow> ones_below bits j \<le> ones_below bits k \<and> zeros_below bits j \<le> zeros_below bits k"
  using upt_add_eq_append [of 0 j "k - j"] by (simp add: ones_below_def zeros_below_def)

lemma below_end: "bit_count bits \<le> k \<Longrightarrow> ones_below bits k = ones_below bits (bit_count bits)"
proof -
  assume "bit_count bits \<le> k"
  then have "[0..<k] = [0..<bit_count bits] @ [bit_count bits..<k]" using upt_add_eq_append [of 0 "bit_count bits" "k - bit_count bits"] by simp
  moreover have "filter (get_bit bits) [bit_count bits..<k] = []" by (auto simp: filter_empty_conv dest: get_bit_less)
  ultimately show ?thesis by (simp add: ones_below_def)
qed

lemma node_start_select:
  "n > 0 \<Longrightarrow> node_start bits n = map_option (\<lambda>t. t + 1) (select_one (domain_set_index_new bits) (n - 1))"
  by (simp add: node_start_def select_one_def select_ones_new)

lemma node_start_at:
  assumes "node_start bits n = Some s" "n > 0"
  shows "ones_below bits s = n" "s \<le> bit_count bits"
  using assms select_one_new [of bits "n - 1"] by (auto simp: node_start_select below_Suc)

lemma at_node_step: "at_node bits n idx \<Longrightarrow> \<not> get_bit bits idx \<Longrightarrow> at_node bits n (Suc idx)"
  by (auto simp: at_node_def below_Suc)

text \<open>A zero bit in the bitmap leads to a node with a greater number, which starts further on.\<close>

lemma at_node_child:
  assumes "at_node bits n idx" "\<not> get_bit bits idx" "m = zeros_below bits (Suc idx)" "node_start bits m = Some s"
  shows "idx < s" "at_node bits m s" "n < m"
proof -
  have n: "ones_below bits (Suc idx) = n" using assms(1,2) by (simp add: at_node_def below_Suc)
  show "n < m" using assms(1-3) by (auto simp: at_node_def below_Suc)
  then have m: "ones_below bits s = m" using node_start_at [OF assms(4)] by simp
  show "idx < s" using below_mono [of s "Suc idx" bits] n m \<open>n < m\<close> by (cases "idx < s") auto
  then have "m \<le> zeros_below bits s" using below_mono [of "Suc idx" s bits] assms(3) by simp
  with m assms(4) show "at_node bits m s" by (simp add: at_node_def)
qed

lemma domain_set_new_simps [simp]:
  "ds_leaves (domain_set_new leaves bits labels) = leaves" "ds_label_bitmap (domain_set_new leaves bits labels) = bits"
  "ds_label_index (domain_set_new leaves bits labels) = domain_set_index_new bits"
  "ds_labels (domain_set_new leaves bits labels) = labels"
  by (simp_all add: domain_set_new_def)

lemma no_edge_from:
  assumes "at_node bits n idx"
    and "get_bit bits idx \<or> length labels \<le> idx - n \<or> node_start bits (zeros_below bits (Suc idx)) = None"
    and "idx \<le> idx'"
  shows "\<not> trie_edge bits labels n idx' c m"
proof
  assume edge: "trie_edge bits labels n idx' c m"
  have n: "ones_below bits idx = n" using assms(1) by (simp add: at_node_def)
  note mono = below_mono [of "Suc idx" "Suc idx'" bits]
  from assms(2) show False
  proof (elim disjE)
    assume "get_bit bits idx"
    then show False using edge mono assms(3) n by (simp add: trie_edge_def below_Suc)
  next
    assume "length labels \<le> idx - n"
    moreover have "idx' - n < length labels" using edge by (simp add: trie_edge_def)
    ultimately show False using diff_le_mono [OF assms(3), of n] by linarith
  next
    assume "node_start bits (zeros_below bits (Suc idx)) = None"
    then have "node_start bits (zeros_below bits (Suc idx')) = None"
      using mono assms(3) by (auto simp: node_start_def split: if_splits)
    then show False using edge by (auto simp: trie_edge_def)
  qed
qed

lemma label_in_bitmap:
  assumes "at_node bits n idx" "length labels \<le> zeros_below bits (bit_count bits)" "idx - n < length labels"
  shows "idx < bit_count bits"
proof (rule ccontr)
  assume "\<not> idx < bit_count bits"
  then have "n = ones_below bits (bit_count bits)" using assms(1) below_end [of bits idx] by (simp add: at_node_def)
  then have "zeros_below bits (bit_count bits) \<le> idx - n"
    using zeros_ones [of bits "bit_count bits"] \<open>\<not> idx < bit_count bits\<close> by simp
  with assms(2,3) show False by simp
qed

lemma loop_stops:
  assumes labels: "length labels \<le> zeros_below bits (bit_count bits)" and at: "at_node bits n idx"
    and stop: "get_bit bits idx \<or> length labels \<le> idx - n \<or> node_start bits (zeros_below bits (Suc idx)) = None"
  shows "traverse_loop (Suc f) (domain_set_new leaves bits labels) n idx p = Some []"
proof -
  have "select_one (domain_set_index_new bits) (count_zeros (domain_set_index_new bits) bits (idx + 1) - 1) = None"
    if "\<not> get_bit bits idx" "idx - n < length labels"
  proof -
    have "idx < bit_count bits" using label_in_bitmap [OF at labels that(2)] .
    then have "count_zeros (domain_set_index_new bits) bits (idx + 1) = zeros_below bits (Suc idx)" by (simp add: count_zeros_new)
    then show ?thesis using stop that node_start_select [of "zeros_below bits (Suc idx)" bits] by (simp add: below_Suc)
  qed
  then show ?thesis by (simp add: Let_def)
qed

lemma loop_goes_down:
  assumes labels: "length labels \<le> zeros_below bits (bit_count bits)" and at: "at_node bits n idx"
    and zero: "\<not> get_bit bits idx" "idx - n < length labels" and m: "m = zeros_below bits (Suc idx)" "node_start bits m = Some s"
  shows "traverse_loop (Suc f) (domain_set_new leaves bits labels) n idx p =
    (case traverse f (domain_set_new leaves bits labels) m s (p @ [labels ! (idx - n)]) of
       None \<Rightarrow> None
     | Some out \<Rightarrow> map_option (\<lambda>out'. out @ out') (traverse_loop f (domain_set_new leaves bits labels) n (Suc idx) p))"
    and "trie_edge bits labels n idx (labels ! (idx - n)) m" and "idx < bit_count bits"
proof -
  show lt: "idx < bit_count bits" by (rule label_in_bitmap [OF at labels zero(2)])
  then have "count_zeros (domain_set_index_new bits) bits (idx + 1) = m" by (simp add: count_zeros_new m)
  moreover have "m > 0" using zero(1) m by (simp add: below_Suc)
  then obtain t where "select_one (domain_set_index_new bits) (m - 1) = Some t" "s = t + 1"
    using node_start_select [of m bits] m(2) by (cases "select_one (domain_set_index_new bits) (m - 1)") auto
  ultimately show "traverse_loop (Suc f) (domain_set_new leaves bits labels) n idx p =
    (case traverse f (domain_set_new leaves bits labels) m s (p @ [labels ! (idx - n)]) of
       None \<Rightarrow> None
     | Some out \<Rightarrow> map_option (\<lambda>out'. out @ out') (traverse_loop f (domain_set_new leaves bits labels) n (Suc idx) p))"
    using zero by (simp add: Let_def cong: option.case_cong)
  show "trie_edge bits labels n idx (labels ! (idx - n)) m"
    using at zero m lt by (auto simp: trie_edge_def at_node_def below_Suc)
qed

text \<open>The paths through the edge at a position that end in a leaf.\<close>

definition leads_to :: "64 word list \<Rightarrow> byte list \<Rightarrow> 64 word list \<Rightarrow> nat \<Rightarrow> byte list \<Rightarrow> nat \<Rightarrow> byte list \<Rightarrow> bool" where
  "leads_to bits labels leaves n p idx q \<longleftrightarrow>
     (\<exists>c m k. trie_edge bits labels n idx c m \<and> trie_path bits labels m (p @ [c]) k q \<and> get_bit leaves k)"

definition leaf_paths :: "64 word list \<Rightarrow> byte list \<Rightarrow> 64 word list \<Rightarrow> nat \<Rightarrow> byte list \<Rightarrow> byte list set" where
  "leaf_paths bits labels leaves n p = {q. \<exists>k. trie_path bits labels n p k q \<and> get_bit leaves k}"

lemma leaf_paths_unfold:
  assumes "node_start bits n = Some s"
  shows "leaf_paths bits labels leaves n p =
    (if get_bit leaves n then {p} else {}) \<union> {q. \<exists>i. s \<le> i \<and> leads_to bits labels leaves n p i q}"
proof -
  have "s \<le> i" if "trie_edge bits labels n i c m" for i c m using that assms by (simp add: trie_edge_def)
  then have "{q. \<exists>i. s \<le> i \<and> leads_to bits labels leaves n p i q} = {q. \<exists>i. leads_to bits labels leaves n p i q}"
    unfolding leads_to_def by blast
  moreover have "q \<in> leaf_paths bits labels leaves n p \<longleftrightarrow>
      (q = p \<and> get_bit leaves n) \<or> (\<exists>i. leads_to bits labels leaves n p i q)" for q
    unfolding leaf_paths_def leads_to_def mem_Collect_eq by (subst trie_path_iff) blast
  ultimately show ?thesis by auto
qed

lemma leads_to_edge:
  "trie_edge bits labels n i c m \<Longrightarrow> {q. leads_to bits labels leaves n p i q} = leaf_paths bits labels leaves m (p @ [c])"
  unfolding leads_to_def leaf_paths_def by (auto simp: trie_edge_def)

lemma traverse_lists:
  assumes labels: "length labels \<le> zeros_below bits (bit_count bits)" and d: "d = domain_set_new leaves bits labels"
  shows "(\<forall>n s p. at_node bits n s \<and> node_start bits n = Some s \<and> 2 + 2 * (bit_count bits - s) \<le> f \<longrightarrow>
      (\<exists>out. traverse f d n s p = Some out \<and> set out = leaf_paths bits labels leaves n p)) \<and>
    (\<forall>n idx p. at_node bits n idx \<and> 1 + 2 * (bit_count bits - idx) \<le> f \<longrightarrow>
      (\<exists>out. traverse_loop f d n idx p = Some out \<and> set out = {q. \<exists>i. idx \<le> i \<and> leads_to bits labels leaves n p i q}))"
  (is "?T f \<and> ?L f")
proof (induction f)
  case (Suc f)
  have "?T (Suc f)"
  proof (intro allI impI)
    fix n s p
    assume a: "at_node bits n s \<and> node_start bits n = Some s \<and> 2 + 2 * (bit_count bits - s) \<le> Suc f"
    then obtain out where "traverse_loop f d n s p = Some out" "set out = {q. \<exists>i. s \<le> i \<and> leads_to bits labels leaves n p i q}"
      using conjunct2 [OF Suc.IH, rule_format, of n s p] by auto
    then show "\<exists>out. traverse (Suc f) d n s p = Some out \<and> set out = leaf_paths bits labels leaves n p"
      using a leaf_paths_unfold [of bits n s labels leaves p] by (simp add: d)
  qed
  moreover have "?L (Suc f)"
  proof (intro allI impI)
    fix n idx p
    assume a: "at_node bits n idx \<and> 1 + 2 * (bit_count bits - idx) \<le> Suc f"
    then have at: "at_node bits n idx" ..
    let ?m = "zeros_below bits (Suc idx)"
    consider "get_bit bits idx \<or> length labels \<le> idx - n \<or> node_start bits ?m = None"
      | s where "\<not> get_bit bits idx" "idx - n < length labels" "node_start bits ?m = Some s" by fastforce
    then show "\<exists>out. traverse_loop (Suc f) d n idx p = Some out \<and>
        set out = {q. \<exists>i. idx \<le> i \<and> leads_to bits labels leaves n p i q}"
    proof cases
      case 1
      show ?thesis
        using loop_stops [OF labels at 1, of f leaves p] no_edge_from [OF at 1] d by (auto simp: leads_to_def)
    next
      case (2 s)
      let ?c = "labels ! (idx - n)"
      note down = loop_goes_down(1) [OF labels at 2(1,2) refl 2(3), of f leaves p, folded d]
        loop_goes_down(2,3) [OF labels at 2(1,2) refl 2(3)]
      note child = at_node_child [OF at 2(1) refl 2(3)]
      have fuel: "2 + 2 * (bit_count bits - s) \<le> f" "1 + 2 * (bit_count bits - Suc idx) \<le> f"
        using a child(1) down(3) by linarith+
      obtain out where out: "traverse f d ?m s (p @ [?c]) = Some out" "set out = {q. leads_to bits labels leaves n p idx q}"
        using conjunct1 [OF Suc.IH, rule_format, of ?m s "p @ [?c]"] child(2) 2(3) fuel(1) leads_to_edge [OF down(2)] by auto
      obtain out' where out': "traverse_loop f d n (Suc idx) p = Some out'"
          "set out' = {q. \<exists>i. Suc idx \<le> i \<and> leads_to bits labels leaves n p i q}"
        using conjunct2 [OF Suc.IH, rule_format, of n "Suc idx" p] at_node_step [OF at 2(1)] fuel(2) by auto
      have "set (out @ out') = {q. \<exists>i. idx \<le> i \<and> leads_to bits labels leaves n p i q}"
      proof -
        have le: "idx \<le> i \<longleftrightarrow> i = idx \<or> Suc idx \<le> i" for i by auto
        show ?thesis unfolding set_append out(2) out'(2) le by blast
      qed
      with down(1) out(1) out'(1) show ?thesis by simp
    qed
  qed
  ultimately show ?case by blast
qed simp

lemma read_domain_set_new:
  "read_domain_set data = Inr d \<Longrightarrow> d = domain_set_new (ds_leaves d) (ds_label_bitmap d) (ds_labels d)"
  by (auto simp: read_domain_set_def and_then_Inr split: prod.splits if_splits)

subsection \<open>Properties\<close>

text \<open>
  C31: the index built over the label bitmap counts the zero bits below any position, positions past the
  end of the bitmap counting as its end, and finds the position of the one with a given number, when
  there is one.
\<close>

theorem domain_set_index_correct:
  "count_zeros (domain_set_index_new bits) bits k = zeros_below bits (min k (bit_count bits)) \<and>
   select_one (domain_set_index_new bits) k = (if k < length (ones_of bits) then Some (ones_of bits ! k) else None)"
  by (simp add: count_zeros_new select_one_def select_ones_new)

text \<open>
  C30: an upstream domain set with no more labels than zero bits in its bitmap is read completely: with
  a recursion of two levels for each bit the traversal returns, and the entries are the domains whose
  reversed bytes are the labels on the paths of the trie from the root to the leaves, except those that
  are not valid UTF-8.
\<close>

theorem upstream_domain_set_read:
  assumes "read_domain_set data = Inr d" "length (ds_labels d) \<le> zeros_below (ds_label_bitmap d) (bit_count (ds_label_bitmap d))"
    "2 + 2 * bit_count (ds_label_bitmap d) \<le> fuel"
  shows "\<exists>entries. parse_upstream_domain_set fuel data = Some (Inr entries) \<and>
    set entries = {str_of (rev q) | q. utf8_ok (rev q) \<and> q \<in> leaf_paths (ds_label_bitmap d) (ds_labels d) (ds_leaves d) 0 []}"
proof -
  have "at_node (ds_label_bitmap d) 0 0" "node_start (ds_label_bitmap d) 0 = Some 0"
    by (simp_all add: at_node_def node_start_def ones_below_def)
  then obtain out where "traverse fuel d 0 0 [] = Some out"
      "set out = leaf_paths (ds_label_bitmap d) (ds_labels d) (ds_leaves d) 0 []"
    using conjunct1 [OF traverse_lists [OF assms(2) read_domain_set_new [OF assms(1)], of fuel], rule_format, of 0 0 "[]"]
      assms(3) by auto
  then show ?thesis using assms(1) by (auto simp: parse_upstream_domain_set_def domain_set_entries_def)
qed

lemma read_words:
  "v < 2 ^ 63 \<Longrightarrow> read_i64_be what \<lparr>rd_pos = p, rd_rest = be_bytes 8 v @ rest\<rparr> = Inr (int v, \<lparr>rd_pos = p + 8, rd_rest = rest\<rparr>)"
  "read_u64_be what \<lparr>rd_pos = p, rd_rest = be_bytes 8 w @ rest\<rparr> = Inr (of_nat w, \<lparr>rd_pos = p + 8, rd_rest = rest\<rparr>)"
proof -
  have w: "(of_nat (w mod 256 ^ 8) :: 64 word) = of_nat w" for w
    by (simp add: word_of_nat_eq_iff take_bit_eq_mod)
  have "sint (of_nat v :: 64 word) = int v" if "v < 2 ^ 63"
    using that by (simp add: signed_of_nat signed_take_bit_int_eq_self)
  then show "v < 2 ^ 63 \<Longrightarrow> read_i64_be what \<lparr>rd_pos = p, rd_rest = be_bytes 8 v @ rest\<rparr> = Inr (int v, \<lparr>rd_pos = p + 8, rd_rest = rest\<rparr>)"
    using read_slice_append [of what "be_bytes 8 v" p rest] by (simp only: read_i64_be_def length_be_bytes and_then_simps i64_of_def be_val_bytes w prod.case)
  show "read_u64_be what \<lparr>rd_pos = p, rd_rest = be_bytes 8 w @ rest\<rparr> = Inr (of_nat w, \<lparr>rd_pos = p + 8, rd_rest = rest\<rparr>)"
    using read_slice_append [of what "be_bytes 8 w" p rest] by (simp only: read_u64_be_def length_be_bytes and_then_simps be_val_bytes w prod.case)
qed

lemma domain_set_sample:
  "read_domain_set ([1] @ be_bytes 8 1 @ be_bytes 8 2 @ be_bytes 8 1 @ be_bytes 8 6 @ be_bytes 8 1 @ bytes_of ''a'') =
     Inr (domain_set_new [2] [6] (bytes_of ''a''))"
proof -
  have u8: "read_u8 what \<lparr>rd_pos = p, rd_rest = b # rest\<rparr> = Inr (b, \<lparr>rd_pos = p + 1, rd_rest = rest\<rparr>)" for what p b rest
    by (simp add: read_u8_def read_slice_def)
  show ?thesis
    by (simp add: read_domain_set_def read_u64_vec_def reader_new_def u8 read_words max_u64_capacity_def read_slice_def bytes_of_def
        del: be_bytes.simps)
qed

theorem upstream_domain_set_read_witness:
  "\<exists>entries. parse_upstream_domain_set 130
      ([1] @ be_bytes 8 1 @ be_bytes 8 2 @ be_bytes 8 1 @ be_bytes 8 6 @ be_bytes 8 1 @ bytes_of ''a'') = Some (Inr entries) \<and>
    set entries = {str_of (rev q) | q. utf8_ok (rev q) \<and> q \<in> leaf_paths [6] (bytes_of ''a'') [2] 0 []}"
proof -
  have "zeros_below [6] (bit_count [6]) = 62" by code_simp
  then show ?thesis using upstream_domain_set_read [OF domain_set_sample, of 130] by (simp add: bit_count_def bytes_of_def)
qed

text \<open>The bitmap of a chain of 32 edges, a zero and a one for each.\<close>

definition chain_bitmap :: "64 word list" where
  "chain_bitmap = [0xAAAAAAAAAAAAAAAA]"

lemma chain_bits: "get_bit chain_bitmap i \<longleftrightarrow> i < 64 \<and> odd i"
proof (cases "i < 64")
  case True
  have "list_all (\<lambda>i. get_bit chain_bitmap i \<longleftrightarrow> odd i) [0..<64]" by code_simp
  then show ?thesis using True unfolding list_all_iff set_upt by simp
qed (auto dest: get_bit_less simp: bit_count_def chain_bitmap_def)

lemma chain_below: "n \<le> 32 \<Longrightarrow> zeros_below chain_bitmap (2 * n) = n \<and> ones_below chain_bitmap (2 * n) = n"
  by (induction n) (simp_all add: below_Suc chain_bits, simp add: zeros_below_def ones_below_def)

lemma ones_of_nth: "get_bit bits t \<Longrightarrow> ones_below bits t < length (ones_of bits) \<and> ones_of bits ! ones_below bits t = t"
  using upt_split [of t "bit_count bits"] get_bit_less [of bits t] by (simp add: ones_of_def ones_below_def nth_append)

lemma chain_index:
  assumes "n < 32"
  shows "count_zeros (domain_set_index_new chain_bitmap) chain_bitmap (Suc (2 * n)) = Suc n"
    "select_one (domain_set_index_new chain_bitmap) n = Some (Suc (2 * n))"
proof -
  have len: "bit_count chain_bitmap = 64" by (simp add: bit_count_def chain_bitmap_def)
  show "count_zeros (domain_set_index_new chain_bitmap) chain_bitmap (Suc (2 * n)) = Suc n"
    using assms chain_below [of n] by (simp add: count_zeros_new len min_absorb1 below_Suc chain_bits)
  have "ones_below chain_bitmap (Suc (2 * n)) = n" using assms chain_below [of n] by (simp add: below_Suc chain_bits)
  then show "select_one (domain_set_index_new chain_bitmap) n = Some (Suc (2 * n))"
    using assms ones_of_nth [of chain_bitmap "Suc (2 * n)"] by (simp add: select_one_def select_ones_new chain_bits)
qed

lemma chain_end: "traverse f (domain_set_new leaves chain_bitmap (replicate 33 c)) 32 64 p = None \<and>
   traverse_loop f (domain_set_new leaves chain_bitmap (replicate 33 c)) 32 64 p = None"
proof (induction f arbitrary: p)
  case (Suc f)
  have "count_zeros (domain_set_index_new chain_bitmap) chain_bitmap 65 = 32"
    using chain_below [of 32] by (simp add: count_zeros_new bit_count_def) (simp add: chain_bitmap_def)
  moreover have "select_one (domain_set_index_new chain_bitmap) 31 = Some 63" using chain_index(2) [of 31] by simp
  ultimately show ?case using Suc by (simp add: Let_def chain_bits)
qed simp

lemma chain_node:
  assumes "n < 32" "\<And>f p. traverse f (domain_set_new leaves chain_bitmap (replicate 33 c)) (Suc n) (2 * Suc n) p = None"
  shows "traverse f (domain_set_new leaves chain_bitmap (replicate 33 c)) n (2 * n) p = None"
proof -
  have "traverse_loop f (domain_set_new leaves chain_bitmap (replicate 33 c)) n (2 * n) p = None" for f
    using assms chain_index [of n] by (cases f) (simp_all add: Let_def chain_bits)
  then show ?thesis by (cases f) simp_all
qed

text \<open>
  C32: the traversal of a malformed domain set does not end: for a bitmap with as many ones as zeros, all
  of them on a chain of 32 edges, and one label too many, no depth of recursion is enough, so reading
  such a file exhausts the stack instead of giving an error.
\<close>

theorem malformed_domain_set_diverges:
  "traverse fuel (domain_set_new leaves chain_bitmap (replicate 33 c)) 0 0 [] = None"
proof -
  have "traverse f (domain_set_new leaves chain_bitmap (replicate 33 c)) (32 - k) (2 * (32 - k)) p = None" if "k \<le> 32" for k f p
    using that
  proof (induction k arbitrary: f p)
    case (Suc k)
    show ?case
    proof (rule chain_node)
      have "Suc (32 - Suc k) = 32 - k" using Suc.prems by simp
      then show "traverse f (domain_set_new leaves chain_bitmap (replicate 33 c)) (Suc (32 - Suc k)) (2 * Suc (32 - Suc k)) p = None"
        for f p using Suc by (simp only:)
    qed simp
  qed (simp add: chain_end)
  from this [of 32 fuel "[]"] show ?thesis by simp
qed

end
