(* ===== verification/RuleSets.thy ===== *)
theory RuleSets
  imports RuleParser MrsDomainSet
begin

text \<open>
  Rule providers, \<open>meow-rules/src/rule_set.rs\<close>: building the three kinds of rule set from entries and
  from binary files. Decompression is an argument, as is the recursion depth of the upstream format.
  The lemmas relate the sets to their entries, and files to the entries they were written from.
\<close>

subsection \<open>Names\<close>

definition behavior_from_str :: "string \<Rightarrow> rule_set_behavior option" where
  "behavior_from_str s =
     (let l = to_ascii_lowercase s in
      if l = ''domain'' then Some BehDomain
      else if l = ''ipcidr'' \<or> l = ''ip-cidr'' then Some BehIpCidr
      else if l = ''classical'' then Some BehClassical
      else None)"

fun behavior_display :: "rule_set_behavior \<Rightarrow> string" where
  "behavior_display BehDomain = ''Domain''"
| "behavior_display BehIpCidr = ''IPCIDR''"
| "behavior_display BehClassical = ''Classical''"

datatype rule_set_format = FmtYaml | FmtText | FmtMrs

definition format_from_str :: "string \<Rightarrow> rule_set_format option" where
  "format_from_str s =
     (let l = to_ascii_lowercase s in
      if l = ''yaml'' then Some FmtYaml
      else if l = ''text'' then Some FmtText
      else if l = ''mrs'' then Some FmtMrs
      else None)"

subsection \<open>Building a set from entries\<close>

definition domain_set_step :: "string \<Rightarrow> unit domain_trie \<times> nat \<Rightarrow> unit domain_trie \<times> nat" where
  "domain_set_step entry0 st =
     (let entry = trim entry0 in
      if entry = [] then st
      else (let (trie1, inserted) = trie_insert (fst st) entry ();
                (trie2, bare_inserted) =
                  (case strip_prefix ''+.'' entry of
                     Some rest \<Rightarrow> trie_insert trie1 rest ()
                   | None \<Rightarrow> (trie1, True))
            in (trie2, if inserted \<or> bare_inserted then snd st + 1 else snd st)))"

definition domain_set_from_entries :: "string list \<Rightarrow> rule_set" where
  "domain_set_from_entries entries =
     (let (trie, count) = fold domain_set_step entries (trie_new, 0) in DomainRuleSet (trie_seal trie) count)"

definition ipcidr_set_step :: "ext \<Rightarrow> string \<Rightarrow> iprange \<times> iprange \<times> nat \<Rightarrow> iprange \<times> iprange \<times> nat" where
  "ipcidr_set_step X entry0 st =
     (let entry = trim entry0; (v4, v6, count) = st in
      if entry = [] then st
      else case parse_net X entry of
        Some (NetV4 a p) \<Rightarrow> (RangeAdd (NetV4 a p) v4, v6, count + 1)
      | Some (NetV6 a p) \<Rightarrow> (v4, RangeAdd (NetV6 a p) v6, count + 1)
      | None \<Rightarrow> st)"

definition ipcidr_set_from_entries :: "ext \<Rightarrow> string list \<Rightarrow> rule_set" where
  "ipcidr_set_from_entries X entries =
     (let (v4, v6, count) = fold (ipcidr_set_step X) entries (RangeNew, RangeNew, 0) in
      IpCidrRuleSet (RangeSimplify v4) (RangeSimplify v6) count)"

definition set_placeholder :: string where
  "set_placeholder = ''RULE-SET-PLACEHOLDER''"

definition splice_placeholder_adapter :: "string \<Rightarrow> string" where
  "splice_placeholder_adapter entry =
     (case splitn 3 (CHR '','') entry of
        [ty, payload] \<Rightarrow> trim ty @ '','' @ trim payload @ '','' @ set_placeholder
      | [ty, payload, rest] \<Rightarrow> trim ty @ '','' @ trim payload @ '','' @ set_placeholder @ '','' @ trim rest
      | _ \<Rightarrow> entry)"

fun classical_rules :: "ext \<Rightarrow> parser_context \<Rightarrow> string list \<Rightarrow> nat \<Rightarrow> rule list \<times> nat" where
  "classical_rules X ctx [] n = ([], n)"
| "classical_rules X ctx (e # es) n =
     (let entry = trim e in
      if entry = [] then classical_rules X ctx es n
      else (let (res, n1) = parse_rule X ctx (splice_placeholder_adapter entry) n;
                (rs, n2) = classical_rules X ctx es n1
            in (case res of Inl _ \<Rightarrow> rs | Inr r \<Rightarrow> r # rs, n2)))"

definition classical_set_from_entries :: "ext \<Rightarrow> parser_context \<Rightarrow> string list \<Rightarrow> nat \<Rightarrow> rule_set \<times> nat" where
  "classical_set_from_entries X ctx entries n =
     (let (rs, n') = classical_rules X ctx entries n in (ClassicalRuleSet rs, n'))"

definition build_rule_set ::
  "ext \<Rightarrow> parser_context \<Rightarrow> rule_set_behavior \<Rightarrow> string list \<Rightarrow> nat \<Rightarrow> rule_set \<times> nat" where
  "build_rule_set X ctx behavior entries n =
     (case behavior of
        BehDomain \<Rightarrow> (domain_set_from_entries entries, n)
      | BehIpCidr \<Rightarrow> (ipcidr_set_from_entries X entries, n)
      | BehClassical \<Rightarrow> classical_set_from_entries X ctx entries n)"

subsection \<open>Building a set from a file\<close>

datatype set_error =
    SetMrs mrs_error | BehaviorMismatch rule_set_behavior rule_set_behavior | UpstreamClassical | BadTypeTag byte
  | TruncatedLength | TruncatedEntry nat | BadUtf8 | UnknownFamily byte | TruncatedAddress

definition is_mrs_bytes :: "byte list \<Rightarrow> bool" where
  "is_mrs_bytes bytes \<longleftrightarrow> length bytes \<ge> 4 \<and> (take 4 bytes = mrs_magic \<or> take 4 bytes = zstd_magic)"

definition behavior_from_type_tag :: "byte \<Rightarrow> set_error + rule_set_behavior" where
  "behavior_from_type_tag tag =
     (if tag = type_domain then Inr BehDomain
      else if tag = type_ipcidr then Inr BehIpCidr
      else if tag = type_classical then Inr BehClassical
      else Inl (BadTypeTag tag))"

function string_list_at :: "nat \<Rightarrow> byte list \<Rightarrow> set_error + string list" where
  "string_list_at pos bs =
     (if bs = [] then Inr []
      else if length bs < 2 then Inl TruncatedLength
      else (let len = be_val (take 2 bs); rest = drop 2 bs in
            if len > length rest then Inl (TruncatedEntry (pos + 2))
            else if \<not> utf8_ok (take len rest) then Inl BadUtf8
            else map_sum id ((#) (str_of (take len rest))) (string_list_at (pos + 2 + len) (drop len rest))))"
  by pat_completeness auto
termination by (relation "measure (\<lambda>(_, bs). length bs)") auto

declare string_list_at.simps [simp del]

definition parse_string_list_payload :: "byte list \<Rightarrow> set_error + string list" where
  "parse_string_list_payload decompressed = string_list_at 0 decompressed"

function parse_ipcidr_payload :: "byte list \<Rightarrow> set_error + string list" where
  "parse_ipcidr_payload bs =
     (case bs of
        [] \<Rightarrow> Inr []
      | family # rest \<Rightarrow>
          if family \<noteq> 4 \<and> family \<noteq> 16 then Inl (UnknownFamily family)
          else (let addr_len = unat family in
                if addr_len + 1 > length rest then Inl TruncatedAddress
                else (let addr = be_val (take addr_len rest); prefix_len = unat (rest ! addr_len);
                          cidr = (if family = 4 then show_ipv4 (of_nat addr) else show_ipv6 (of_nat addr)) @
                            ''/'' @ show_nat prefix_len
                      in map_sum id ((#) cidr) (parse_ipcidr_payload (drop (addr_len + 1) rest)))))"
  by pat_completeness auto
termination by (relation "measure length") auto

declare parse_ipcidr_payload.simps [simp del]

definition check_behavior ::
  "rule_set_behavior option \<Rightarrow> rule_set_behavior \<Rightarrow> set_error + rule_set_behavior" where
  "check_behavior expected actual =
     (case expected of
        Some e \<Rightarrow> if e \<noteq> actual then Inl (BehaviorMismatch e actual) else Inr actual
      | None \<Rightarrow> Inr actual)"

definition build_from_upstream ::
  "ext \<Rightarrow> rule_set_behavior option \<Rightarrow> upstream_payload \<Rightarrow> set_error + rule_set" where
  "build_from_upstream X expected payload =
     and_then (behavior_from_type_tag (up_behavior payload)) (\<lambda>actual0.
     and_then (check_behavior expected actual0) (\<lambda>actual.
       case actual of
         BehDomain \<Rightarrow> Inr (domain_set_from_entries (up_entries payload))
       | BehIpCidr \<Rightarrow> Inr (ipcidr_set_from_entries X (up_entries payload))
       | BehClassical \<Rightarrow> Inl UpstreamClassical))"

definition file_entries :: "byte \<Rightarrow> byte list \<Rightarrow> set_error + string list" where
  "file_entries tag payload =
     (if tag = type_domain then parse_string_list_payload payload
      else if tag = type_ipcidr then parse_ipcidr_payload payload
      else if tag = type_classical then parse_string_list_payload payload
      else Inl (BadTypeTag tag))"

definition read_own_file ::
  "(byte list \<Rightarrow> byte list option) \<Rightarrow> rule_set_behavior option \<Rightarrow> byte list \<Rightarrow>
   set_error + (rule_set_behavior \<times> string list)" where
  "read_own_file unzstd expected bytes =
     and_then (map_sum SetMrs id (parse_header bytes)) (\<lambda>(hdr, compressed).
     and_then (behavior_from_type_tag (hdr_type_tag hdr)) (\<lambda>actual0.
     and_then (check_behavior expected actual0) (\<lambda>actual.
     and_then (map_sum SetMrs id (decompress_payload unzstd compressed)) (\<lambda>payload.
     and_then (file_entries (hdr_type_tag hdr) payload) (\<lambda>entries. Inr (actual, entries))))))"

definition build_rule_set_from_mrs_with_behavior ::
  "ext \<Rightarrow> (byte list \<Rightarrow> byte list option) \<Rightarrow> nat \<Rightarrow> parser_context \<Rightarrow> byte list \<Rightarrow> rule_set_behavior option \<Rightarrow> nat \<Rightarrow>
   ((set_error + rule_set) \<times> nat) option" where
  "build_rule_set_from_mrs_with_behavior X unzstd fuel ctx bytes expected n =
     (if length bytes \<ge> 4 \<and> take 4 bytes = zstd_magic then
        map_option (\<lambda>res. (and_then (map_sum SetMrs id res) (build_from_upstream X expected), n))
          (parse_upstream_ruleset_mrs unzstd fuel bytes)
      else
        (case read_own_file unzstd expected bytes of
           Inl e \<Rightarrow> Some (Inl e, n)
         | Inr (actual, entries) \<Rightarrow> Some (apfst Inr (build_rule_set X ctx actual entries n))))"

definition build_rule_set_from_mrs ::
  "ext \<Rightarrow> (byte list \<Rightarrow> byte list option) \<Rightarrow> nat \<Rightarrow> parser_context \<Rightarrow> byte list \<Rightarrow> nat \<Rightarrow>
   ((set_error + rule_set) \<times> nat) option" where
  "build_rule_set_from_mrs X unzstd fuel ctx bytes n =
     build_rule_set_from_mrs_with_behavior X unzstd fuel ctx bytes None n"

subsection \<open>Domain sets\<close>

definition expand_entry :: "string \<Rightarrow> string list" where
  "expand_entry e =
     (let entry = trim e in
      if entry = [] then [] else entry # (case strip_prefix ''+.'' entry of Some rest \<Rightarrow> [rest] | None \<Rightarrow> []))"

lemma domain_set_fold:
  "fst (fold domain_set_step es st) =
     fold (\<lambda>(d, v) t. fst (trie_insert t d v)) (map (\<lambda>d. (d, ())) (concat (map expand_entry es))) (fst st)"
proof (induction es arbitrary: st)
  case (Cons e es)
  have "fst (domain_set_step e st) = fold (\<lambda>(d, v) t. fst (trie_insert t d v)) (map (\<lambda>d. (d, ())) (expand_entry e)) (fst st)"
    by (simp add: domain_set_step_def expand_entry_def Let_def split_def split: option.split)
  with Cons show ?case by simp
qed simp

lemma domain_set_trie:
  "\<exists>count. domain_set_from_entries es =
     DomainRuleSet (trie_seal (trie_of (map (\<lambda>d. (d, ())) (concat (map expand_entry es))))) count"
  using domain_set_fold [of es "(trie_new, 0)"] by (simp add: domain_set_from_entries_def trie_of_def split_def Let_def)

text \<open>What an entry stands for: its pattern and, for \<open>+.name\<close>, also \<open>name\<close> itself.\<close>

definition entry_covers :: "string \<Rightarrow> string \<Rightarrow> bool" where
  "entry_covers e q \<longleftrightarrow> list_ex (\<lambda>d. domain_pattern_matches d q) (expand_entry e)"

subsection \<open>Address sets\<close>

fun same_family :: "ipnet \<Rightarrow> ipaddr \<Rightarrow> bool" where
  "same_family (NetV4 _ _) (V4 _) = True"
| "same_family (NetV6 _ _) (V6 _) = True"
| "same_family _ _ = False"

definition entry_holds :: "ext \<Rightarrow> ipaddr \<Rightarrow> string \<Rightarrow> bool" where
  "entry_holds X ip e \<longleftrightarrow>
     trim e \<noteq> [] \<and> (case parse_net X (trim e) of Some net \<Rightarrow> same_family net ip \<and> net_contains X net ip | None \<Rightarrow> False)"

lemma ipcidr_set_fold:
  "range_has X (fst (fold (ipcidr_set_step X) es (v4, v6, c))) (V4 a) \<longleftrightarrow> range_has X v4 (V4 a) \<or> list_ex (entry_holds X (V4 a)) es"
  "range_has X (fst (snd (fold (ipcidr_set_step X) es (v4, v6, c)))) (V6 b) \<longleftrightarrow> range_has X v6 (V6 b) \<or> list_ex (entry_holds X (V6 b)) es"
  by (induction es arbitrary: v4 v6 c)
    (auto simp: ipcidr_set_step_def entry_holds_def Let_def split: option.splits ipnet.splits)

lemma ipcidr_set_matches_entries:
  assumes "ext_laws X"
  shows "rule_set_matches X (ipcidr_set_from_entries X es) m \<longleftrightarrow>
    (case md_dst_ip m of None \<Rightarrow> False | Some ip \<Rightarrow> list_ex (entry_holds X ip) es)"
proof -
  obtain v4 v6 c where f: "fold (ipcidr_set_step X) es (RangeNew, RangeNew, 0) = (v4, v6, c)" by (metis prod_cases3)
  have host: "range_contains X (RangeSimplify r) (NetV4 a 32) \<longleftrightarrow> range_has X r (V4 a)"
      "range_contains X (RangeSimplify r) (NetV6 b 128) \<longleftrightarrow> range_has X r (V6 b)" for r a b
    using range_contains_host [OF assms, of r "V4 a"] range_contains_host [OF assms, of r "V6 b"] by simp_all
  show ?thesis
    using ipcidr_set_fold [of X es RangeNew RangeNew 0] f
    by (simp add: ipcidr_set_from_entries_def host split: option.split ipaddr.split)
qed

subsection \<open>Files\<close>

lemma string_list_enc: "list_all good_string es \<Longrightarrow> string_list_at pos (concat (map enc_string es)) = Inr es"
proof (induction es arbitrary: pos)
  case (Cons e es)
  let ?rest = "concat (map enc_string es)"
  obtain x y where b: "be_bytes 2 (length e) = [x, y]" by (simp add: numeral_2_eq_2)
  have "be_val (be_bytes 2 (length e)) = length e" using Cons.prems by (simp add: be_val_bytes good_string_def)
  then have "string_list_at pos ([x, y] @ bytes_of e @ ?rest) = map_sum id ((#) e) (string_list_at (pos + 2 + length e) ?rest)"
    using Cons.prems b by (subst string_list_at.simps) (simp add: Let_def good_string_def)
  moreover have "enc_string e = [x, y] @ bytes_of e" by (simp add: enc_string_def b)
  ultimately show ?case using Cons by simp
qed (simp add: string_list_at.simps)

lemma mrs_file_magic: "take 4 (mrs_file tag count compressed) = mrs_magic"
  by (simp add: mrs_file_def mrs_magic_def bytes_of_def)

lemma magics_differ: "mrs_magic \<noteq> zstd_magic"
  by code_simp

text \<open>What is relied on of zstd: decompression undoes compression.\<close>

definition undoes :: "(byte list \<Rightarrow> byte list option) \<Rightarrow> (byte list \<Rightarrow> byte list option) \<Rightarrow> bool" where
  "undoes unzstd zstd \<longleftrightarrow> (\<forall>x y. zstd x = Some y \<longrightarrow> unzstd y = Some x)"

lemma undoes_Some: "undoes Some Some"
  by (simp add: undoes_def)

lemma written_magic: "write_ruleset_mrs zstd tag entries = Inr bytes \<Longrightarrow> take 4 bytes = mrs_magic \<and> length bytes \<ge> 4"
  by (auto simp: write_ruleset_mrs_def mrs_file_magic split: option.splits) (simp add: mrs_file_def mrs_magic_def)

lemma read_own_file_written:
  assumes "write_ruleset_mrs zstd tag entries = Inr bytes" "undoes unzstd zstd"
    "length entries < 2 ^ 32"
  shows "read_own_file unzstd None bytes =
      and_then (behavior_from_type_tag tag) (\<lambda>actual.
      and_then (file_entries tag (concat (map enc_string entries))) (\<lambda>es. Inr (actual, es)))"
proof -
  from assms(1) obtain y where y: "zstd (concat (map enc_string entries)) = Some y"
      and bytes: "bytes = mrs_file tag (length entries) y"
    by (auto simp: write_ruleset_mrs_def split: option.splits)
  show ?thesis
    using assms(2) y by (simp add: undoes_def read_own_file_def bytes parse_header_file [OF assms(3)] decompress_payload_def check_behavior_def)
qed

lemma build_from_own_file:
  "take 4 bytes = mrs_magic \<Longrightarrow> build_rule_set_from_mrs X unzstd fuel ctx bytes n =
     (case read_own_file unzstd None bytes of
        Inl e \<Rightarrow> Some (Inl e, n)
      | Inr (actual, entries) \<Rightarrow> Some (apfst Inr (build_rule_set X ctx actual entries n)))"
  using magics_differ by (simp add: build_rule_set_from_mrs_def build_rule_set_from_mrs_with_behavior_def)

subsection \<open>Logic rules in classical sets\<close>

text \<open>The number of parentheses left open by a text, when it closes none that it did not open.\<close>

fun level :: "nat \<Rightarrow> string \<Rightarrow> nat option" where
  "level d [] = Some d"
| "level d (c # s) =
     (if c = CHR ''('' then level (d + 1) s
      else if c = CHR '')'' then (if d = 0 then None else level (d - 1) s)
      else level d s)"

lemma level_append: "level d (a @ b) = (case level d a of None \<Rightarrow> None | Some d' \<Rightarrow> level d' b)"
  by (induction d a rule: level.induct) auto

lemma level_plain: "CHR ''('' \<notin> set s \<Longrightarrow> CHR '')'' \<notin> set s \<Longrightarrow> level d s = Some d"
  by (induction s) auto

lemma split_close_level: "level d t = Some 0 \<Longrightarrow> split_close d (t @ CHR '')'' # b) = Some (t, b)"
  by (induction d t rule: level.induct) (auto split: if_splits)

lemma level_filter: "level d (filter (\<lambda>c. c = CHR ''('' \<or> c = CHR '')'') s) = level d s"
  by (induction d s rule: level.induct) auto

lemma level_trim:
  "level d (trim s) = level d s" "level d (trim_start s) = level d s"
proof -
  have ws: "filter (\<lambda>c. c = CHR ''('' \<or> c = CHR '')'') (dropWhile is_ws s) = filter (\<lambda>c. c = CHR ''('' \<or> c = CHR '')'') s" for s
    by (induction s) (auto simp: is_ws_def)
  have "filter (\<lambda>c. c = CHR ''('' \<or> c = CHR '')'') (trim_start s) = filter (\<lambda>c. c = CHR ''('' \<or> c = CHR '')'') s"
    by (simp add: trim_start_def ws)
  then show start: "level d (trim_start s) = level d s" by (metis level_filter)
  have "filter (\<lambda>c. c = CHR ''('' \<or> c = CHR '')'') (trim_end_matches is_ws t) = filter (\<lambda>c. c = CHR ''('' \<or> c = CHR '')'') t" for t
    using ws [of "rev t"] by (simp add: trim_end_matches_def rev_filter [symmetric])
  then have "level d (trim s) = level d (trim_start s)" unfolding trim_def by (metis level_filter)
  with start show "level d (trim s) = level d s" by simp
qed

lemma trim_start_append: "\<not> is_ws c \<Longrightarrow> trim_start (a @ c # b) = trim_start a @ c # b"
  by (induction a) (simp_all add: trim_start_def)

lemma trim_around:
  "\<not> is_ws c \<Longrightarrow> trim (a @ [c]) = trim_start a @ [c]" "\<not> is_ws c \<Longrightarrow> trim (c # a) = c # trim_end_matches is_ws a"
proof -
  show "\<not> is_ws c \<Longrightarrow> trim (a @ [c]) = trim_start a @ [c]"
    using trim_start_append [of c a "[]"] by (simp add: trim_def trim_end_matches_def)
  assume "\<not> is_ws c"
  then have "dropWhile is_ws (rev a @ [c]) = dropWhile is_ws (rev a) @ [c]"
    using trim_start_append [of c "rev a" "[]"] by (simp add: trim_start_def)
  with \<open>\<not> is_ws c\<close> show "trim (c # a) = c # trim_end_matches is_ws a"
    by (simp add: trim_def trim_start_def trim_end_matches_def)
qed

lemma level_trim_end: "level d (trim_end_matches is_ws s) = level d s"
  using level_trim(1) [of d "CHR '','' # s"] trim_around(2) [of "CHR '',''" s] by (simp add: is_ws_def)

lemma splice_logic:
  assumes "CHR '','' \<notin> set ty" "CHR '','' \<notin> set a"
  shows "splice_placeholder_adapter (ty @ '',('' @ a @ '','' @ b @ '')'') =
    trim ty @ '',('' @ (trim_end_matches is_ws a @ '','' @ set_placeholder @ '','' @ trim_start b) @ '')''"
proof -
  have "splitn 3 (CHR '','') (ty @ CHR '','' # (CHR ''('' # a) @ CHR '','' # b @ '')'') = [ty, CHR ''('' # a, b @ '')'']"
    unfolding numeral_3_eq_3 splitn_simps(1) [OF assms(1)]
    by (subst splitn_simps(1)) (simp_all add: assms(2))
  then show ?thesis
    by (simp add: splice_placeholder_adapter_def trim_around is_ws_def)
qed

lemma parse_logic_no_adapter:
  assumes "is_logic_type (to_ascii_uppercase (trim ty))" "CHR '','' \<notin> set ty" "level 0 inner = Some 0"
  shows "parse_rule X ctx (ty @ '',('' @ inner @ '')'') n = (Inl (ExpectedAdapter (to_ascii_uppercase (trim ty))), n)"
proof -
  have line: "logic_line (ty @ '',('' @ inner @ '')'') = Some (to_ascii_uppercase (trim ty), ''('' @ inner @ '')'')"
    using assms(1,2) by (auto simp: logic_line_Some trim_start_def is_ws_def)
  have "logic_head (to_ascii_uppercase (trim ty)) (''('' @ inner @ '')'') = Inl (ExpectedAdapter (to_ascii_uppercase (trim ty)))"
    using split_close_level [OF assms(3), of "[]"]
    by (simp add: logic_head_def trim_start_def is_ws_def strip_prefix_def)
  with line show ?thesis by (simp add: parse_rule.simps)
qed

subsection \<open>Properties\<close>

text \<open>
  C16: a domain rule set built from entries matches a connection exactly when the connection has a host
  and, after trimming, dropping trailing dots and lowering, the host is matched by the pattern of some
  entry that is not blank; an entry \<open>+.name\<close> matches \<open>name\<close> itself as well.
\<close>

theorem domain_rule_set_matches:
  "rule_set_matches X (fst (build_rule_set X ctx BehDomain entries n)) m \<longleftrightarrow>
     rule_host m \<noteq> [] \<and> list_ex (\<lambda>e. entry_covers e (to_ascii_lowercase (trim_end_dots (trim (rule_host m))))) entries"
proof -
  obtain count where "domain_set_from_entries entries =
      DomainRuleSet (trie_seal (trie_of (map (\<lambda>d. (d, ())) (concat (map expand_entry entries))))) count"
    using domain_set_trie by blast
  then show ?thesis
    using trie_search_found [of "map (\<lambda>d. (d, ())) (concat (map expand_entry entries))" "rule_host m"]
    by (simp add: build_rule_set_def trie_search_seal entry_covers_def list_ex_iff)
qed

text \<open>
  C17: an address rule set built from entries matches a connection exactly when it has a target address
  and some entry parses as a network of the address's family that contains it.
\<close>

theorem ipcidr_rule_set_matches:
  assumes "ext_laws X"
  shows "rule_set_matches X (fst (build_rule_set X ctx BehIpCidr entries n)) m \<longleftrightarrow>
    (case md_dst_ip m of None \<Rightarrow> False | Some ip \<Rightarrow> list_ex (entry_holds X ip) entries)"
  by (simp only: build_rule_set_def rule_set_behavior.case fst_conv ipcidr_set_matches_entries [OF assms])

theorem ipcidr_rule_set_matches_witness:
  "let entries = ['' 10.0.0.0/8 '', ''nonsense'', []];
       rset = fst (build_rule_set ref_ext parser_context_empty BehIpCidr entries 0)
   in rule_set_matches ref_ext rset (default_metadata\<lparr>md_dst_ip := Some (V4 0x0A010203)\<rparr>) \<and>
      \<not> rule_set_matches ref_ext rset (default_metadata\<lparr>md_dst_ip := Some (V4 0x08080808)\<rparr>)"
proof -
  have "trim '' 10.0.0.0/8 '' = ''10.0.0.0/8''" "trim ''nonsense'' = ''nonsense''" by code_simp+
  moreover have "ref_parse_net ''10.0.0.0/8'' = Some (NetV4 0x0A000000 8)" "ref_parse_net ''nonsense'' = None"
    by (simp_all add: ref_parse_net_def parse_uint_def digits_val_def is_digit_def split_once_def)
  ultimately have "list_ex (entry_holds ref_ext (V4 0x0A010203)) ['' 10.0.0.0/8 '', ''nonsense'', []]"
    "\<not> list_ex (entry_holds ref_ext (V4 0x08080808)) ['' 10.0.0.0/8 '', ''nonsense'', []]"
    by (simp_all add: entry_holds_def trim_def trim_start_def trim_end_matches_def)
  then show ?thesis by (simp only: Let_def ipcidr_rule_set_matches [OF ref_ext_laws]) simp
qed

text \<open>
  C18: a rule-set file written for domains or classical rules reads back as the rule set built from the
  very entries it was written from, and is recognised as such a file. The entries are UTF-8 of at most
  65535 bytes, and decompression undoes compression.
\<close>

theorem ruleset_file_roundtrip:
  assumes "undoes unzstd zstd" "list_all good_string entries" "length entries < 2 ^ 32"
    "write_ruleset_mrs zstd tag entries = Inr bytes" "tag = type_domain \<or> tag = type_classical"
  shows "is_mrs_bytes bytes \<and>
    build_rule_set_from_mrs X unzstd fuel ctx bytes n =
      Some (apfst Inr (build_rule_set X ctx (if tag = type_domain then BehDomain else BehClassical) entries n))"
proof -
  note written = read_own_file_written [OF assms(4,1,3)] written_magic [OF assms(4)]
  have "file_entries tag (concat (map enc_string entries)) = Inr entries"
    using assms(5) string_list_enc [OF assms(2), of 0]
    by (auto simp: file_entries_def parse_string_list_payload_def type_domain_def type_classical_def type_ipcidr_def)
  then have "read_own_file unzstd None bytes = Inr (if tag = type_domain then BehDomain else BehClassical, entries)"
    using written(1) assms(5)
    by (auto simp: behavior_from_type_tag_def type_domain_def type_classical_def type_ipcidr_def)
  then show ?thesis using written(2) by (simp add: is_mrs_bytes_def build_from_own_file)
qed

theorem ruleset_file_roundtrip_witness:
  "\<exists>bytes. write_ruleset_mrs Some type_domain [''+.a.com''] = Inr bytes \<and>
     build_rule_set_from_mrs ref_ext Some 0 parser_context_empty bytes 0 =
       Some (Inr (domain_set_from_entries [''+.a.com'']), 0)"
proof -
  obtain bytes where w: "write_ruleset_mrs Some type_domain [''+.a.com''] = Inr bytes" by (simp add: write_ruleset_mrs_def)
  have "list_all good_string [''+.a.com'']" by (simp add: good_string_def utf8_ok_ascii_string is_ascii_def)
  then show ?thesis
    using w ruleset_file_roundtrip [OF undoes_Some, of "[''+.a.com'']" type_domain bytes ref_ext 0 parser_context_empty 0]
    by (simp add: build_rule_set_def)
qed

text \<open>
  C39: a rule-set file written for addresses cannot be read back: the writer stores text with a length
  in front, the reader takes the first byte for an address family, and for a first entry shorter than
  256 bytes that byte is zero.
\<close>

theorem ipcidr_file_unreadable:
  assumes "undoes unzstd zstd" "length (e # es) < 2 ^ 32" "length e < 256"
    "write_ruleset_mrs zstd type_ipcidr (e # es) = Inr bytes"
  shows "build_rule_set_from_mrs X unzstd fuel ctx bytes n = Some (Inl (UnknownFamily 0), n)"
proof -
  note written = read_own_file_written [OF assms(4,1,2)] written_magic [OF assms(4)]
  have "be_bytes 2 (length e) = [0, of_nat (length e)]" using assms(3) by (simp add: numeral_2_eq_2)
  then have "file_entries type_ipcidr (concat (map enc_string (e # es))) = Inl (UnknownFamily 0)"
    by (simp add: file_entries_def type_domain_def type_ipcidr_def enc_string_def parse_ipcidr_payload.simps)
  then show ?thesis
    using written by (simp add: build_from_own_file behavior_from_type_tag_def type_domain_def type_ipcidr_def)
qed

theorem ipcidr_file_unreadable_witness:
  "\<exists>bytes. write_ruleset_mrs Some type_ipcidr [''10.0.0.0/8''] = Inr bytes \<and>
     build_rule_set_from_mrs ref_ext Some 0 parser_context_empty bytes 0 = Some (Inl (UnknownFamily 0), 0)"
proof -
  obtain bytes where w: "write_ruleset_mrs Some type_ipcidr [''10.0.0.0/8''] = Inr bytes" by (simp add: write_ruleset_mrs_def)
  then show ?thesis
    using ipcidr_file_unreadable [OF undoes_Some, of "''10.0.0.0/8''" "[]" bytes ref_ext 0 parser_context_empty 0] by simp
qed

text \<open>
  C40: a classical rule set has no logic rules: an entry \<open>AND,(...)\<close>, \<open>OR,(...)\<close> or \<open>NOT,(...)\<close> whose
  parentheses are balanced and hold a comma is dropped, because the placeholder adapter goes inside the
  parentheses and the parser misses the adapter behind them.
\<close>

theorem classical_set_drops_logic:
  assumes "is_logic_type (to_ascii_uppercase (trim ty))" "CHR '','' \<notin> set ty" "CHR '','' \<notin> set a"
    "level 0 (a @ '','' @ b) = Some 0"
  shows "classical_rules X ctx ((ty @ '',('' @ a @ '','' @ b @ '')'') # es) n = classical_rules X ctx es n"
proof -
  let ?mid = "trim_end_matches is_ws a @ '','' @ set_placeholder @ '','' @ trim_start b"
  have entry: "trim (ty @ '',('' @ a @ '','' @ b @ '')'') = trim_start ty @ '',('' @ a @ '','' @ b @ '')''"
    using trim_around(1) [of "CHR '')''" "ty @ '',('' @ a @ '','' @ b"] trim_start_append [of "CHR '',''" ty "CHR ''('' # a @ '','' @ b"]
    by (simp add: is_ws_def)
  have ty: "CHR '','' \<notin> set (trim_start ty)" "trim (trim_start ty) = trim ty" "CHR '','' \<notin> set (trim ty)"
    using assms(2) trim_parts [of ty] by (auto simp: trim_start_def trim_def dest: set_dropWhileD) (metis UnCI set_append)
  have "level 0 ?mid = level 0 (a @ '','' @ b)"
    by (simp add: level_append level_trim_end level_trim level_plain set_placeholder_def split: option.split)
  then have "parse_rule X ctx (splice_placeholder_adapter (trim_start ty @ '',('' @ a @ '','' @ b @ '')'')) n =
      (Inl (ExpectedAdapter (to_ascii_uppercase (trim ty))), n)"
    using parse_logic_no_adapter [of "trim ty" ?mid X ctx n] assms ty
      trimmed_trim [of ty, unfolded trimmed_def]
    by (simp only: splice_logic [OF ty(1) assms(3)] ty not_False_eq_True)
  with entry show ?thesis by (simp add: Let_def split_def)
qed

theorem classical_set_drops_logic_witness:
  "fst (classical_rules ref_ext parser_context_empty [''NOT,((DOMAIN,a.com))''] 0) = []"
proof -
  have "is_logic_type (to_ascii_uppercase (trim ''NOT''))" "level 0 ''(DOMAIN,a.com)'' = Some 0" by code_simp+
  then show ?thesis
    using classical_set_drops_logic [of "''NOT''" "''(DOMAIN''" "''a.com)''" ref_ext parser_context_empty "[]" 0] by simp
qed

end
