(* ===== verification/GeositeDat.thy ===== *)
theory GeositeDat
  imports RuleSets
begin

text \<open>
  V2Ray geosite files, \<open>meow-rules/src/geosite_dat.rs\<close>, and the loader of both geosite formats,
  \<open>GeositeDB::from_bytes\<close> of \<open>geosite.rs\<close>. A field of a message is read with the value its wire type
  calls for; \<open>skip_field\<close> reads the same bytes and drops the value. The counters of skipped entries only
  feed a log line and are left out. Maps are association lists, updated in place.
\<close>

subsection \<open>The wire format\<close>

datatype dat_error = DatTruncated nat | VarintOverflow nat | DatInvalidUtf8 nat | UnknownWireType nat nat

fun varint_loop :: "nat \<Rightarrow> nat \<Rightarrow> nat \<Rightarrow> 64 word \<Rightarrow> byte list \<Rightarrow> dat_error + (64 word \<times> byte_reader)" where
  "varint_loop start pos shift result [] = Inl (DatTruncated start)"
| "varint_loop start pos shift result (b # bs) =
     (if shift \<ge> 64 then Inl (VarintOverflow start)
      else (let result' = result OR push_bit shift (ucast (b AND 0x7F)) in
            if b AND 0x80 = 0 then Inr (result', \<lparr>rd_pos = pos + 1, rd_rest = bs\<rparr>)
            else varint_loop start (pos + 1) (shift + 7) result' bs))"

definition read_varint :: "byte_reader \<Rightarrow> dat_error + (64 word \<times> byte_reader)" where
  "read_varint r = varint_loop (rd_pos r) (rd_pos r) 0 0 (rd_rest r)"

definition read_tag :: "byte_reader \<Rightarrow> dat_error + ((32 word \<times> nat) \<times> byte_reader)" where
  "read_tag r = and_then (read_varint r) (\<lambda>(tag, r1). Inr ((ucast (drop_bit 3 tag), unat (tag AND 7)), r1))"

definition read_length_delimited :: "byte_reader \<Rightarrow> dat_error + (byte list \<times> byte_reader)" where
  "read_length_delimited r =
     and_then (read_varint r) (\<lambda>(len, r1).
       if length (rd_rest r1) < unat len then Inl (DatTruncated (rd_pos r))
       else Inr (take (unat len) (rd_rest r1),
                 \<lparr>rd_pos = rd_pos r1 + unat len, rd_rest = drop (unat len) (rd_rest r1)\<rparr>))"

datatype pb_value = PbVarint "64 word" | PbBytes "byte list" | PbFixed

definition skip_fixed :: "nat \<Rightarrow> byte_reader \<Rightarrow> dat_error + (pb_value \<times> byte_reader)" where
  "skip_fixed k r =
     (if length (rd_rest r) < k then Inl (DatTruncated (rd_pos r))
      else Inr (PbFixed, \<lparr>rd_pos = rd_pos r + k, rd_rest = drop k (rd_rest r)\<rparr>))"

definition read_value :: "nat \<Rightarrow> byte_reader \<Rightarrow> dat_error + (pb_value \<times> byte_reader)" where
  "read_value wire r =
     (if wire = 0 then and_then (read_varint r) (\<lambda>(v, r1). Inr (PbVarint v, r1))
      else if wire = 2 then and_then (read_length_delimited r) (\<lambda>(bs, r1). Inr (PbBytes bs, r1))
      else if wire = 1 then skip_fixed 8 r
      else if wire = 5 then skip_fixed 4 r
      else Inl (UnknownWireType (rd_pos r) wire))"

definition read_field :: "byte_reader \<Rightarrow> dat_error + ((32 word \<times> pb_value) \<times> byte_reader)" where
  "read_field r =
     and_then (read_tag r) (\<lambda>((field, wire), r1).
     and_then (read_value wire r1) (\<lambda>(v, r2). Inr ((field, v), r2)))"

text \<open>Every field is shorter than the rest it was read from.\<close>

lemma varint_loop_rest: "varint_loop start pos shift result bs = Inr (v, r) \<Longrightarrow> length (rd_rest r) < length bs"
  by (induction start pos shift result bs rule: varint_loop.induct) (auto simp: Let_def split: if_splits)

lemma read_varint_rest: "read_varint r = Inr (v, r') \<Longrightarrow> length (rd_rest r') < length (rd_rest r)"
  by (auto simp: read_varint_def dest: varint_loop_rest)

lemma read_value_rest: "read_value wire r = Inr (v, r') \<Longrightarrow> length (rd_rest r') \<le> length (rd_rest r)"
  by (auto simp: read_value_def skip_fixed_def read_length_delimited_def and_then_Inr
      dest!: read_varint_rest split: if_splits prod.splits)

lemma read_field_rest: "read_field r = Inr (x, r') \<Longrightarrow> length (rd_rest r') < length (rd_rest r)"
  by (auto simp: read_field_def read_tag_def and_then_Inr dest!: read_varint_rest read_value_rest split: prod.splits)

text \<open>A message: the fields in order, each handed over with the position after it.\<close>

function pb_message ::
  "(32 word \<Rightarrow> pb_value \<Rightarrow> nat \<Rightarrow> 's \<Rightarrow> dat_error + 's) \<Rightarrow> 's \<Rightarrow> byte_reader \<Rightarrow> dat_error + 's" where
  "pb_message handler st r =
     (if rd_rest r = [] then Inr st
      else and_then (read_field r) (\<lambda>x.
        and_then (handler (fst (fst x)) (snd (fst x)) (rd_pos (snd x)) st) (\<lambda>st1. pb_message handler st1 (snd x))))"
  by pat_completeness auto
termination
  by (relation "measure (\<lambda>(_, _, r). length (rd_rest r))") (auto dest: read_field_rest)

declare pb_message.simps [simp del]

subsection \<open>Messages\<close>

definition dat_string :: "nat \<Rightarrow> byte list \<Rightarrow> dat_error + string" where
  "dat_string pos bs = (if utf8_ok bs then Inr (str_of bs) else Inl (DatInvalidUtf8 pos))"

definition attribute_field :: "32 word \<Rightarrow> pb_value \<Rightarrow> nat \<Rightarrow> string option \<Rightarrow> dat_error + string option" where
  "attribute_field field v pos key =
     (case v of
        PbBytes bs \<Rightarrow>
          if field = 1 then
            and_then (dat_string pos bs) (\<lambda>s0. let s = to_ascii_lowercase (trim s0) in Inr (if s \<noteq> [] then Some s else key))
          else Inr key
      | _ \<Rightarrow> Inr key)"

definition parse_attribute_key :: "byte list \<Rightarrow> dat_error + string option" where
  "parse_attribute_key data = pb_message attribute_field None (reader_new data)"

record domain_entry =
  de_type :: "64 word"
  de_value :: string
  de_attrs :: "string list"

record domain_parse =
  dp_type :: "64 word option"
  dp_value :: "string option"
  dp_attrs :: "string list"

definition domain_field :: "32 word \<Rightarrow> pb_value \<Rightarrow> nat \<Rightarrow> domain_parse \<Rightarrow> dat_error + domain_parse" where
  "domain_field field v pos st =
     (case v of
        PbVarint ty \<Rightarrow> if field = 1 then Inr (st\<lparr>dp_type := Some ty\<rparr>) else Inr st
      | PbBytes bs \<Rightarrow>
          if field = 2 then and_then (dat_string pos bs) (\<lambda>s. Inr (st\<lparr>dp_value := Some (to_ascii_lowercase s)\<rparr>))
          else if field = 3 then
            and_then (parse_attribute_key bs) (\<lambda>k.
              Inr (case k of Some key \<Rightarrow> st\<lparr>dp_attrs := dp_attrs st @ [key]\<rparr> | None \<Rightarrow> st))
          else Inr st
      | PbFixed \<Rightarrow> Inr st)"

definition type_plain :: "64 word" where "type_plain = 0"
definition type_regex :: "64 word" where "type_regex = 1"
definition type_suffix :: "64 word" where "type_suffix = 2"
definition type_full :: "64 word" where "type_full = 3"

definition parse_domain_entry :: "byte list \<Rightarrow> dat_error + domain_entry option" where
  "parse_domain_entry data =
     and_then (pb_message domain_field \<lparr>dp_type = None, dp_value = None, dp_attrs = []\<rparr> (reader_new data)) (\<lambda>st.
       Inr (case dp_value st of
              None \<Rightarrow> None
            | Some value \<Rightarrow>
                if value = [] then None
                else Some \<lparr>de_type = (case dp_type st of Some ty \<Rightarrow> ty | None \<Rightarrow> type_plain),
                           de_value = value, de_attrs = dp_attrs st\<rparr>))"

record dat_db =
  dat_categories :: "(string \<times> unit domain_trie) list"
  dat_counts :: "(string \<times> nat) list"
  dat_regexes :: "(string \<times> string list) list"
  dat_keywords :: "(string \<times> string list) list"

definition or_default :: "'b \<Rightarrow> (string \<times> 'b) list \<Rightarrow> string \<Rightarrow> 'b" where
  "or_default d m key = (case map_of m key of Some v \<Rightarrow> v | None \<Rightarrow> d)"

definition insert_domain_entry ::
  "ext \<Rightarrow> domain_entry \<Rightarrow> unit domain_trie \<Rightarrow> string list \<Rightarrow> string list \<Rightarrow>
   bool \<times> unit domain_trie \<times> string list \<times> string list" where
  "insert_domain_entry X e trie regexes keywords =
     (let value = de_value e in
      if de_type e = type_plain then (True, trie, regexes, keywords @ [value])
      else if de_type e = type_regex then
        (if regex_new X value then (True, trie, regexes @ [value], keywords) else (False, trie, regexes, keywords))
      else if de_type e = type_suffix then
        (let trie1 = fst (trie_insert trie value ()); (trie2, ok) = trie_insert trie1 (''+.'' @ value) ()
         in (ok, trie2, regexes, keywords))
      else if de_type e = type_full then
        (let (trie1, ok) = trie_insert trie value () in (ok, trie1, regexes, keywords))
      else (False, trie, regexes, keywords))"

definition dat_insert :: "ext \<Rightarrow> domain_entry \<Rightarrow> string \<Rightarrow> dat_db \<Rightarrow> dat_db" where
  "dat_insert X e key db =
     (let (ok, trie, regexes, keywords) =
        insert_domain_entry X e (or_default trie_new (dat_categories db) key)
          (or_default [] (dat_regexes db) key) (or_default [] (dat_keywords db) key)
      in \<lparr>dat_categories = AList.update key trie (dat_categories db),
          dat_counts = (if ok then AList.update key (or_default 0 (dat_counts db) key + 1) (dat_counts db) else dat_counts db),
          dat_regexes = AList.update key regexes (dat_regexes db),
          dat_keywords = AList.update key keywords (dat_keywords db)\<rparr>)"

definition entry_keys :: "string \<Rightarrow> domain_entry \<Rightarrow> string list" where
  "entry_keys country e = country # map (\<lambda>attr. country @ ''@'' @ attr) (de_attrs e)"

fun insert_entries_of :: "ext \<Rightarrow> string \<Rightarrow> byte list list \<Rightarrow> dat_db \<Rightarrow> dat_error + dat_db" where
  "insert_entries_of X country [] db = Inr db"
| "insert_entries_of X country (bs # rest) db =
     and_then (parse_domain_entry bs) (\<lambda>e.
       insert_entries_of X country rest
         (case e of None \<Rightarrow> db | Some entry \<Rightarrow> fold (dat_insert X entry) (entry_keys country entry) db))"

record site_parse =
  sp_country :: "string option"
  sp_deferred :: "byte list list"
  sp_dominated :: bool

definition site_field ::
  "string list option \<Rightarrow> 32 word \<Rightarrow> pb_value \<Rightarrow> nat \<Rightarrow> site_parse \<Rightarrow> dat_error + site_parse" where
  "site_field allowed field v pos st =
     (case v of
        PbBytes bs \<Rightarrow>
          if field = 1 then
            and_then (dat_string pos bs) (\<lambda>s0.
              let s = to_ascii_lowercase s0 in
              Inr (st\<lparr>sp_country := Some s,
                      sp_dominated := (case allowed of Some cats \<Rightarrow> if s \<notin> set cats then False else sp_dominated st
                                                     | None \<Rightarrow> sp_dominated st)\<rparr>))
          else if field = 2 then
            Inr (if sp_dominated st then st\<lparr>sp_deferred := sp_deferred st @ [bs]\<rparr> else st)
          else Inr st
      | _ \<Rightarrow> Inr st)"

definition parse_geosite_entry :: "ext \<Rightarrow> string list option \<Rightarrow> byte list \<Rightarrow> dat_db \<Rightarrow> dat_error + dat_db" where
  "parse_geosite_entry X allowed data db =
     and_then (pb_message (site_field allowed) \<lparr>sp_country = None, sp_deferred = [], sp_dominated = True\<rparr> (reader_new data))
       (\<lambda>st. case sp_country st of
          None \<Rightarrow> Inr db
        | Some country \<Rightarrow>
            if (case allowed of Some cats \<Rightarrow> country \<notin> set cats | None \<Rightarrow> False) then Inr db
            else insert_entries_of X country (sp_deferred st) db)"

definition list_field :: "ext \<Rightarrow> string list option \<Rightarrow> 32 word \<Rightarrow> pb_value \<Rightarrow> nat \<Rightarrow> dat_db \<Rightarrow> dat_error + dat_db" where
  "list_field X allowed field v pos db =
     (case v of
        PbBytes bs \<Rightarrow> if field = 1 then parse_geosite_entry X allowed bs db else Inr db
      | _ \<Rightarrow> Inr db)"

definition dat_empty :: dat_db where
  "dat_empty = \<lparr>dat_categories = [], dat_counts = [], dat_regexes = [], dat_keywords = []\<rparr>"

definition from_dat_bytes :: "ext \<Rightarrow> byte list \<Rightarrow> string list option \<Rightarrow> dat_error + geosite_db" where
  "from_dat_bytes X data allowed =
     and_then (pb_message (list_field X allowed) dat_empty (reader_new data)) (\<lambda>db.
       Inr (geosite_from_parts X (dat_categories db) (dat_counts db) (dat_regexes db) (dat_keywords db)))"

subsection \<open>Loading either format\<close>

datatype geosite_error = GeoWrongFormat | GeoMrs mrs_error | GeoUnexpectedType byte

definition insert_all :: "string list \<Rightarrow> unit domain_trie \<times> nat" where
  "insert_all domains =
     fold (\<lambda>d (trie, inserted). let (trie', ok) = trie_insert trie d () in (trie', if ok then inserted + 1 else inserted))
       domains (trie_new, 0)"

definition geosite_from_payload :: "(string \<times> string list) list \<Rightarrow> geosite_db" where
  "geosite_from_payload cats =
     fold (\<lambda>(name, domains) db.
         let (trie, inserted) = insert_all domains in
         db\<lparr>categories := AList.update name (trie_seal trie) (categories db),
            counts := AList.update name inserted (counts db)\<rparr>)
       cats geosite_empty"

definition geosite_from_bytes ::
  "ext \<Rightarrow> (byte list \<Rightarrow> byte list option) \<Rightarrow> byte list \<Rightarrow> string list option \<Rightarrow> geosite_error + geosite_db" where
  "geosite_from_bytes X unzstd data allowed =
     (case parse_header data of
        Inr (header, rest) \<Rightarrow>
          if hdr_type_tag header \<noteq> type_domain then Inl (GeoUnexpectedType (hdr_type_tag header))
          else map_sum GeoMrs geosite_from_payload
            (and_then (decompress_payload unzstd rest) (\<lambda>payload. parse_geosite_payload payload allowed))
      | Inl WrongFormat \<Rightarrow> map_sum (\<lambda>_. GeoWrongFormat) id (from_dat_bytes X data allowed)
      | Inl e \<Rightarrow> Inl (GeoMrs e))"

subsection \<open>Writing messages\<close>

text \<open>The encoding of the format: the reference the reader is checked against.\<close>

fun enc_varint :: "nat \<Rightarrow> byte list" where
  "enc_varint n = (if n < 128 then [of_nat n] else of_nat (n mod 128 + 128) # enc_varint (n div 128))"

declare enc_varint.simps [simp del]

lemma or_shift:
  assumes "r < 2 ^ s" "m < 2 ^ (64 - s)" "s < 64"
  shows "(of_nat r OR push_bit s (of_nat m) :: 64 word) = of_nat (r + 2 ^ s * m)"
proof -
  have "of_nat r AND push_bit s (of_nat m) = (0 :: 64 word)"
  proof (rule bit_eqI)
    fix j
    have "\<not> bit r j" if "s \<le> j"
      using assms(1) that by (metis bit_take_bit_iff leD take_bit_nat_eq_self)
    then show "bit (of_nat r AND push_bit s (of_nat m) :: 64 word) j \<longleftrightarrow> bit (0 :: 64 word) j"
      by (auto simp: bit_and_iff bit_push_bit_iff bit_of_nat_iff)
  qed
  then have "(of_nat r OR push_bit s (of_nat m) :: 64 word) = of_nat r + push_bit s (of_nat m)"
    by (simp add: disjunctive_add_eq_or)
  then show ?thesis by (simp add: push_bit_eq_mult mult.commute)
qed

lemma low_bits:
  assumes "m < 128"
  shows "(ucast ((of_nat m :: byte) AND 0x7F) :: 64 word) = of_nat m" "(of_nat m :: byte) AND 0x80 = 0"
    "(ucast ((of_nat (m + 128) :: byte) AND 0x7F) :: 64 word) = of_nat m" "(of_nat (m + 128) :: byte) AND 0x80 \<noteq> 0"
proof -
  have "list_all (\<lambda>m. (ucast ((of_nat m :: byte) AND 0x7F) :: 64 word) = of_nat m \<and> (of_nat m :: byte) AND 0x80 = 0 \<and>
      (ucast ((of_nat (m + 128) :: byte) AND 0x7F) :: 64 word) = of_nat m \<and> (of_nat (m + 128) :: byte) AND 0x80 \<noteq> 0) [0..<128]"
    by code_simp
  then show "(ucast ((of_nat m :: byte) AND 0x7F) :: 64 word) = of_nat m" "(of_nat m :: byte) AND 0x80 = 0"
      "(ucast ((of_nat (m + 128) :: byte) AND 0x7F) :: 64 word) = of_nat m" "(of_nat (m + 128) :: byte) AND 0x80 \<noteq> 0"
    using assms unfolding list_all_iff set_upt by simp_all
qed

lemma shift_sum: "n = 128 * q + m \<Longrightarrow> r + 2 ^ s * m + 2 ^ (s + 7) * q = r + 2 ^ s * (n :: nat)"
  by (simp add: power_add algebra_simps)

lemma enc_varint_ne [simp]: "enc_varint n \<noteq> []"
  by (simp add: enc_varint.simps)

lemma varint_loop_enc:
  assumes "n < 2 ^ (64 - s)" "s < 64" "r < 2 ^ s"
  shows "varint_loop start p s (of_nat r) (enc_varint n @ rest) =
    Inr (of_nat (r + 2 ^ s * n), \<lparr>rd_pos = p + length (enc_varint n), rd_rest = rest\<rparr>)"
  using assms
proof (induction n arbitrary: p s r rule: enc_varint.induct)
  case (1 n)
  let ?m = "n mod 128"
  have shift: "(of_nat r OR push_bit s (of_nat ?m) :: 64 word) = of_nat (r + 2 ^ s * ?m)"
    by (rule or_shift) (use 1 mod_less_eq_dividend [of n 128] in linarith)+
  show ?case
  proof (cases "n < 128")
    case True
    with 1 shift show ?thesis by (subst (1 2) enc_varint.simps) (simp add: low_bits)
  next
    case False
    have "(2::nat) ^ 7 < 2 ^ (64 - s)" using False 1(2) by simp
    then have s: "s + 7 < 64" by (auto simp only: power_strict_increasing_iff)
    have "64 - s = (64 - (s + 7)) + 7" using s by simp
    then have "(2::nat) ^ (64 - s) = 2 ^ (64 - (s + 7)) * 128" by (simp only: power_add) simp
    then have high: "n div 128 < 2 ^ (64 - (s + 7))" using 1(2) by (simp add: div_less_iff_less_mult)
    have "2 ^ s * ?m + 2 ^ s \<le> (2::nat) ^ (s + 7)"
      using mult_le_mono2 [of "Suc ?m" 128 "2 ^ s"] by (simp add: power_add algebra_simps Suc_le_eq)
    then have low: "r + 2 ^ s * ?m < 2 ^ (s + 7)" using 1(4) by linarith
    have sum: "r + 2 ^ s * ?m + 2 ^ (s + 7) * (n div 128) = r + 2 ^ s * n" by (rule shift_sum) simp
    show ?thesis
      using "1.IH" [OF False high s low, of "p + 1"] False shift "1.prems"(2) sum
      by (subst (1 2) enc_varint.simps) (simp add: low_bits [of ?m, simplified])
  qed
qed

lemma read_varint_enc:
  "n < 2 ^ 64 \<Longrightarrow> read_varint \<lparr>rd_pos = p, rd_rest = enc_varint n @ rest\<rparr> =
     Inr (of_nat n, \<lparr>rd_pos = p + length (enc_varint n), rd_rest = rest\<rparr>)"
  using varint_loop_enc [of n 0 0 p p rest] by (simp add: read_varint_def)

fun enc_field :: "nat \<times> pb_value \<Rightarrow> byte list" where
  "enc_field (f, PbVarint v) = enc_varint (8 * f) @ enc_varint (unat v)"
| "enc_field (f, PbBytes bs) = enc_varint (8 * f + 2) @ enc_varint (length bs) @ bs"
| "enc_field (f, PbFixed) = enc_varint (8 * f + 1) @ replicate 8 0"

definition enc_message :: "(nat \<times> pb_value) list \<Rightarrow> byte list" where
  "enc_message fs = concat (map enc_field fs)"

fun good_field :: "nat \<times> pb_value \<Rightarrow> bool" where
  "good_field (f, PbBytes bs) \<longleftrightarrow> f < 2 ^ 29 \<and> length bs < 2 ^ 64"
| "good_field (f, _) \<longleftrightarrow> f < 2 ^ 29"

lemma read_tag_enc:
  assumes "f < 2 ^ 29" "w < 8"
  shows "read_tag \<lparr>rd_pos = p, rd_rest = enc_varint (8 * f + w) @ rest\<rparr> =
    Inr ((of_nat f, w), \<lparr>rd_pos = p + length (enc_varint (8 * f + w)), rd_rest = rest\<rparr>)"
proof -
  have n: "8 * f + w < 2 ^ 64" using assms by simp
  have "drop_bit 3 (of_nat (8 * f + w) :: 64 word) = of_nat f"
    using n assms by (simp only: word_unat_eq_iff unat_drop_bit_eq unat_of_nat) (simp add: drop_bit_eq_div)
  moreover have "ucast (of_nat f :: 64 word) = (of_nat f :: 32 word)"
    using assms by (simp add: word_unat_eq_iff unsigned_ucast_eq unat_of_nat take_bit_nat_eq_self)
  moreover have "unat ((of_nat (8 * f + w) :: 64 word) AND 7) = w"
  proof -
    have "(7 :: 64 word) = mask 3" by (simp add: mask_eq_exp_minus_1)
    then have "(of_nat (8 * f + w) :: 64 word) AND 7 = take_bit 3 (of_nat (8 * f + w))" by (simp only: take_bit_eq_mask)
    then have "unat ((of_nat (8 * f + w) :: 64 word) AND 7) = (8 * f + w) mod 2 ^ 3"
      using n by (simp only: unsigned_take_bit_eq unat_of_nat) (simp add: take_bit_eq_mod)
    with assms(2) show ?thesis by simp
  qed
  ultimately show ?thesis using read_varint_enc [OF n, of p rest] by (simp add: read_tag_def)
qed

lemma read_field_enc:
  assumes "good_field (f, v)"
  shows "read_field \<lparr>rd_pos = p, rd_rest = enc_field (f, v) @ rest\<rparr> =
    Inr ((of_nat f, v), \<lparr>rd_pos = p + length (enc_field (f, v)), rd_rest = rest\<rparr>)"
proof (cases v)
  case (PbVarint x)
  have "unat x < 2 ^ 64" using unsigned_less [where w = x, where 'a = nat] by simp
  then show ?thesis
    using assms read_tag_enc [of f 0 p "enc_varint (unat x) @ rest"] read_varint_enc [of "unat x" _ rest]
    by (simp add: PbVarint read_field_def read_value_def)
next
  case (PbBytes bs)
  then show ?thesis
    using assms read_tag_enc [of f 2 p "enc_varint (length bs) @ bs @ rest"] read_varint_enc [of "length bs" _ "bs @ rest"]
    by (simp add: read_field_def read_value_def read_length_delimited_def unat_of_nat)
next
  case PbFixed
  then show ?thesis
    using assms read_tag_enc [of f 1 p "replicate 8 0 @ rest"] by (simp add: read_field_def read_value_def skip_fixed_def)
qed

lemma enc_field_ne: "enc_field (f, v) \<noteq> []"
  by (cases v) simp_all

text \<open>A message whose handler accepts every field, wherever it stands, folds the handler over the fields.\<close>

lemma pb_message_enc:
  assumes "list_all good_field fs" "\<And>f v pos st. (f, v) \<in> set fs \<Longrightarrow> handler (of_nat f) v pos st = Inr (step (f, v) st)"
  shows "pb_message handler st \<lparr>rd_pos = p, rd_rest = enc_message fs\<rparr> = Inr (fold step fs st)"
  using assms
proof (induction fs arbitrary: p st)
  case (Cons fv fs)
  obtain f v where fv: "fv = (f, v)" by fastforce
  show ?case
    using Cons.IH [where p = "p + length (enc_field (f, v))" and st = "step (f, v) st"] Cons.prems
      read_field_enc [of f v p "enc_message fs"] enc_field_ne [of f v]
    by (subst pb_message.simps) (simp add: fv enc_message_def)
qed (simp add: enc_message_def pb_message.simps)

subsection \<open>What a database holds\<close>

text \<open>The patterns an entry adds to the trie of its category, and the names it matches.\<close>

definition dat_patterns :: "domain_entry \<Rightarrow> string list" where
  "dat_patterns e =
     (if de_type e = type_suffix then [de_value e, ''+.'' @ de_value e]
      else if de_type e = type_full then [de_value e] else [])"

definition dat_entry_matches :: "ext \<Rightarrow> domain_entry \<Rightarrow> string \<Rightarrow> bool" where
  "dat_entry_matches X e q \<longleftrightarrow>
     (if de_type e = type_plain then contains_str (de_value e) q
      else if de_type e = type_regex then regex_new X (de_value e) \<and> regex_is_match X (de_value e) q
      else list_ex (\<lambda>d. domain_pattern_matches d (to_ascii_lowercase (trim_end_dots (trim q)))) (dat_patterns e))"

definition dat_fill :: "ext \<Rightarrow> (string \<times> domain_entry) list \<Rightarrow> dat_db" where
  "dat_fill X pairs = fold (\<lambda>(key, e). dat_insert X e key) pairs dat_empty"

definition entries_at :: "string \<Rightarrow> (string \<times> domain_entry) list \<Rightarrow> domain_entry list" where
  "entries_at key pairs = map snd (filter (\<lambda>p. fst p = key) pairs)"

definition at_key :: "string \<Rightarrow> (string \<times> domain_entry) list \<Rightarrow> (domain_entry list \<Rightarrow> 'a) \<Rightarrow> 'a option" where
  "at_key key pairs f = (if entries_at key pairs = [] then None else Some (f (entries_at key pairs)))"

lemma entries_at_snoc: "entries_at key (pairs @ [(k, e)]) = entries_at key pairs @ (if k = key then [e] else [])"
  by (simp add: entries_at_def)

definition trie_for :: "domain_entry list \<Rightarrow> unit domain_trie" where
  "trie_for es = trie_of (map (\<lambda>d. (d, ())) (concat (map dat_patterns es)))"

definition regexes_for :: "ext \<Rightarrow> domain_entry list \<Rightarrow> string list" where
  "regexes_for X es = filter (regex_new X) (map de_value (filter (\<lambda>e. de_type e = type_regex) es))"

definition keywords_for :: "domain_entry list \<Rightarrow> string list" where
  "keywords_for es = map de_value (filter (\<lambda>e. de_type e = type_plain) es)"

lemma insert_for:
  "snd (insert_domain_entry X e (trie_for es) (regexes_for X es) (keywords_for es)) =
     (trie_for (es @ [e]), regexes_for X (es @ [e]), keywords_for (es @ [e]))"
  by (simp add: insert_domain_entry_def trie_for_def regexes_for_def keywords_for_def dat_patterns_def trie_of_def
      type_plain_def type_regex_def type_suffix_def type_full_def split_def Let_def)

lemma empty_for: "trie_for [] = trie_new" "regexes_for X [] = []" "keywords_for [] = []"
  by (simp_all add: trie_for_def regexes_for_def keywords_for_def trie_of_def)

lemma dat_fill_maps:
  "map_of (dat_categories (dat_fill X pairs)) key = at_key key pairs trie_for \<and>
   map_of (dat_regexes (dat_fill X pairs)) key = at_key key pairs (regexes_for X) \<and>
   map_of (dat_keywords (dat_fill X pairs)) key = at_key key pairs keywords_for"
proof (induction pairs arbitrary: key rule: rev_induct)
  case Nil
  show ?case by (simp add: dat_fill_def dat_empty_def at_key_def entries_at_def)
next
  case (snoc x pairs)
  obtain k e where x: "x = (k, e)" by fastforce
  let ?db = "dat_fill X pairs"
  have "or_default trie_new (dat_categories ?db) k = trie_for (entries_at k pairs)"
    "or_default [] (dat_regexes ?db) k = regexes_for X (entries_at k pairs)"
    "or_default [] (dat_keywords ?db) k = keywords_for (entries_at k pairs)"
    using snoc by (simp_all add: or_default_def at_key_def empty_for)
  then have ins: "dat_categories (dat_insert X e k ?db) = AList.update k (trie_for (entries_at k pairs @ [e])) (dat_categories ?db)"
    "dat_regexes (dat_insert X e k ?db) = AList.update k (regexes_for X (entries_at k pairs @ [e])) (dat_regexes ?db)"
    "dat_keywords (dat_insert X e k ?db) = AList.update k (keywords_for (entries_at k pairs @ [e])) (dat_keywords ?db)"
    using insert_for [of X e "entries_at k pairs"] by (simp_all add: dat_insert_def split_def)
  have db: "dat_fill X (pairs @ [(k, e)]) = dat_insert X e k ?db" by (simp add: dat_fill_def)
  show ?case
    using snoc unfolding x db ins by (simp_all add: update_conv' at_key_def entries_at_snoc)
qed

definition dat_finish :: "ext \<Rightarrow> dat_db \<Rightarrow> geosite_db" where
  "dat_finish X db = geosite_from_parts X (dat_categories db) (dat_counts db) (dat_regexes db) (dat_keywords db)"

lemma list_ex_disj: "list_ex (\<lambda>x. P x \<or> Q x) xs \<longleftrightarrow> list_ex P xs \<or> list_ex Q xs"
  by (induction xs) auto

lemma dat_lookup_resolved:
  "lookup_resolved X (dat_finish X (dat_fill X pairs)) key q \<longleftrightarrow> list_ex (\<lambda>(k, e). k = key \<and> dat_entry_matches X e q) pairs"
proof -
  let ?es = "entries_at key pairs" and ?qn = "to_ascii_lowercase (trim_end_dots (trim q))"
  have map: "map_of (map (\<lambda>(c, t). (c, f t)) m) key = map_option f (map_of m key)" for f :: "'x \<Rightarrow> 'y" and m :: "(string \<times> 'x) list"
    by (induction m) auto
  have "lookup_resolved X (dat_finish X (dat_fill X pairs)) key q \<longleftrightarrow> ?es \<noteq> [] \<and>
      (trie_search (trie_for ?es) q \<noteq> None \<or> list_ex (\<lambda>kw. contains_str kw q) (keywords_for ?es) \<or>
       list_ex (\<lambda>re. regex_is_match X re q) (filter (regex_new X) (regexes_for X ?es)))"
    by (simp add: lookup_resolved_def dat_finish_def geosite_from_parts_def map dat_fill_maps at_key_def trie_for_def trie_search_seal)
  also have "\<dots> \<longleftrightarrow> list_ex (\<lambda>e. dat_entry_matches X e q) ?es"
  proof -
    have "trie_search (trie_for ?es) q \<noteq> None \<longleftrightarrow> list_ex (\<lambda>e. list_ex (\<lambda>d. domain_pattern_matches d ?qn) (dat_patterns e)) ?es"
      unfolding trie_for_def trie_search_found by (auto simp: list_ex_iff)
    moreover have "list_ex (\<lambda>kw. contains_str kw q) (keywords_for ?es) \<longleftrightarrow>
        list_ex (\<lambda>e. de_type e = type_plain \<and> contains_str (de_value e) q) ?es"
      by (auto simp: list_ex_iff keywords_for_def)
    moreover have "list_ex (\<lambda>re. regex_is_match X re q) (filter (regex_new X) (regexes_for X ?es)) \<longleftrightarrow>
        list_ex (\<lambda>e. de_type e = type_regex \<and> regex_new X (de_value e) \<and> regex_is_match X (de_value e) q) ?es"
      by (auto simp: list_ex_iff regexes_for_def)
    moreover have "(\<lambda>e. dat_entry_matches X e q) = (\<lambda>e. list_ex (\<lambda>d. domain_pattern_matches d ?qn) (dat_patterns e) \<or>
        (de_type e = type_plain \<and> contains_str (de_value e) q) \<or>
        (de_type e = type_regex \<and> regex_new X (de_value e) \<and> regex_is_match X (de_value e) q))"
      by (rule ext) (simp add: dat_entry_matches_def dat_patterns_def type_plain_def type_regex_def type_suffix_def type_full_def)
    ultimately show ?thesis by (simp only: list_ex_disj) auto
  qed
  also have "\<dots> \<longleftrightarrow> list_ex (\<lambda>(k, e). k = key \<and> dat_entry_matches X e q) pairs"
    by (auto simp: list_ex_iff entries_at_def)
  finally show ?thesis .
qed

subsection \<open>Reading a written file\<close>

definition enc_attribute :: "string \<Rightarrow> byte list" where
  "enc_attribute a = enc_message [(1, PbBytes (bytes_of a))]"

definition enc_domain :: "domain_entry \<Rightarrow> byte list" where
  "enc_domain e =
     enc_message ([(1, PbVarint (de_type e)), (2, PbBytes (bytes_of (de_value e)))] @
       map (\<lambda>a. (3, PbBytes (enc_attribute a))) (de_attrs e))"

definition enc_site :: "string \<times> domain_entry list \<Rightarrow> byte list" where
  "enc_site site = enc_message ((1, PbBytes (bytes_of (fst site))) # map (\<lambda>e. (2, PbBytes (enc_domain e))) (snd site))"

definition enc_dat :: "(string \<times> domain_entry list) list \<Rightarrow> byte list" where
  "enc_dat sites = enc_message (map (\<lambda>s. (1, PbBytes (enc_site s))) sites)"

definition dat_entry_ok :: "domain_entry \<Rightarrow> bool" where
  "dat_entry_ok e \<longleftrightarrow> de_value e \<noteq> [] \<and> utf8_ok (bytes_of (de_value e)) \<and>
     list_all (\<lambda>a. utf8_ok (bytes_of a) \<and> trim a \<noteq> []) (de_attrs e)"

definition dat_site_ok :: "string \<times> domain_entry list \<Rightarrow> bool" where
  "dat_site_ok site \<longleftrightarrow> utf8_ok (bytes_of (fst site)) \<and> list_all dat_entry_ok (snd site)"

definition lowered :: "domain_entry \<Rightarrow> domain_entry" where
  "lowered e = \<lparr>de_type = de_type e, de_value = to_ascii_lowercase (de_value e),
     de_attrs = map (\<lambda>a. to_ascii_lowercase (trim a)) (de_attrs e)\<rparr>"

definition site_pairs :: "string \<times> domain_entry list \<Rightarrow> (string \<times> domain_entry) list" where
  "site_pairs site =
     concat (map (\<lambda>e. map (\<lambda>k. (k, lowered e)) (entry_keys (to_ascii_lowercase (fst site)) (lowered e))) (snd site))"

lemma enc_message_part: "(f, PbBytes bs) \<in> set fs \<Longrightarrow> length bs \<le> length (enc_message fs)"
  by (induction fs) (auto simp: enc_message_def)

lemma good_fields:
  "length (enc_message fs) < 2 ^ 64 \<Longrightarrow> list_all (\<lambda>(f, v). f < 2 ^ 29) fs \<Longrightarrow> list_all good_field fs"
proof -
  assume a: "length (enc_message fs) < 2 ^ 64" "list_all (\<lambda>(f, v). f < 2 ^ 29) fs"
  have "good_field (f, v)" if "(f, v) \<in> set fs" for f v
    using that a enc_message_part [of f _ fs] by (cases v) (fastforce simp: list_all_iff)+
  then show ?thesis by (auto simp: list_all_iff)
qed

lemma parse_attribute_enc:
  assumes "utf8_ok (bytes_of a)" "trim a \<noteq> []" "length (enc_attribute a) < 2 ^ 64"
  shows "parse_attribute_key (enc_attribute a) = Inr (Some (to_ascii_lowercase (trim a)))"
proof -
  have "list_all good_field [(1, PbBytes (bytes_of a))]" by (rule good_fields) (use assms(3) in \<open>simp_all add: enc_attribute_def\<close>)
  from pb_message_enc [OF this, of attribute_field "\<lambda>_ _. Some (to_ascii_lowercase (trim a))" None 0] assms(1,2)
  show ?thesis by (simp add: parse_attribute_key_def enc_attribute_def reader_new_def attribute_field_def dat_string_def Let_def)
qed

lemma parse_domain_enc:
  assumes "dat_entry_ok e" "length (enc_domain e) < 2 ^ 64"
  shows "parse_domain_entry (enc_domain e) = Inr (Some (lowered e))"
proof -
  let ?attrs = "map (\<lambda>a. (3, PbBytes (enc_attribute a))) (de_attrs e)"
  let ?fs = "[(1, PbVarint (de_type e)), (2, PbBytes (bytes_of (de_value e)))] @ ?attrs"
  let ?step = "\<lambda>(f, v) st. projr (domain_field (of_nat f) v 0 st)"
  have good: "list_all good_field ?fs"
    by (rule good_fields) (use assms(2) in \<open>simp_all add: enc_domain_def list_all_iff\<close>)
  have attr: "domain_field 3 (PbBytes (enc_attribute a)) pos st =
      Inr (st\<lparr>dp_attrs := dp_attrs st @ [to_ascii_lowercase (trim a)]\<rparr>)" if "a \<in> set (de_attrs e)" for a pos st
  proof -
    have "length (enc_attribute a) < 2 ^ 64"
      using that assms(2) enc_message_part [of 3 "enc_attribute a" ?fs] by (auto simp: enc_domain_def)
    then show ?thesis using that assms(1) by (simp add: domain_field_def parse_attribute_enc dat_entry_ok_def list_all_iff)
  qed
  have attrs: "fold ?step (map (\<lambda>a. (3, PbBytes (enc_attribute a))) as) st =
      st\<lparr>dp_attrs := dp_attrs st @ map (\<lambda>a. to_ascii_lowercase (trim a)) as\<rparr>" if "set as \<subseteq> set (de_attrs e)" for as st
    using that by (induction as arbitrary: st) (simp_all add: attr)
  have "domain_field (of_nat f) v pos st = Inr (?step (f, v) st)" if "(f, v) \<in> set ?fs" for f v pos st
    using that assms(1) by (auto simp: attr) (simp_all add: domain_field_def dat_string_def dat_entry_ok_def)
  from pb_message_enc [OF good, where handler = domain_field and step = ?step, OF this, of "\<lparr>dp_type = None, dp_value = None, dp_attrs = []\<rparr>" 0] assms(1)
  show ?thesis
    by (simp add: parse_domain_entry_def reader_new_def enc_domain_def attrs)
      (simp add: domain_field_def dat_string_def dat_entry_ok_def lowered_def)
qed

lemma insert_entries_enc:
  assumes "list_all dat_entry_ok es" "list_all (\<lambda>e. length (enc_domain e) < 2 ^ 64) es"
  shows "insert_entries_of X country (map enc_domain es) db =
    Inr (fold (\<lambda>(key, e). dat_insert X e key) (concat (map (\<lambda>e. map (\<lambda>k. (k, lowered e)) (entry_keys country (lowered e))) es)) db)"
  using assms by (induction es arbitrary: db) (simp_all add: parse_domain_enc fold_map comp_def)

lemma parse_site_enc:
  assumes "dat_site_ok site" "length (enc_site site) < 2 ^ 64"
  shows "parse_geosite_entry X None (enc_site site) db = Inr (fold (\<lambda>(key, e). dat_insert X e key) (site_pairs site) db)"
proof -
  let ?fs = "(1, PbBytes (bytes_of (fst site))) # map (\<lambda>e. (2, PbBytes (enc_domain e))) (snd site)"
  let ?step = "\<lambda>(f, v) st. projr (site_field None (of_nat f) v 0 st)"
  have good: "list_all good_field ?fs"
    by (rule good_fields) (use assms(2) in \<open>simp_all add: enc_site_def list_all_iff\<close>)
  have lens: "list_all (\<lambda>e. length (enc_domain e) < 2 ^ 64) (snd site)"
    using assms(2) enc_message_part [of 2 _ ?fs] by (fastforce simp: enc_site_def list_all_iff)
  have entries: "fold ?step (map (\<lambda>e. (2, PbBytes (enc_domain e))) es) st = st\<lparr>sp_deferred := sp_deferred st @ map enc_domain es\<rparr>"
    if "sp_dominated st" for es st
    using that by (induction es arbitrary: st) (simp_all add: site_field_def)
  have "site_field None (of_nat f) v pos st = Inr (?step (f, v) st)" if "(f, v) \<in> set ?fs" for f v pos st
    using that assms(1) by (auto simp: site_field_def dat_string_def dat_site_ok_def Let_def)
  note message = pb_message_enc [OF good, where handler = "site_field None" and step = ?step, OF this,
      of "\<lparr>sp_country = None, sp_deferred = [], sp_dominated = True\<rparr>" 0]
  have "?step (1, PbBytes (bytes_of (fst site))) \<lparr>sp_country = None, sp_deferred = [], sp_dominated = True\<rparr> =
      \<lparr>sp_country = Some (to_ascii_lowercase (fst site)), sp_deferred = [], sp_dominated = True\<rparr>"
    using assms(1) by (simp add: site_field_def dat_string_def dat_site_ok_def Let_def)
  with message entries [of "\<lparr>sp_country = Some (to_ascii_lowercase (fst site)), sp_deferred = [], sp_dominated = True\<rparr>" "snd site"]
  have "pb_message (site_field None) \<lparr>sp_country = None, sp_deferred = [], sp_dominated = True\<rparr> (reader_new (enc_site site)) =
      Inr \<lparr>sp_country = Some (to_ascii_lowercase (fst site)), sp_deferred = map enc_domain (snd site), sp_dominated = True\<rparr>"
    by (simp add: reader_new_def enc_site_def)
  then show ?thesis
    using assms(1) lens by (simp add: parse_geosite_entry_def insert_entries_enc site_pairs_def dat_site_ok_def)
qed

lemma from_dat_enc:
  assumes "list_all dat_site_ok sites" "length (enc_dat sites) < 2 ^ 64"
  shows "from_dat_bytes X (enc_dat sites) None = Inr (dat_finish X (dat_fill X (concat (map site_pairs sites))))"
proof -
  let ?fs = "map (\<lambda>s. (1, PbBytes (enc_site s))) sites"
  let ?step = "\<lambda>(f, v) db. projr (list_field X None (of_nat f) v 0 db)"
  have good: "list_all good_field ?fs"
    by (rule good_fields) (use assms(2) in \<open>simp_all add: enc_dat_def list_all_iff\<close>)
  have site: "list_field X None 1 (PbBytes (enc_site s)) pos db = Inr (fold (\<lambda>(key, e). dat_insert X e key) (site_pairs s) db)"
    if "s \<in> set sites" for s pos db
    using that assms parse_site_enc [of s X db] enc_message_part [of 1 "enc_site s" ?fs]
    by (auto simp: list_field_def enc_dat_def list_all_iff)
  have steps: "fold ?step (map (\<lambda>s. (1, PbBytes (enc_site s))) ss) db =
      fold (\<lambda>(key, e). dat_insert X e key) (concat (map site_pairs ss)) db" if "set ss \<subseteq> set sites" for ss db
    using that by (induction ss arbitrary: db) (simp_all add: site)
  have "list_field X None (of_nat f) v pos db = Inr (?step (f, v) db)" if "(f, v) \<in> set ?fs" for f v pos db
    using that by (auto simp: site)
  from pb_message_enc [OF good, where handler = "list_field X None" and step = ?step, OF this, of dat_empty 0] steps [of sites dat_empty]
  show ?thesis by (simp add: from_dat_bytes_def reader_new_def enc_dat_def dat_fill_def dat_finish_def)
qed

lemma list_ex_pair: "(\<exists>y. (x, y) \<in> set ps \<and> Q y) \<longleftrightarrow> list_ex (\<lambda>p. fst p = x \<and> Q (snd p)) ps"
  by (induction ps) auto

lemma insert_all_trie: "fst (insert_all ds) = trie_of (map (\<lambda>d. (d, ())) ds)"
proof -
  have "fst (fold (\<lambda>d (trie, inserted). let (trie', ok) = trie_insert trie d () in (trie', if ok then inserted + 1 else inserted)) ds st) =
      fold (\<lambda>(d, v) t. fst (trie_insert t d v)) (map (\<lambda>d. (d, ())) ds) (fst st)" for st :: "unit domain_trie \<times> nat"
    by (induction ds arbitrary: st) (simp_all add: split_def Let_def)
  from this [of "(trie_new, 0)"] show ?thesis by (simp add: insert_all_def trie_of_def)
qed

lemma geosite_from_payload_maps:
  assumes "distinct (map fst cats)"
  shows "map_of (categories (geosite_from_payload cats)) key =
      map_option (\<lambda>ds. trie_seal (trie_of (map (\<lambda>d. (d, ())) ds))) (map_of cats key) \<and>
    geo_keywords (geosite_from_payload cats) = [] \<and> regex_compiled (geosite_from_payload cats) = []"
  using assms
proof (induction cats rule: rev_induct)
  case (snoc c cats)
  then have "map_of cats (fst c) = None" by (auto simp: map_of_eq_None_iff)
  moreover have "map_of (cats @ [c]) key = (case map_of cats key of None \<Rightarrow> map_of [c] key | Some v \<Rightarrow> Some v)"
    by (cases c) (simp add: map_add_def split: option.split)
  moreover have "geosite_from_payload (cats @ [c]) =
      (geosite_from_payload cats)\<lparr>categories := AList.update (fst c) (trie_seal (fst (insert_all (snd c)))) (categories (geosite_from_payload cats)),
         counts := AList.update (fst c) (snd (insert_all (snd c))) (counts (geosite_from_payload cats))\<rparr>"
    by (simp add: geosite_from_payload_def split_def Let_def)
  ultimately show ?case
    using snoc by (cases "key = fst c") (simp_all add: update_conv' insert_all_trie split: option.split)
qed (simp add: geosite_from_payload_def geosite_empty_def)

subsection \<open>Properties\<close>


text \<open>
  C19: loading a written V2Ray geosite file. The file has a list of categories, each with entries of a
  type, a value and attributes; it is UTF-8, no value and no attribute is blank and it is shorter than
  \<open>2^64\<close> bytes. Loading succeeds, and a category key then holds a name exactly when an entry of that
  category, or of the category and attribute the key is made of, matches it: as a substring, as a
  regular expression, as a domain with its subdomains, or exactly. Values are lowered on loading, those
  of regular expressions included.
\<close>

theorem dat_file_lookup:
  assumes "list_all dat_site_ok sites" "length (enc_dat sites) < 2 ^ 64"
  shows "\<exists>db. from_dat_bytes X (enc_dat sites) None = Inr db \<and>
    (\<forall>key q. lookup_resolved X db key q \<longleftrightarrow>
      list_ex (\<lambda>(k, e). k = key \<and> dat_entry_matches X e q) (concat (map site_pairs sites)))"
  using from_dat_enc [OF assms, of X] dat_lookup_resolved by blast

theorem dat_file_lookup_witness:
  "let sites = [(''CN'', [\<lparr>de_type = type_suffix, de_value = ''a.cn'', de_attrs = [''ads'']\<rparr>])]
   in \<exists>db. from_dat_bytes ref_ext (enc_dat sites) None = Inr db \<and>
     lookup_resolved ref_ext db ''cn'' ''www.a.cn'' \<and> lookup_resolved ref_ext db ''cn@ads'' ''a.cn'' \<and>
     \<not> lookup_resolved ref_ext db ''cn'' ''b.cn''"
proof -
  let ?sites = "[(''CN'', [\<lparr>de_type = type_suffix, de_value = ''a.cn'', de_attrs = [''ads'']\<rparr>])]"
  have ok: "list_all dat_site_ok ?sites" "length (enc_dat ?sites) < 2 ^ 64"
    by (simp_all add: dat_site_ok_def dat_entry_ok_def utf8_ok_ascii_string is_ascii_def trim_def trim_start_def trim_end_matches_def
        is_ws_def enc_dat_def enc_site_def enc_domain_def enc_attribute_def enc_message_def enc_varint.simps type_suffix_def)
  have "list_ex (\<lambda>(k, e). k = ''cn'' \<and> dat_entry_matches ref_ext e ''www.a.cn'') (concat (map site_pairs ?sites))"
    "list_ex (\<lambda>(k, e). k = ''cn@ads'' \<and> dat_entry_matches ref_ext e ''a.cn'') (concat (map site_pairs ?sites))"
    "\<not> list_ex (\<lambda>(k, e). k = ''cn'' \<and> dat_entry_matches ref_ext e ''b.cn'') (concat (map site_pairs ?sites))" by code_simp+
  with dat_file_lookup [OF ok, of ref_ext] show ?thesis unfolding Let_def by blast
qed

text \<open>
  C20: a geosite file written in the project's own format loads as a database in which a category holds
  a name exactly when a pattern of the category, lowered, matches it. The names of the categories differ
  after lowering; names and domains are UTF-8 of at most 65535 bytes; decompression undoes compression.
\<close>

theorem geosite_file_lookup:
  assumes "undoes unzstd zstd" "list_all good_category cats" "length cats < 2 ^ 32"
    "distinct (map (\<lambda>c. to_ascii_lowercase (fst c)) cats)" "write_geosite_mrs zstd cats = Inr bytes"
  shows "\<exists>db. geosite_from_bytes X unzstd bytes None = Inr db \<and>
    (\<forall>key q. lookup_resolved X db key q \<longleftrightarrow>
      list_ex (\<lambda>(name, ds). to_ascii_lowercase name = key \<and>
        list_ex (\<lambda>d. domain_pattern_matches (to_ascii_lowercase d) (to_ascii_lowercase (trim_end_dots (trim q)))) ds) cats)"
proof -
  let ?low = "map lower_category cats"
  obtain y where y: "zstd (encode_geosite_payload cats) = Some y" "bytes = mrs_file type_domain (length cats) y"
    using assms(5) by (auto simp: write_geosite_mrs_def split: option.splits)
  have "parse_geosite_payload (encode_geosite_payload cats) None = Inr ?low"
    by (simp add: parse_geosite_encode [OF assms(2,3)] allowed_category_def List.map_filter_def comp_def)
  then have load: "geosite_from_bytes X unzstd bytes None = Inr (geosite_from_payload ?low)"
    using assms(1) y by (simp add: geosite_from_bytes_def parse_header_file [OF assms(3)] decompress_payload_def undoes_def)
  have dist: "distinct (map fst ?low)" using assms(4) by (simp add: lower_category_def comp_def)
  have "lookup_resolved X (geosite_from_payload ?low) key q \<longleftrightarrow>
      list_ex (\<lambda>(name, ds). to_ascii_lowercase name = key \<and>
        list_ex (\<lambda>d. domain_pattern_matches (to_ascii_lowercase d) (to_ascii_lowercase (trim_end_dots (trim q)))) ds) cats" for key q
  proof -
    let ?P = "\<lambda>d. domain_pattern_matches d (to_ascii_lowercase (trim_end_dots (trim q)))"
    have "lookup_resolved X (geosite_from_payload ?low) key q \<longleftrightarrow> (\<exists>ds. map_of ?low key = Some ds \<and> list_ex ?P ds)"
      using geosite_from_payload_maps [OF dist, of key]
      by (cases "map_of ?low key") (simp_all add: lookup_resolved_def trie_search_seal trie_search_found list_ex_iff del: not_None_eq)
    also have "\<dots> \<longleftrightarrow> list_ex (\<lambda>c. fst c = key \<and> list_ex ?P (snd c)) ?low"
      unfolding map_of_eq_Some_iff [OF dist] by (rule list_ex_pair)
    also have "\<dots> \<longleftrightarrow> list_ex (\<lambda>(name, ds). to_ascii_lowercase name = key \<and> list_ex (\<lambda>d. ?P (to_ascii_lowercase d)) ds) cats"
      by (induction cats) (simp_all add: lower_category_def split_def list_ex_iff)
    finally show ?thesis .
  qed
  with load show ?thesis by blast
qed

theorem geosite_file_lookup_witness:
  "let cats = [(''CN'', [''+.a.cn'', ''B.cn''])]
   in \<exists>bytes db. write_geosite_mrs Some cats = Inr bytes \<and> geosite_from_bytes ref_ext Some bytes None = Inr db \<and>
     lookup_resolved ref_ext db ''cn'' ''b.cn'' \<and> \<not> lookup_resolved ref_ext db ''cn'' ''a.cn''"
proof -
  let ?cats = "[(''CN'', [''+.a.cn'', ''B.cn''])]"
  obtain bytes where w: "write_geosite_mrs Some ?cats = Inr bytes" by (simp add: write_geosite_mrs_def)
  have ok: "list_all good_category ?cats" "length ?cats < 2 ^ 32" "distinct (map (\<lambda>c. to_ascii_lowercase (fst c)) ?cats)"
    by (simp_all add: good_category_def good_string_def utf8_ok_ascii_string is_ascii_def)
  let ?has = "\<lambda>q. list_ex (\<lambda>(name, ds). to_ascii_lowercase name = ''cn'' \<and>
        list_ex (\<lambda>d. domain_pattern_matches (to_ascii_lowercase d) (to_ascii_lowercase (trim_end_dots (trim q)))) ds) ?cats"
  have "?has ''b.cn''" "\<not> ?has ''a.cn''" by code_simp+
  with w geosite_file_lookup [OF undoes_Some ok w, of ref_ext] show ?thesis unfolding Let_def by blast
qed

end
