(* ===== verification/FakeIpPool.thy ===== *)
theory FakeIpPool
  imports Reference Trie
begin

text \<open>
  Fake addresses, \<open>meow-dns/src/fakeip.rs\<close>: the two stores, the pool that hands out addresses and the
  filter of hosts. A \<open>dyn Store\<close> is a record of its operations; what the pool relies on of it is the
  locale \<open>store_contract\<close>, in which the pool is proved correct once; \<open>exact_store\<close> adds that the store
  drops nothing on its own. \<open>network\<close> and \<open>broadcast\<close> of a prefix belong to the third-party \<open>ipnet\<close> and
  are arguments, as is the third-party LRU cache. A run is a sequence of operations; a lookup, which
  holds the pool's mutex throughout, is one step of it. Reading and writing the snapshot file is left
  out, as are the flag and the task that only decide when to write it.
\<close>

subsection \<open>Addresses\<close>

fun next_addr :: "ipaddr \<Rightarrow> ipaddr" where
  "next_addr (V4 a) = V4 (a + 1)"
| "next_addr (V6 a) = V6 (a + 1)"

fun prev_addr :: "ipaddr \<Rightarrow> ipaddr" where
  "prev_addr (V4 a) = V4 (a - 1)"
| "prev_addr (V6 a) = V6 (a - 1)"

fun addr_less :: "ipaddr \<Rightarrow> ipaddr \<Rightarrow> bool" where
  "addr_less (V4 a) (V4 b) = (a < b)"
| "addr_less (V6 a) (V6 b) = (a < b)"
| "addr_less _ _ = False"

definition contained_in_range :: "ipaddr \<Rightarrow> ipaddr \<Rightarrow> ipaddr \<Rightarrow> bool" where
  "contained_in_range ip first lst \<longleftrightarrow> \<not> addr_less ip first \<and> addr_less ip lst"

fun is_v4 :: "ipaddr \<Rightarrow> bool" where
  "is_v4 (V4 _) = True"
| "is_v4 (V6 _) = False"

datatype pool_error = PrefixTooSmall ipnet | InvalidPrefix ipnet

definition anchor_addrs :: "(ipnet \<Rightarrow> ipaddr) \<Rightarrow> (ipnet \<Rightarrow> ipaddr) \<Rightarrow> ipnet \<Rightarrow> pool_error + (ipaddr \<times> ipaddr \<times> ipaddr)" where
  "anchor_addrs network broadcast pfx =
     (let net = network pfx; lst = broadcast pfx; gateway = next_addr net;
          first = next_addr (next_addr (next_addr gateway))
      in if \<not> addr_less first lst then Inl (PrefixTooSmall pfx)
         else if is_v4 net \<noteq> is_v4 lst \<or> is_v4 net \<noteq> is_v4 gateway \<or> is_v4 net \<noteq> is_v4 first
         then Inl (InvalidPrefix pfx)
         else Inr (gateway, first, lst))"

subsection \<open>Stores\<close>

record 's store_ops =
  get_by_host :: "'s \<Rightarrow> string \<Rightarrow> ipaddr option \<times> 's"
  get_by_ip :: "'s \<Rightarrow> ipaddr \<Rightarrow> string option \<times> 's"
  put_entry :: "'s \<Rightarrow> string \<Rightarrow> ipaddr \<Rightarrow> 's"
  del_by_ip :: "'s \<Rightarrow> ipaddr \<Rightarrow> 's"
  exists_ip :: "'s \<Rightarrow> ipaddr \<Rightarrow> bool"
  flush_store :: "'s \<Rightarrow> 's"
  put_state :: "'s \<Rightarrow> ipaddr \<Rightarrow> bool \<Rightarrow> 's"
  get_state :: "'s \<Rightarrow> (ipaddr \<times> bool) option"
  is_persistent :: bool

text \<open>The operations of the LRU cache that the memory store uses.\<close>

record ('k, 'v, 'c) lru_ops =
  lru_new :: 'c
  lru_get :: "'c \<Rightarrow> 'k \<Rightarrow> 'v option \<times> 'c"
  lru_peek :: "'c \<Rightarrow> 'k \<Rightarrow> 'v option"
  lru_put :: "'c \<Rightarrow> 'k \<Rightarrow> 'v \<Rightarrow> 'c"
  lru_pop :: "'c \<Rightarrow> 'k \<Rightarrow> 'v option \<times> 'c"
  lru_pop_lru :: "'c \<Rightarrow> ('k \<times> 'v) option \<times> 'c"
  lru_contains :: "'c \<Rightarrow> 'k \<Rightarrow> bool"
  lru_len :: "'c \<Rightarrow> nat"
  lru_clear :: "'c \<Rightarrow> 'c"

record ('c, 'd) memory_inner =
  by_host :: 'c
  by_ip :: 'd
  mem_cap :: nat

type_synonym 'c host_lru = "(string, ipaddr, 'c) lru_ops"
type_synonym 'd ip_lru = "(ipaddr, string, 'd) lru_ops"

definition memory_new :: "'c host_lru \<Rightarrow> 'd ip_lru \<Rightarrow> nat \<Rightarrow> ('c, 'd) memory_inner" where
  "memory_new H I sz = \<lparr>by_host = lru_new H, by_ip = lru_new I, mem_cap = max sz 1\<rparr>"

definition memory_get_by_host ::
  "'c host_lru \<Rightarrow> 'd ip_lru \<Rightarrow> ('c, 'd) memory_inner \<Rightarrow> string \<Rightarrow> ipaddr option \<times> ('c, 'd) memory_inner" where
  "memory_get_by_host H I s host =
     (let (r, hs) = lru_get H (by_host s) host in
      case r of
        None \<Rightarrow> (None, s\<lparr>by_host := hs\<rparr>)
      | Some ip \<Rightarrow> (Some ip, s\<lparr>by_host := hs, by_ip := snd (lru_get I (by_ip s) ip)\<rparr>))"

definition memory_get_by_ip ::
  "'c host_lru \<Rightarrow> 'd ip_lru \<Rightarrow> ('c, 'd) memory_inner \<Rightarrow> ipaddr \<Rightarrow> string option \<times> ('c, 'd) memory_inner" where
  "memory_get_by_ip H I s ip =
     (let (r, ips) = lru_get I (by_ip s) ip in
      case r of
        None \<Rightarrow> (None, s\<lparr>by_ip := ips\<rparr>)
      | Some host \<Rightarrow> (Some host, s\<lparr>by_host := snd (lru_get H (by_host s) host), by_ip := ips\<rparr>))"

definition evict_by_ip :: "'c host_lru \<Rightarrow> 'd ip_lru \<Rightarrow> ('c, 'd) memory_inner \<Rightarrow> ('c, 'd) memory_inner" where
  "evict_by_ip H I s =
     (if lru_len I (by_ip s) > mem_cap s then
        (case lru_pop_lru I (by_ip s) of
           (None, ips) \<Rightarrow> s\<lparr>by_ip := ips\<rparr>
         | (Some (evicted_ip, evicted_host), ips) \<Rightarrow>
             (let s1 = s\<lparr>by_ip := ips\<rparr> in
              if lru_peek H (by_host s1) evicted_host = Some evicted_ip
              then s1\<lparr>by_host := snd (lru_pop H (by_host s1) evicted_host)\<rparr> else s1))
      else s)"

definition evict_by_host :: "'c host_lru \<Rightarrow> 'd ip_lru \<Rightarrow> ('c, 'd) memory_inner \<Rightarrow> ('c, 'd) memory_inner" where
  "evict_by_host H I s =
     (if lru_len H (by_host s) > mem_cap s then
        (case lru_pop_lru H (by_host s) of
           (None, hs) \<Rightarrow> s\<lparr>by_host := hs\<rparr>
         | (Some (evicted_host, evicted_ip), hs) \<Rightarrow>
             (let s1 = s\<lparr>by_host := hs\<rparr> in
              if lru_peek I (by_ip s1) evicted_ip = Some evicted_host
              then s1\<lparr>by_ip := snd (lru_pop I (by_ip s1) evicted_ip)\<rparr> else s1))
      else s)"

definition memory_put ::
  "'c host_lru \<Rightarrow> 'd ip_lru \<Rightarrow> ('c, 'd) memory_inner \<Rightarrow> string \<Rightarrow> ipaddr \<Rightarrow> ('c, 'd) memory_inner" where
  "memory_put H I s host ip =
     evict_by_host H I (evict_by_ip H I
       (s\<lparr>by_host := lru_put H (by_host s) host ip, by_ip := lru_put I (by_ip s) ip host\<rparr>))"

definition memory_del_by_ip ::
  "'c host_lru \<Rightarrow> 'd ip_lru \<Rightarrow> ('c, 'd) memory_inner \<Rightarrow> ipaddr \<Rightarrow> ('c, 'd) memory_inner" where
  "memory_del_by_ip H I s ip =
     (case lru_pop I (by_ip s) ip of
        (None, ips) \<Rightarrow> s\<lparr>by_ip := ips\<rparr>
      | (Some host, ips) \<Rightarrow>
          (let s1 = s\<lparr>by_ip := ips\<rparr> in
           if lru_peek H (by_host s1) host = Some ip
           then s1\<lparr>by_host := snd (lru_pop H (by_host s1) host)\<rparr> else s1))"

definition memory_flush :: "'c host_lru \<Rightarrow> 'd ip_lru \<Rightarrow> ('c, 'd) memory_inner \<Rightarrow> ('c, 'd) memory_inner" where
  "memory_flush H I s = s\<lparr>by_host := lru_clear H (by_host s), by_ip := lru_clear I (by_ip s)\<rparr>"

definition memory_store :: "'c host_lru \<Rightarrow> 'd ip_lru \<Rightarrow> ('c, 'd) memory_inner store_ops" where
  "memory_store H I =
     \<lparr>get_by_host = memory_get_by_host H I, get_by_ip = memory_get_by_ip H I, put_entry = memory_put H I,
      del_by_ip = memory_del_by_ip H I, exists_ip = (\<lambda>s ip. lru_contains I (by_ip s) ip),
      flush_store = memory_flush H I, put_state = (\<lambda>s _ _. s), get_state = (\<lambda>_. None), is_persistent = False\<rparr>"

record snapshot =
  sn_entries :: "(string \<times> ipaddr) list"
  sn_offset :: "ipaddr option"
  sn_cycle :: bool

record file_inner =
  fs_state :: snapshot
  fs_reverse :: "(ipaddr \<times> string) list"

definition snapshot_default :: snapshot where
  "snapshot_default = \<lparr>sn_entries = [], sn_offset = None, sn_cycle = False\<rparr>"

definition from_snapshot :: "snapshot \<Rightarrow> file_inner" where
  "from_snapshot sn =
     \<lparr>fs_state = sn, fs_reverse = fold (\<lambda>(h, ip) rv. AList.update ip h rv) (sn_entries sn) []\<rparr>"

definition file_put :: "file_inner \<Rightarrow> string \<Rightarrow> ipaddr \<Rightarrow> file_inner" where
  "file_put s host ip =
     \<lparr>fs_state = (fs_state s)\<lparr>sn_entries := AList.update host ip (sn_entries (fs_state s))\<rparr>,
      fs_reverse = AList.update ip host (fs_reverse s)\<rparr>"

definition file_del_by_ip :: "file_inner \<Rightarrow> ipaddr \<Rightarrow> file_inner" where
  "file_del_by_ip s ip =
     (case map_of (fs_reverse s) ip of
        None \<Rightarrow> s
      | Some host \<Rightarrow>
          (let s1 = s\<lparr>fs_reverse := AList.delete ip (fs_reverse s)\<rparr> in
           if map_of (sn_entries (fs_state s)) host = Some ip
           then s1\<lparr>fs_state := (fs_state s)\<lparr>sn_entries := AList.delete host (sn_entries (fs_state s))\<rparr>\<rparr>
           else s1))"

definition file_flush :: "file_inner \<Rightarrow> file_inner" where
  "file_flush s = \<lparr>fs_state = snapshot_default, fs_reverse = []\<rparr>"

definition file_put_state :: "file_inner \<Rightarrow> ipaddr \<Rightarrow> bool \<Rightarrow> file_inner" where
  "file_put_state s offset cycle = s\<lparr>fs_state := (fs_state s)\<lparr>sn_offset := Some offset, sn_cycle := cycle\<rparr>\<rparr>"

definition file_get_state :: "file_inner \<Rightarrow> (ipaddr \<times> bool) option" where
  "file_get_state s = map_option (\<lambda>off. (off, sn_cycle (fs_state s))) (sn_offset (fs_state s))"

definition file_store :: "file_inner store_ops" where
  "file_store =
     \<lparr>get_by_host = (\<lambda>s host. (map_of (sn_entries (fs_state s)) host, s)),
      get_by_ip = (\<lambda>s ip. (map_of (fs_reverse s) ip, s)), put_entry = file_put, del_by_ip = file_del_by_ip,
      exists_ip = (\<lambda>s ip. map_of (fs_reverse s) ip \<noteq> None), flush_store = file_flush,
      put_state = file_put_state, get_state = file_get_state, is_persistent = True\<rparr>"

definition serialise :: "snapshot \<Rightarrow> snapshot" where
  "serialise s = \<lparr>sn_entries = sn_entries s, sn_offset = sn_offset s, sn_cycle = sn_cycle s\<rparr>"

subsection \<open>The pool\<close>

record 's pool =
  pool_net :: ipnet
  pool_gateway :: ipaddr
  pool_first :: ipaddr
  pool_last :: ipaddr
  pool_offset :: ipaddr
  pool_cycle :: bool
  pool_store :: 's

definition pool_new ::
  "'s store_ops \<Rightarrow> (ipnet \<Rightarrow> ipaddr) \<Rightarrow> (ipnet \<Rightarrow> ipaddr) \<Rightarrow> ipnet \<Rightarrow> 's \<Rightarrow> pool_error + 's pool" where
  "pool_new S network broadcast pfx store =
     (case anchor_addrs network broadcast pfx of
        Inl e \<Rightarrow> Inl e
      | Inr (gateway, first, lst) \<Rightarrow>
          (let (initial_offset, initial_cycle) =
             (case get_state S store of
                Some (stored_offset, stored_cycle) \<Rightarrow>
                  if contained_in_range stored_offset first lst then (stored_offset, stored_cycle)
                  else (prev_addr first, False)
              | None \<Rightarrow> (prev_addr first, False))
           in Inr \<lparr>pool_net = pfx, pool_gateway = gateway, pool_first = first, pool_last = lst,
                   pool_offset = initial_offset, pool_cycle = initial_cycle, pool_store = store\<rparr>))"

definition save_state :: "'s store_ops \<Rightarrow> 's pool \<Rightarrow> 's pool" where
  "save_state S p =
     (if is_persistent S then p\<lparr>pool_store := put_state S (pool_store p) (pool_offset p) (pool_cycle p)\<rparr> else p)"

definition allocate :: "'s store_ops \<Rightarrow> 's pool \<Rightarrow> string \<Rightarrow> ipaddr \<times> 's pool" where
  "allocate S p host =
     (let nxt = next_addr (pool_offset p);
          wrapped = \<not> addr_less nxt (pool_last p);
          candidate = (if wrapped then pool_first p else nxt);
          cycle = (pool_cycle p \<or> wrapped);
          s1 = (if cycle \<or> exists_ip S (pool_store p) candidate then del_by_ip S (pool_store p) candidate else pool_store p);
          s2 = put_entry S s1 host candidate
      in (candidate, save_state S (p\<lparr>pool_offset := candidate, pool_cycle := cycle, pool_store := s2\<rparr>)))"

definition pool_lookup :: "'s store_ops \<Rightarrow> 's pool \<Rightarrow> string \<Rightarrow> ipaddr \<times> 's pool" where
  "pool_lookup S p host0 =
     (let host = to_ascii_lowercase host0; (r, s1) = get_by_host S (pool_store p) host; p1 = p\<lparr>pool_store := s1\<rparr> in
      case r of
        Some existing \<Rightarrow> (existing, p1)
      | None \<Rightarrow> allocate S p1 host)"

definition look_back :: "'s store_ops \<Rightarrow> 's pool \<Rightarrow> ipaddr \<Rightarrow> string option \<times> 's pool" where
  "look_back S p ip =
     (if ip = pool_gateway p \<or> ip = pool_last p then (None, p)
      else (let (r, s1) = get_by_ip S (pool_store p) ip in (r, p\<lparr>pool_store := s1\<rparr>)))"

definition is_fake_ip :: "ext \<Rightarrow> 's store_ops \<Rightarrow> 's pool \<Rightarrow> ipaddr \<Rightarrow> bool" where
  "is_fake_ip X S p ip =
     (if \<not> net_contains X (pool_net p) ip then False
      else if ip = pool_gateway p \<or> ip = pool_last p then False
      else exists_ip S (pool_store p) ip)"

definition in_range :: "ext \<Rightarrow> 's pool \<Rightarrow> ipaddr \<Rightarrow> bool" where
  "in_range X p ip = net_contains X (pool_net p) ip"

definition pool_flush :: "'s store_ops \<Rightarrow> 's pool \<Rightarrow> 's pool" where
  "pool_flush S p =
     save_state S (p\<lparr>pool_store := flush_store S (pool_store p), pool_offset := prev_addr (pool_first p), pool_cycle := False\<rparr>)"

subsection \<open>The filter of hosts\<close>

datatype skipper_mode = BlackList | WhiteList

record skipper =
  sk_trie :: "unit domain_trie"
  sk_mode :: skipper_mode
  sk_empty :: bool

definition skipper_patterns :: "string \<Rightarrow> string \<times> string option" where
  "skipper_patterns pat =
     (case strip_prefix ''+.'' pat of
        Some rest \<Rightarrow> (pat, Some rest)
      | None \<Rightarrow>
          if starts_with ''*.'' pat \<or> starts_with ''.'' pat then (pat, None)
          else (''+.'' @ pat, Some pat))"

definition skipper_step :: "string \<Rightarrow> unit domain_trie \<times> nat \<Rightarrow> unit domain_trie \<times> nat" where
  "skipper_step raw st =
     (let pat = trim raw in
      if pat = [] then st
      else (let (suffix_pattern, bare) = skipper_patterns pat;
                (trie1, ok1) = trie_insert (fst st) suffix_pattern ();
                (trie2, ok) = (case bare of
                                 Some b \<Rightarrow> (let (t, ok2) = trie_insert trie1 b () in (t, ok2 \<or> ok1))
                               | None \<Rightarrow> (trie1, ok1))
            in (trie2, if ok then snd st + 1 else snd st)))"

definition skipper_new :: "string list \<Rightarrow> skipper_mode \<Rightarrow> skipper" where
  "skipper_new patterns mode =
     (let (trie, inserted) = fold skipper_step patterns (trie_new, 0)
      in \<lparr>sk_trie = trie, sk_mode = mode, sk_empty = (inserted = 0)\<rparr>)"

definition should_skip :: "skipper \<Rightarrow> string \<Rightarrow> bool" where
  "should_skip sk host =
     (if sk_empty sk then False
      else (let matched = trie_search (sk_trie sk) host \<noteq> None in
            case sk_mode sk of BlackList \<Rightarrow> matched | WhiteList \<Rightarrow> \<not> matched))"

subsection \<open>Runs\<close>

text \<open>
  The steps of a pool: each takes a lock once. A flush takes the lock of the store and then that of the
  pool, so it is two steps that others can come between.
\<close>

inductive pool_step :: "'s store_ops \<Rightarrow> 's pool \<Rightarrow> 's pool \<Rightarrow> bool" for S where
  lookup_step: "pool_step S p (snd (pool_lookup S p host))"
| back_step: "pool_step S p (snd (look_back S p ip))"
| clear_step: "pool_step S p (p\<lparr>pool_store := flush_store S (pool_store p)\<rparr>)"
| reset_step: "pool_step S p (save_state S (p\<lparr>pool_offset := prev_addr (pool_first p), pool_cycle := False\<rparr>))"

lemma pool_flush_steps: "(pool_step S)\<^sup>*\<^sup>* p (pool_flush S p)"
proof -
  have "pool_step S p (p\<lparr>pool_store := flush_store S (pool_store p)\<rparr>)" by (rule clear_step)
  moreover have "pool_step S (p\<lparr>pool_store := flush_store S (pool_store p)\<rparr>) (pool_flush S p)"
    using reset_step [of S "p\<lparr>pool_store := flush_store S (pool_store p)\<rparr>"] by (simp add: pool_flush_def)
  ultimately show ?thesis by simp
qed

lemma next_prev [simp]: "next_addr (prev_addr ip) = ip"
  by (cases ip) simp_all

lemma addr_less_irrefl [simp]: "\<not> addr_less ip ip"
  by (cases ip) simp_all

lemma contained_not_last: "contained_in_range ip first lst \<Longrightarrow> ip \<noteq> lst"
  by (auto simp: contained_in_range_def)

lemma word_next:
  fixes a b :: "'a::len word"
  assumes "a < b"
  shows "a < a + 1"
proof -
  have "unat a < unat b" using assms by (simp add: word_less_nat_alt)
  also have "unat b < 2 ^ LENGTH('a)" by (rule unsigned_less [where w = b, where 'a = nat])
  finally have "unat a + 1 \<le> unat b" "unat b < 2 ^ LENGTH('a)" using \<open>unat a < unat b\<close> unsigned_less [where w = b, where 'a = nat] by simp_all
  then have "unat a + 1 < 2 ^ LENGTH('a)" by linarith
  then have "unat (a + 1) = unat a + 1" by (simp add: unat_word_ariths)
  then show ?thesis by (simp add: word_less_nat_alt)
qed

lemma next_not_below:
  assumes "\<not> addr_less off first" "addr_less off lst"
  shows "\<not> addr_less (next_addr off) first"
  using assms
proof (cases off)
  case (V4 a)
  then show ?thesis using assms word_next [of a] by (cases first; cases lst) (fastforce simp: not_less)+
next
  case (V6 a)
  then show ?thesis using assms word_next [of a] by (cases first; cases lst) (fastforce simp: not_less)+
qed

lemma next_contained:
  assumes "addr_less first lst" "off = prev_addr first \<or> contained_in_range off first lst"
  shows "contained_in_range (if \<not> addr_less (next_addr off) lst then first else next_addr off) first lst"
proof (cases "off = prev_addr first")
  case True
  then show ?thesis using assms(1) by (simp add: contained_in_range_def)
next
  case False
  then have off: "\<not> addr_less off first" "addr_less off lst" using assms(2) by (simp_all add: contained_in_range_def)
  have "\<not> addr_less (next_addr off) first"
    using off by (rule next_not_below)
  then show ?thesis using assms(1) by (simp add: contained_in_range_def)
qed

text \<open>Several lookups one after the other, with their results in order.\<close>

definition lookup_all :: "'s store_ops \<Rightarrow> string list \<Rightarrow> 's pool \<Rightarrow> ipaddr list \<times> 's pool" where
  "lookup_all S hs p = fold (\<lambda>h (ips, p). let (ip, p') = pool_lookup S p h in (ips @ [ip], p')) hs ([], p)"

text \<open>The addresses from \<open>first\<close> on, and how many of them lie before \<open>lst\<close>.\<close>

definition addr_at :: "ipaddr \<Rightarrow> nat \<Rightarrow> ipaddr" where
  "addr_at first i = (next_addr ^^ i) first"

fun addr_gap :: "ipaddr \<Rightarrow> ipaddr \<Rightarrow> nat" where
  "addr_gap (V4 a) (V4 b) = unat b - unat a"
| "addr_gap (V6 a) (V6 b) = unat b - unat a"
| "addr_gap _ _ = 0"

lemma addr_at_simps [simp]:
  "addr_at first 0 = first" "addr_at first (Suc i) = next_addr (addr_at first i)"
  by (simp_all add: addr_at_def)

lemma addr_at_V4: "addr_at (V4 a) i = V4 (a + of_nat i)"
  by (induction i) simp_all

lemma addr_at_V6: "addr_at (V6 a) i = V6 (a + of_nat i)"
  by (induction i) simp_all

lemma word_at:
  fixes a b :: "'a::len word"
  assumes "i \<le> unat b - unat a" "a < b"
  shows "unat (a + of_nat i) = unat a + i"
proof -
  have "unat b < 2 ^ LENGTH('a)" by (rule unsigned_less [where w = b, where 'a = nat])
  moreover have "unat a + i \<le> unat b" using assms by (simp add: word_less_nat_alt)
  ultimately have "unat a + i < 2 ^ LENGTH('a)" by linarith
  then show ?thesis by (simp add: unat_word_ariths unat_of_nat take_bit_nat_eq_self)
qed

lemma addr_at_less:
  assumes "addr_less first lst" "i \<le> addr_gap first lst"
  shows "addr_less (addr_at first i) lst \<longleftrightarrow> i < addr_gap first lst"
  using assms by (cases first; cases lst) (auto simp: addr_at_V4 addr_at_V6 word_less_nat_alt word_at)

lemma addr_at_inj:
  assumes "addr_less first lst" "i \<le> addr_gap first lst" "j \<le> addr_gap first lst" "addr_at first i = addr_at first j"
  shows "i = j"
proof (cases first)
  case (V4 a)
  then obtain b where "lst = V4 b" using assms(1) by (cases lst) simp_all
  then show ?thesis using assms word_at [of i b a] word_at [of j b a] by (simp add: V4 addr_at_V4 word_unat_eq_iff)
next
  case (V6 a)
  then obtain b where "lst = V6 b" using assms(1) by (cases lst) simp_all
  then show ?thesis using assms word_at [of i b a] word_at [of j b a] by (simp add: V6 addr_at_V6 word_unat_eq_iff)
qed

lemma map_of_zip_snoc:
  assumes "length xs = length ys" "k \<notin> set xs"
  shows "map_of (zip (xs @ [k]) (ys @ [v])) = (map_of (zip xs ys))(k \<mapsto> v)"
  using assms by (induction xs ys rule: list_induct2) (auto simp: fun_upd_twist)

lemma addr_gap_pos: "addr_less first lst \<Longrightarrow> 0 < addr_gap first lst"
  by (cases first; cases lst) (simp_all add: word_less_nat_alt)

subsection \<open>The contract of a store\<close>

locale store_contract =
  fixes S :: "'s store_ops" and fwd :: "'s \<Rightarrow> string \<Rightarrow> ipaddr option" and ok :: "'s \<Rightarrow> bool"
  assumes get_host: "ok s \<Longrightarrow> fst (get_by_host S s h) = fwd s h \<and> ok (snd (get_by_host S s h)) \<and> fwd (snd (get_by_host S s h)) = fwd s"
    and get_ip: "ok s \<Longrightarrow> (fst (get_by_ip S s ip) = Some h \<longleftrightarrow> fwd s h = Some ip) \<and> ok (snd (get_by_ip S s ip)) \<and> fwd (snd (get_by_ip S s ip)) = fwd s"
    and exists_iff: "ok s \<Longrightarrow> exists_ip S s ip \<longleftrightarrow> (\<exists>h. fwd s h = Some ip)"
    and put_new: "ok s \<Longrightarrow> fwd s h = None \<Longrightarrow> \<nexists>h'. fwd s h' = Some ip \<Longrightarrow>
      ok (put_entry S s h ip) \<and> fwd (put_entry S s h ip) h = Some ip \<and> fwd (put_entry S s h ip) \<subseteq>\<^sub>m (fwd s)(h \<mapsto> ip)"
    and del_law: "ok s \<Longrightarrow> ok (del_by_ip S s ip) \<and> fwd (del_by_ip S s ip) = (\<lambda>h. if fwd s h = Some ip then None else fwd s h)"
    and flush_law: "ok s \<Longrightarrow> ok (flush_store S s) \<and> fwd (flush_store S s) = Map.empty"
    and state_law: "ok s \<Longrightarrow> ok (put_state S s off c) \<and> fwd (put_state S s off c) = fwd s"
begin

definition pool_inv :: "'s pool \<Rightarrow> bool" where
  "pool_inv p \<longleftrightarrow> ok (pool_store p) \<and> addr_less (pool_first p) (pool_last p) \<and>
     (pool_offset p = prev_addr (pool_first p) \<or> contained_in_range (pool_offset p) (pool_first p) (pool_last p)) \<and>
     (\<forall>h ip. fwd (pool_store p) h = Some ip \<longrightarrow> contained_in_range ip (pool_first p) (pool_last p))"

lemma unique_host: "ok s \<Longrightarrow> fwd s h = Some ip \<Longrightarrow> fwd s h' = Some ip \<Longrightarrow> h = h'"
  using get_ip [of s ip h] get_ip [of s ip h'] by simp

lemma save_state_inv:
  "pool_inv (save_state S p) \<longleftrightarrow> pool_inv p" if "ok (pool_store p)"
  using state_law [OF that] that by (simp add: save_state_def pool_inv_def)

lemma save_state_simps:
  "ok (pool_store p) \<Longrightarrow> fwd (pool_store (save_state S p)) = fwd (pool_store p)"
  "pool_first (save_state S p) = pool_first p" "pool_last (save_state S p) = pool_last p"
  "pool_gateway (save_state S p) = pool_gateway p" "pool_net (save_state S p) = pool_net p"
  using state_law by (simp_all add: save_state_def)

lemma allocate_law:
  assumes "pool_inv p" "fwd (pool_store p) h = None" "allocate S p h = (ip, p')"
  shows "pool_inv p'" "fwd (pool_store p') h = Some ip"
    "ip = (if addr_less (next_addr (pool_offset p)) (pool_last p) then next_addr (pool_offset p) else pool_first p)"
    "fwd (pool_store p') \<subseteq>\<^sub>m (\<lambda>h'. if fwd (pool_store p) h' = Some ip then None else fwd (pool_store p) h')(h \<mapsto> ip)"
    "pool_first p' = pool_first p" "pool_last p' = pool_last p" "pool_gateway p' = pool_gateway p" "pool_net p' = pool_net p"
proof -
  let ?c = "if addr_less (next_addr (pool_offset p)) (pool_last p) then next_addr (pool_offset p) else pool_first p"
  define cyc where "cyc = (pool_cycle p \<or> \<not> addr_less (next_addr (pool_offset p)) (pool_last p))"
  define s1 where "s1 = (if cyc \<or> exists_ip S (pool_store p) ?c then del_by_ip S (pool_store p) ?c else pool_store p)"
  define s2 where "s2 = put_entry S s1 h ?c"
  have "allocate S p h = (?c, save_state S (p\<lparr>pool_offset := ?c, pool_cycle := cyc, pool_store := s2\<rparr>))"
    by (simp add: allocate_def Let_def s1_def s2_def cyc_def)
  then have eq: "ip = ?c" "p' = save_state S (p\<lparr>pool_offset := ?c, pool_cycle := cyc, pool_store := s2\<rparr>)"
    using assms(3) by simp_all
  have ok: "ok (pool_store p)" and rng: "contained_in_range ?c (pool_first p) (pool_last p)"
    using assms(1) next_contained [of "pool_first p" "pool_last p" "pool_offset p"] by (auto simp: pool_inv_def)
  have s1: "ok s1" "fwd s1 = (\<lambda>h'. if fwd (pool_store p) h' = Some ?c then None else fwd (pool_store p) h')"
    using ok del_law [OF ok] exists_iff [OF ok] by (auto simp: s1_def fun_eq_iff)
  have s2: "ok s2" "fwd s2 h = Some ?c" "fwd s2 \<subseteq>\<^sub>m (fwd s1)(h \<mapsto> ?c)"
    using put_new [OF s1(1), of h ?c] assms(2) s1(2) by (auto simp: s2_def)
  have in_rng: "contained_in_range ip' (pool_first p) (pool_last p)" if "fwd s2 h' = Some ip'" for h' ip'
  proof -
    have "((fwd s1)(h \<mapsto> ?c)) h' = Some ip'" using that s2(3) by (auto simp: map_le_def dom_def)
    then show ?thesis using rng assms(1) s1(2) by (auto simp: pool_inv_def split: if_splits)
  qed
  show "pool_inv p'" using s2(1) rng in_rng assms(1) by (auto simp: eq save_state_inv) (auto simp: pool_inv_def)
  show "fwd (pool_store p') h = Some ip" "ip = ?c"
    using s2 by (simp_all add: eq save_state_simps)
  show "fwd (pool_store p') \<subseteq>\<^sub>m (\<lambda>h'. if fwd (pool_store p) h' = Some ip then None else fwd (pool_store p) h')(h \<mapsto> ip)"
    using s2 s1(2) by (simp add: eq save_state_simps)
  show "pool_first p' = pool_first p" "pool_last p' = pool_last p" "pool_gateway p' = pool_gateway p" "pool_net p' = pool_net p"
    by (simp_all add: eq save_state_simps)
qed

lemma lookup_law:
  assumes "pool_inv p" "pool_lookup S p host = (ip, p')"
  shows "pool_inv p'" "fwd (pool_store p') (to_ascii_lowercase host) = Some ip"
    "fwd (pool_store p) (to_ascii_lowercase host) = Some x \<Longrightarrow> ip = x \<and> fwd (pool_store p') = fwd (pool_store p)"
    "pool_first p' = pool_first p" "pool_last p' = pool_last p" "pool_gateway p' = pool_gateway p" "pool_net p' = pool_net p"
proof -
  let ?h = "to_ascii_lowercase host"
  have ok: "ok (pool_store p)" using assms(1) by (simp add: pool_inv_def)
  obtain r s1 where g: "get_by_host S (pool_store p) ?h = (r, s1)" by fastforce
  have s1: "r = fwd (pool_store p) ?h" "ok s1" "fwd s1 = fwd (pool_store p)" using get_host [OF ok, of ?h] g by simp_all
  have inv1: "pool_inv (p\<lparr>pool_store := s1\<rparr>)" using assms(1) s1 by (simp add: pool_inv_def)
  have all: "pool_inv p' \<and> fwd (pool_store p') ?h = Some ip \<and>
      (fwd (pool_store p) ?h = Some x \<longrightarrow> ip = x \<and> fwd (pool_store p') = fwd (pool_store p)) \<and>
      pool_first p' = pool_first p \<and> pool_last p' = pool_last p \<and> pool_gateway p' = pool_gateway p \<and> pool_net p' = pool_net p"
  proof (cases r)
    case None
    then have a: "allocate S (p\<lparr>pool_store := s1\<rparr>) ?h = (ip, p')" using assms(2) by (simp add: pool_lookup_def Let_def g)
    show ?thesis using allocate_law [OF inv1 _ a] s1 None by simp
  next
    case (Some y)
    then show ?thesis using assms(2) inv1 s1 by (auto simp: pool_lookup_def Let_def g)
  qed
  show "pool_inv p'" "fwd (pool_store p') ?h = Some ip"
    "fwd (pool_store p) ?h = Some x \<Longrightarrow> ip = x \<and> fwd (pool_store p') = fwd (pool_store p)"
    "pool_first p' = pool_first p" "pool_last p' = pool_last p" "pool_gateway p' = pool_gateway p" "pool_net p' = pool_net p"
    using all by simp_all
qed

lemma back_law:
  assumes "pool_inv p" "look_back S p ip = (r, p')"
  shows "pool_inv p'" "fwd (pool_store p') = fwd (pool_store p)"
    "contained_in_range ip (pool_first p) (pool_last p) \<Longrightarrow> ip \<noteq> pool_gateway p \<Longrightarrow> r = Some h \<longleftrightarrow> fwd (pool_store p) h = Some ip"
    "pool_first p' = pool_first p" "pool_last p' = pool_last p" "pool_gateway p' = pool_gateway p" "pool_net p' = pool_net p"
  using assms get_ip [of "pool_store p" ip h]
  by (auto simp: look_back_def pool_inv_def Let_def split_def contained_in_range_def split: if_splits)

lemma step_law:
  assumes "pool_step S p p'" "pool_inv p"
  shows "pool_inv p' \<and> pool_first p' = pool_first p \<and> pool_last p' = pool_last p \<and> pool_gateway p' = pool_gateway p \<and> pool_net p' = pool_net p"
  using assms
proof (cases rule: pool_step.cases)
  case (lookup_step host)
  then show ?thesis using lookup_law [OF assms(2), of host "fst (pool_lookup S p host)" p'] by simp
next
  case (back_step ip)
  then show ?thesis using back_law [OF assms(2), of ip "fst (look_back S p ip)" p'] by simp
next
  case clear_step
  then show ?thesis using assms(2) flush_law by (auto simp: pool_inv_def)
next
  case reset_step
  moreover have "ok (pool_store p)" using assms(2) by (simp add: pool_inv_def)
  moreover have "pool_inv (p\<lparr>pool_offset := prev_addr (pool_first p), pool_cycle := False\<rparr>)" using assms(2) by (simp add: pool_inv_def)
  ultimately show ?thesis by (simp add: save_state_inv save_state_simps)
qed

lemma steps_law:
  assumes "(pool_step S)\<^sup>*\<^sup>* p p'" "pool_inv p"
  shows "pool_inv p' \<and> pool_first p' = pool_first p \<and> pool_last p' = pool_last p \<and> pool_gateway p' = pool_gateway p \<and> pool_net p' = pool_net p"
  using assms by (induction rule: rtranclp_induct) (auto dest: step_law)

lemma pool_correct:
  assumes "pool_inv p0" "addr_less (pool_gateway p0) (pool_first p0)" "(pool_step S)\<^sup>*\<^sup>* p0 p" "pool_lookup S p host = (ip, p')"
  shows "contained_in_range ip (pool_first p0) (pool_last p0) \<and> fst (look_back S p' ip) = Some (to_ascii_lowercase host) \<and>
    exists_ip S (pool_store p') ip \<and> (to_ascii_lowercase host' = to_ascii_lowercase host \<longrightarrow> fst (pool_lookup S p' host') = ip)"
proof -
  have p: "pool_inv p" "pool_first p = pool_first p0" "pool_last p = pool_last p0" "pool_gateway p = pool_gateway p0"
    using steps_law [OF assms(3,1)] by simp_all
  note p' = lookup_law [OF p(1) assms(4)]
  have rng: "contained_in_range ip (pool_first p0) (pool_last p0)" using p'(1,2,4,5) p by (auto simp: pool_inv_def)
  moreover have "ip \<noteq> pool_gateway p'" using rng assms(2) p' p by (auto simp: contained_in_range_def)
  then have "fst (look_back S p' ip) = Some (to_ascii_lowercase host)"
    using back_law(3) [OF p'(1) prod.collapse [symmetric], of ip] rng p' p by simp
  moreover have "exists_ip S (pool_store p') ip" using p'(1,2) exists_iff [of "pool_store p'" ip] by (auto simp: pool_inv_def)
  moreover have "fst (pool_lookup S p' host') = ip" if "to_ascii_lowercase host' = to_ascii_lowercase host"
    using lookup_law(3) [OF p'(1) prod.collapse [symmetric], of host' ip] p'(2) that by simp
  ultimately show ?thesis by blast
qed

lemma pool_new_inv:
  assumes "pool_new S network broadcast pfx st = Inr p" "ok st"
    "\<And>h ip. fwd st h = Some ip \<Longrightarrow> contained_in_range ip (pool_first p) (pool_last p)"
  shows "pool_inv p"
  using assms
  by (auto simp: pool_new_def anchor_addrs_def pool_inv_def Let_def split: if_splits sum.splits option.splits prod.splits)

end

text \<open>A store that drops nothing on its own.\<close>

locale exact_store = store_contract +
  assumes put_exact: "ok s \<Longrightarrow> fwd s h = None \<Longrightarrow> \<nexists>h'. fwd s h' = Some ip \<Longrightarrow> fwd (put_entry S s h ip) = (fwd s)(h \<mapsto> ip)"
begin

lemma allocate_exact:
  assumes "pool_inv p" "fwd (pool_store p) h = None" "allocate S p h = (ip, p')"
  shows "fwd (pool_store p') = (\<lambda>h'. if fwd (pool_store p) h' = Some ip then None else fwd (pool_store p) h')(h \<mapsto> ip)"
    "pool_offset p' = ip" "pool_cycle p' \<longleftrightarrow> pool_cycle p \<or> \<not> addr_less (next_addr (pool_offset p)) (pool_last p)"
proof -
  let ?c = "if addr_less (next_addr (pool_offset p)) (pool_last p) then next_addr (pool_offset p) else pool_first p"
  define cyc where "cyc = (pool_cycle p \<or> \<not> addr_less (next_addr (pool_offset p)) (pool_last p))"
  define s1 where "s1 = (if cyc \<or> exists_ip S (pool_store p) ?c then del_by_ip S (pool_store p) ?c else pool_store p)"
  have "allocate S p h = (?c, save_state S (p\<lparr>pool_offset := ?c, pool_cycle := cyc, pool_store := put_entry S s1 h ?c\<rparr>))"
    by (simp add: allocate_def Let_def s1_def cyc_def)
  then have eq: "ip = ?c" "p' = save_state S (p\<lparr>pool_offset := ?c, pool_cycle := cyc, pool_store := put_entry S s1 h ?c\<rparr>)"
    using assms(3) by simp_all
  have ok: "ok (pool_store p)" using assms(1) by (simp add: pool_inv_def)
  have s1: "ok s1" "fwd s1 = (\<lambda>h'. if fwd (pool_store p) h' = Some ?c then None else fwd (pool_store p) h')"
    using ok del_law [OF ok] exists_iff [OF ok] by (auto simp: s1_def fun_eq_iff)
  have new: "fwd s1 h = None" "\<nexists>h'. fwd s1 h' = Some ?c" using assms(2) s1(2) by auto
  show "fwd (pool_store p') = (\<lambda>h'. if fwd (pool_store p) h' = Some ip then None else fwd (pool_store p) h')(h \<mapsto> ip)"
    using put_exact [OF s1(1) new] put_new [OF s1(1) new] s1(2) by (simp add: eq save_state_simps)
  show "pool_offset p' = ip" "pool_cycle p' \<longleftrightarrow> pool_cycle p \<or> \<not> addr_less (next_addr (pool_offset p)) (pool_last p)"
    by (simp_all add: eq save_state_def cyc_def)
qed

lemma lookup_exact:
  assumes "pool_inv p" "fwd (pool_store p) (to_ascii_lowercase host) = None" "pool_lookup S p host = (ip, p')"
  shows "fwd (pool_store p') = (\<lambda>h'. if fwd (pool_store p) h' = Some ip then None else fwd (pool_store p) h')(to_ascii_lowercase host \<mapsto> ip)"
    "pool_offset p' = ip" "pool_cycle p' \<longleftrightarrow> pool_cycle p \<or> \<not> addr_less (next_addr (pool_offset p)) (pool_last p)"
    "ip = (if addr_less (next_addr (pool_offset p)) (pool_last p) then next_addr (pool_offset p) else pool_first p)"
proof -
  let ?h = "to_ascii_lowercase host"
  have ok: "ok (pool_store p)" using assms(1) by (simp add: pool_inv_def)
  obtain r s1 where g: "get_by_host S (pool_store p) ?h = (r, s1)" by fastforce
  have s1: "r = None" "ok s1" "fwd s1 = fwd (pool_store p)" using get_host [OF ok, of ?h] g assms(2) by simp_all
  define p1 where "p1 = p\<lparr>pool_store := s1\<rparr>"
  have p1: "fwd (pool_store p1) = fwd (pool_store p)" "pool_offset p1 = pool_offset p" "pool_cycle p1 = pool_cycle p"
    "pool_first p1 = pool_first p" "pool_last p1 = pool_last p" using s1(3) by (simp_all add: p1_def)
  have inv1: "pool_inv p1" using assms(1) s1 by (simp add: pool_inv_def p1_def)
  have a: "allocate S p1 ?h = (ip, p')" using assms(3) s1 by (simp add: pool_lookup_def Let_def g p1_def)
  note ex = allocate_exact [OF inv1 _ a, unfolded p1, OF assms(2)] allocate_law(3) [OF inv1 _ a, unfolded p1, OF assms(2)]
  show "fwd (pool_store p') = (\<lambda>h'. if fwd (pool_store p) h' = Some ip then None else fwd (pool_store p) h')(?h \<mapsto> ip)"
    by (rule ex)
  show "pool_offset p' = ip" by (rule ex)
  show "pool_cycle p' \<longleftrightarrow> pool_cycle p \<or> \<not> addr_less (next_addr (pool_offset p)) (pool_last p)" by (rule ex)
  show "ip = (if addr_less (next_addr (pool_offset p)) (pool_last p) then next_addr (pool_offset p) else pool_first p)"
    by (rule ex)
qed

definition fresh_pool :: "'a pool \<Rightarrow> bool" where
  "fresh_pool p \<longleftrightarrow> pool_inv p \<and> pool_offset p = prev_addr (pool_first p) \<and> \<not> pool_cycle p \<and> fwd (pool_store p) = Map.empty"

lemma lookup_result:
  assumes "pool_inv p"
  shows "fst (pool_lookup S p host) =
    (case fwd (pool_store p) (to_ascii_lowercase host) of
       Some ip \<Rightarrow> ip
     | None \<Rightarrow> if addr_less (next_addr (pool_offset p)) (pool_last p) then next_addr (pool_offset p) else pool_first p)"
proof (cases "fwd (pool_store p) (to_ascii_lowercase host)")
  case None
  then show ?thesis using lookup_exact(4) [OF assms None prod.collapse [symmetric]] by simp
next
  case (Some ip)
  then show ?thesis using lookup_law(3) [OF assms prod.collapse [symmetric] Some] by simp
qed

lemma back_result:
  assumes "pool_inv p"
  shows "fst (look_back S p ip) = Some h \<longleftrightarrow> ip \<noteq> pool_gateway p \<and> ip \<noteq> pool_last p \<and> fwd (pool_store p) h = Some ip"
  using assms get_ip [of "pool_store p" ip h] by (auto simp: look_back_def pool_inv_def Let_def split_def)

lemma fill_pool:
  assumes "fresh_pool p" "distinct (map to_ascii_lowercase hs)" "length hs \<le> addr_gap (pool_first p) (pool_last p)"
  shows "case lookup_all S hs p of (ips, p') \<Rightarrow>
    ips = map (addr_at (pool_first p)) [0..<length hs] \<and> pool_inv p' \<and>
    fwd (pool_store p') = map_of (zip (map to_ascii_lowercase hs) ips) \<and>
    next_addr (pool_offset p') = addr_at (pool_first p) (length hs) \<and> \<not> pool_cycle p' \<and>
    pool_first p' = pool_first p \<and> pool_last p' = pool_last p"
  using assms(2,3)
proof (induction hs rule: rev_induct)
  case Nil
  then show ?case using assms(1) by (simp add: lookup_all_def fresh_pool_def)
next
  case (snoc h hs)
  let ?f = "pool_first p" and ?l = "pool_last p"
  obtain ips p1 where r: "lookup_all S hs p = (ips, p1)" by fastforce
  obtain ip p2 where l: "pool_lookup S p1 h = (ip, p2)" by fastforce
  have IH: "ips = map (addr_at ?f) [0..<length hs]" "pool_inv p1" "fwd (pool_store p1) = map_of (zip (map to_ascii_lowercase hs) ips)"
    "next_addr (pool_offset p1) = addr_at ?f (length hs)" "\<not> pool_cycle p1" "pool_first p1 = ?f" "pool_last p1 = ?l"
    using snoc r by auto
  have less: "addr_less ?f ?l" using assms(1) by (simp add: fresh_pool_def pool_inv_def)
  have n: "addr_less (addr_at ?f (length hs)) ?l" using snoc.prems by (simp add: addr_at_less [OF less])
  have new: "fwd (pool_store p1) (to_ascii_lowercase h) = None" using snoc.prems by (auto simp: IH(3) map_of_eq_None_iff dest!: set_zip_leftD)
  have ip: "ip = addr_at ?f (length hs)" using lookup_exact(4) [OF IH(2) new l] n by (simp add: IH)
  have free: "fwd (pool_store p1) h' \<noteq> Some ip" for h'
  proof
    assume "fwd (pool_store p1) h' = Some ip"
    then have "ip \<in> set ips" by (auto simp: IH(3) dest!: map_of_SomeD set_zip_rightD)
    then obtain i where "i < length hs" "ip = addr_at ?f i" by (auto simp: IH(1))
    then show False using addr_at_inj [OF less, of i "length hs"] snoc.prems ip by simp
  qed
  have "fwd (pool_store p2) = (map_of (zip (map to_ascii_lowercase hs) ips))(to_ascii_lowercase h \<mapsto> ip)"
    using lookup_exact(1) [OF IH(2) new l] free by (simp add: IH(3))
  then have fwd: "fwd (pool_store p2) = map_of (zip (map to_ascii_lowercase (hs @ [h])) (ips @ [ip]))"
    using snoc.prems IH(1) by (simp add: map_of_zip_snoc del: zip_append)
  show ?case using r l IH lookup_law [OF IH(2) l] lookup_exact(2,3) [OF IH(2) new l] fwd ip n
    by (simp add: lookup_all_def)
qed

lemma wrap_pool:
  assumes "fresh_pool p" "distinct (map to_ascii_lowercase (h0 # hs @ [h]))" "Suc (length hs) = addr_gap (pool_first p) (pool_last p)"
    "lookup_all S (h0 # hs) p = (ips, p1)" "pool_lookup S p1 h = (ip, p2)"
  shows "ip = pool_first p \<and> fwd (pool_store p2) = (map_of (zip (map to_ascii_lowercase hs) (tl ips)))(to_ascii_lowercase h \<mapsto> ip)"
proof -
  let ?f = "pool_first p" and ?l = "pool_last p" and ?h0 = "to_ascii_lowercase h0"
  have less: "addr_less ?f ?l" using assms(1) by (simp add: fresh_pool_def pool_inv_def)
  have f: "ips = map (addr_at ?f) [0..<Suc (length hs)]" "pool_inv p1" "fwd (pool_store p1) = map_of (zip (map to_ascii_lowercase (h0 # hs)) ips)"
    "next_addr (pool_offset p1) = addr_at ?f (Suc (length hs))" "pool_first p1 = ?f" "pool_last p1 = ?l"
    using fill_pool [OF assms(1), of "h0 # hs"] assms by auto
  have ips: "ips = ?f # tl ips" "length (tl ips) = length hs" by (simp_all add: f(1) upt_rec [of 0])
  have tl: "?f \<notin> set (tl ips)"
  proof
    assume "?f \<in> set (tl ips)"
    then obtain i where "Suc 0 \<le> i" "i < Suc (length hs)" "?f = addr_at ?f i" by (auto simp: f(1) upt_rec [of 0] simp del: upt_Suc)
    then show False using addr_at_inj [OF less, of 0 i] assms(3) by simp
  qed
  have new: "fwd (pool_store p1) (to_ascii_lowercase h) = None" using assms(2) by (auto simp: f(3) map_of_eq_None_iff dest!: set_zip_leftD)
  have "\<not> addr_less (next_addr (pool_offset p1)) ?l" using addr_at_less [OF less, of "Suc (length hs)"] assms(3) f(4) by simp
  then have ip: "ip = ?f" using lookup_exact(4) [OF f(2) new assms(5)] f by simp
  have "(if fwd (pool_store p1) h' = Some ?f then None else fwd (pool_store p1) h') = map_of (zip (map to_ascii_lowercase hs) (tl ips)) h'" for h'
  proof -
    have z: "fwd (pool_store p1) = (map_of (zip (map to_ascii_lowercase hs) (tl ips)))(?h0 \<mapsto> ?f)"
      using ips(1) by (metis f(3) list.simps(9) map_of.simps(2) zip_Cons_Cons fst_conv snd_conv)
    have "map_of (zip (map to_ascii_lowercase hs) (tl ips)) h' \<noteq> Some ?f" using tl by (auto dest!: map_of_SomeD set_zip_rightD)
    moreover have "map_of (zip (map to_ascii_lowercase hs) (tl ips)) ?h0 = None" using assms(2) by (auto simp: map_of_eq_None_iff dest!: set_zip_leftD)
    ultimately show ?thesis by (auto simp: z)
  qed
  then show ?thesis using lookup_exact(1) [OF f(2) new assms(5)] ip by simp
qed

end

end
