(* ===== verification/FakeIpStores.thy ===== *)
theory FakeIpStores
  imports FakeIpPool
begin

text \<open>
  The two stores of \<open>meow-dns/src/fakeip.rs\<close> meet the contract of the pool: the file store as an
  interpretation, the memory store whenever its LRU caches keep their documented order. Then the
  properties of the pool over either store, of its address range and of the filter of hosts.
\<close>

subsection \<open>The file store\<close>

definition file_mirror :: "file_inner \<Rightarrow> bool" where
  "file_mirror s \<longleftrightarrow> (\<forall>h ip. map_of (sn_entries (fs_state s)) h = Some ip \<longleftrightarrow> map_of (fs_reverse s) ip = Some h)"

definition file_ok :: "file_inner \<Rightarrow> bool" where
  "file_ok s \<longleftrightarrow> distinct (map fst (sn_entries (fs_state s))) \<and> file_mirror s"

definition file_fwd :: "file_inner \<Rightarrow> string \<Rightarrow> ipaddr option" where
  "file_fwd s = map_of (sn_entries (fs_state s))"

lemma file_put_law:
  assumes "file_ok s" "file_fwd s h = None" "\<nexists>h'. file_fwd s h' = Some ip"
  shows "file_ok (file_put s h ip) \<and> file_fwd (file_put s h ip) = (file_fwd s)(h \<mapsto> ip)"
proof -
  have m: "file_mirror s" and d: "distinct (map fst (sn_entries (fs_state s)))" using assms(1) by (simp_all add: file_ok_def)
  have "map_of (fs_reverse s) ip = None" using m assms(3) by (cases "map_of (fs_reverse s) ip") (auto simp: file_mirror_def file_fwd_def)
  then have "file_mirror (file_put s h ip) \<and> file_fwd (file_put s h ip) = (file_fwd s)(h \<mapsto> ip)"
    using m assms(2) by (auto simp: file_mirror_def file_fwd_def file_put_def update_conv) (metis option.distinct(1))
  moreover have "distinct (map fst (sn_entries (fs_state (file_put s h ip))))"
    using distinct_update [OF d] by (simp add: file_put_def)
  ultimately show ?thesis by (simp add: file_ok_def)
qed

lemma file_del_law:
  assumes "file_ok s"
  shows "file_ok (file_del_by_ip s ip) \<and> file_fwd (file_del_by_ip s ip) = (\<lambda>h. if file_fwd s h = Some ip then None else file_fwd s h)"
proof (cases "map_of (fs_reverse s) ip")
  case None
  then show ?thesis using assms by (auto simp: file_ok_def file_mirror_def file_fwd_def file_del_by_ip_def fun_eq_iff)
next
  case (Some host)
  have m: "file_mirror s" and d: "distinct (map fst (sn_entries (fs_state s)))" using assms by (simp_all add: file_ok_def)
  then have host: "map_of (sn_entries (fs_state s)) host = Some ip" using Some unfolding file_mirror_def by blast
  then have "file_mirror (file_del_by_ip s ip) \<and> file_fwd (file_del_by_ip s ip) = (\<lambda>h. if file_fwd s h = Some ip then None else file_fwd s h)"
    using m Some by (auto simp: file_mirror_def file_fwd_def file_del_by_ip_def delete_conv fun_eq_iff Let_def) (metis option.inject)
  moreover have "distinct (map fst (sn_entries (fs_state (file_del_by_ip s ip))))"
    using distinct_delete [OF d] d Some host by (simp add: file_del_by_ip_def Let_def)
  ultimately show ?thesis by (simp add: file_ok_def)
qed

interpretation fstore: exact_store file_store file_fwd file_ok
proof unfold_locales
  fix s h ip off c
  assume s: "file_ok s"
  show "fst (get_by_host file_store s h) = file_fwd s h \<and> file_ok (snd (get_by_host file_store s h)) \<and>
      file_fwd (snd (get_by_host file_store s h)) = file_fwd s"
    using s by (simp add: file_store_def file_fwd_def)
  show "(fst (get_by_ip file_store s ip) = Some h \<longleftrightarrow> file_fwd s h = Some ip) \<and> file_ok (snd (get_by_ip file_store s ip)) \<and>
      file_fwd (snd (get_by_ip file_store s ip)) = file_fwd s"
    using s by (auto simp: file_store_def file_fwd_def file_ok_def file_mirror_def simp del: map_of_eq_Some_iff)
  show "exists_ip file_store s ip \<longleftrightarrow> (\<exists>h. file_fwd s h = Some ip)"
    using s by (auto simp: file_store_def file_fwd_def file_ok_def file_mirror_def simp del: map_of_eq_Some_iff)
  show "file_ok (put_entry file_store s h ip) \<and> file_fwd (put_entry file_store s h ip) h = Some ip \<and>
      file_fwd (put_entry file_store s h ip) \<subseteq>\<^sub>m (file_fwd s)(h \<mapsto> ip)"
    if "file_fwd s h = None" "\<nexists>h'. file_fwd s h' = Some ip"
    using file_put_law [OF s that] by (simp add: file_store_def)
  show "file_fwd (put_entry file_store s h ip) = (file_fwd s)(h \<mapsto> ip)"
    if "file_fwd s h = None" "\<nexists>h'. file_fwd s h' = Some ip"
    using file_put_law [OF s that] by (simp add: file_store_def)
  show "file_ok (del_by_ip file_store s ip) \<and> file_fwd (del_by_ip file_store s ip) = (\<lambda>h. if file_fwd s h = Some ip then None else file_fwd s h)"
    using file_del_law [OF s] by (simp add: file_store_def)
  show "file_ok (flush_store file_store s) \<and> file_fwd (flush_store file_store s) = Map.empty"
    by (simp add: file_store_def file_flush_def file_ok_def file_mirror_def file_fwd_def snapshot_default_def)
  show "file_ok (put_state file_store s off c) \<and> file_fwd (put_state file_store s off c) = file_fwd s"
    using s by (simp add: file_store_def file_put_state_def file_ok_def file_mirror_def file_fwd_def)
qed

text \<open>A snapshot in which no address occurs twice gives a store whose two directions agree.\<close>

lemma from_snapshot_ok:
  assumes "distinct (map fst (sn_entries sn))" "distinct (map snd (sn_entries sn))"
  shows "file_ok (from_snapshot sn)"
proof -
  have rv: "map_of (fold (\<lambda>(h, ip) rv. AList.update ip h rv) es rv0) ip = Some h \<longleftrightarrow>
      (h, ip) \<in> set es \<or> ip \<notin> snd ` set es \<and> map_of rv0 ip = Some h"
    if "distinct (map snd es)" for es rv0 and h :: string and ip :: ipaddr
    using that by (induction es arbitrary: rv0) (auto simp: update_conv image_iff split: if_splits)
  show ?thesis using assms rv [OF assms(2), of "[]"] by (auto simp: file_ok_def file_mirror_def from_snapshot_def)
qed

lemma file_ok_addresses:
  assumes "file_ok s"
  shows "distinct (map snd (sn_entries (fs_state s)))"
proof -
  have d: "distinct (map fst (sn_entries (fs_state s)))" and m: "file_mirror s" using assms by (simp_all add: file_ok_def)
  have "inj_on snd (set (sn_entries (fs_state s)))"
  proof (rule inj_onI)
    fix x y
    assume xy: "x \<in> set (sn_entries (fs_state s))" "y \<in> set (sn_entries (fs_state s))" "snd x = snd y"
    then have "map_of (sn_entries (fs_state s)) (fst x) = Some (snd x)" "map_of (sn_entries (fs_state s)) (fst y) = Some (snd x)"
      using d by (metis map_of_is_SomeI prod.collapse)+
    then have "fst x = fst y" using m unfolding file_mirror_def by (metis option.inject)
    then show "x = y" using xy(3) by (simp add: prod_eq_iff)
  qed
  then show ?thesis using d by (simp add: distinct_map)
qed

subsection \<open>The memory store\<close>

text \<open>
  What the LRU cache promises, in terms of its entries from the most to the least recently used: a
  lookup and an insertion bring the entry to the front, the other operations leave the order alone.
\<close>

definition touch :: "'k \<Rightarrow> ('k \<times> 'v) list \<Rightarrow> ('k \<times> 'v) list" where
  "touch k l = (case map_of l k of None \<Rightarrow> l | Some v \<Rightarrow> (k, v) # AList.delete k l)"

definition lru_laws :: "('k, 'v, 'c) lru_ops \<Rightarrow> ('c \<Rightarrow> ('k \<times> 'v) list) \<Rightarrow> bool" where
  "lru_laws L ord \<longleftrightarrow>
     ord (lru_new L) = [] \<and>
     (\<forall>c k. fst (lru_get L c k) = map_of (ord c) k \<and> ord (snd (lru_get L c k)) = touch k (ord c)) \<and>
     (\<forall>c k. lru_peek L c k = map_of (ord c) k) \<and>
     (\<forall>c k v. ord (lru_put L c k v) = (k, v) # AList.delete k (ord c)) \<and>
     (\<forall>c k. fst (lru_pop L c k) = map_of (ord c) k \<and> ord (snd (lru_pop L c k)) = AList.delete k (ord c)) \<and>
     (\<forall>c. fst (lru_pop_lru L c) = (if ord c = [] then None else Some (last (ord c))) \<and> ord (snd (lru_pop_lru L c)) = butlast (ord c)) \<and>
     (\<forall>c k. lru_contains L c k \<longleftrightarrow> map_of (ord c) k \<noteq> None) \<and>
     (\<forall>c. lru_len L c = length (ord c)) \<and> (\<forall>c. ord (lru_clear L c) = [])"

lemma lru_lawsD:
  assumes "lru_laws L ord"
  shows "ord (lru_new L) = []" "fst (lru_get L c k) = map_of (ord c) k" "ord (snd (lru_get L c k)) = touch k (ord c)"
    "lru_peek L c k = map_of (ord c) k" "ord (lru_put L c k v) = (k, v) # AList.delete k (ord c)"
    "fst (lru_pop L c k) = map_of (ord c) k" "ord (snd (lru_pop L c k)) = AList.delete k (ord c)"
    "fst (lru_pop_lru L c) = (if ord c = [] then None else Some (last (ord c)))" "ord (snd (lru_pop_lru L c)) = butlast (ord c)"
    "lru_contains L c k \<longleftrightarrow> map_of (ord c) k \<noteq> None" "lru_len L c = length (ord c)" "ord (lru_clear L c) = []"
  using assms by (simp_all add: lru_laws_def)

definition paired :: "('k \<times> 'v) list \<Rightarrow> bool" where
  "paired l \<longleftrightarrow> distinct (map fst l) \<and> distinct (map snd l)"

lemma paired_filter: "paired l \<Longrightarrow> paired (filter P l)"
  by (auto simp: paired_def distinct_map_filter)

lemma delete_filter: "AList.delete k l = filter (\<lambda>x. fst x \<noteq> k) l"
  by (induction l) auto

lemma map_swap_swap [simp]: "map prod.swap (map prod.swap l) = l"
  by (induction l) auto

lemma paired_swap [simp]: "paired (map prod.swap l) \<longleftrightarrow> paired l"
  by (auto simp: paired_def comp_def)

lemma swap_lookup:
  assumes "paired l"
  shows "map_of (map prod.swap l) ip = Some h \<longleftrightarrow> map_of l h = Some ip"
proof -
  have "distinct (map fst (map prod.swap l))" using assms by (simp add: paired_def comp_def)
  then show ?thesis using assms by (auto simp: paired_def simp del: map_map)
qed

lemma map_of_butlast: "map_of (butlast l) \<subseteq>\<^sub>m map_of l"
  by (cases "l = []") (simp, metis append_butlast_last_id map_le_map_add map_of_append)

lemma paired_split:
  assumes "paired l" "map_of l h = Some ip"
  obtains l1 l2 where "l = l1 @ (h, ip) # l2" "AList.delete h l = l1 @ l2" "AList.delete ip (map prod.swap l) = map prod.swap (l1 @ l2)"
proof -
  obtain l1 l2 where l: "l = l1 @ (h, ip) # l2" using assms(2) by (meson map_of_SomeD split_list)
  have "filter (\<lambda>x. fst x \<noteq> h) l1 = l1" "filter (\<lambda>x. fst x \<noteq> h) l2 = l2"
      "filter (\<lambda>x. snd x \<noteq> ip) l1 = l1" "filter (\<lambda>x. snd x \<noteq> ip) l2 = l2"
    using assms(1) l by (force simp: paired_def filter_id_conv)+
  then have "AList.delete h l = l1 @ l2" "AList.delete ip (map prod.swap l) = map prod.swap (l1 @ l2)"
    by (simp_all add: delete_filter l filter_map comp_def)
  with l show ?thesis by (rule that)
qed

lemma touch_hit:
  assumes "paired l" "map_of l h = Some ip"
  shows "touch ip (map prod.swap l) = map prod.swap (touch h l)" "paired (touch h l)" "map_of (touch h l) = map_of l"
    "length (touch h l) = length l"
proof -
  obtain l1 l2 where l: "l = l1 @ (h, ip) # l2" "AList.delete h l = l1 @ l2" "AList.delete ip (map prod.swap l) = map prod.swap (l1 @ l2)"
    using paired_split [OF assms] .
  have t: "touch h l = (h, ip) # l1 @ l2" using assms(2) l(2) by (simp add: touch_def)
  have sw: "map_of (map prod.swap l) ip = Some h" using swap_lookup [OF assms(1)] assms(2) by simp
  show "touch ip (map prod.swap l) = map prod.swap (touch h l)" using l(3) sw by (simp add: touch_def [of ip] t)
  have "paired ((h, ip) # l1 @ l2)" using assms(1) unfolding l(1) by (auto simp: paired_def)
  then show "paired (touch h l)" by (simp only: t)
  have "map_of (touch h l) = (map_of (AList.delete h l))(h \<mapsto> ip)" by (simp add: t l(2))
  then show "map_of (touch h l) = map_of l" using assms(2) by (auto simp: delete_conv fun_eq_iff)
  have "length l = Suc (length (l1 @ l2))" unfolding l(1) by simp
  then show "length (touch h l) = length l" by (simp add: t)
qed

definition mem_ok :: "('c \<Rightarrow> (string \<times> ipaddr) list) \<Rightarrow> ('d \<Rightarrow> (ipaddr \<times> string) list) \<Rightarrow> ('c, 'd) memory_inner \<Rightarrow> bool" where
  "mem_ok oh oi s \<longleftrightarrow> oi (by_ip s) = map prod.swap (oh (by_host s)) \<and> paired (oh (by_host s)) \<and>
     length (oh (by_host s)) \<le> mem_cap s \<and> 0 < mem_cap s"

definition mem_fwd :: "('c \<Rightarrow> (string \<times> ipaddr) list) \<Rightarrow> ('c, 'd) memory_inner \<Rightarrow> string \<Rightarrow> ipaddr option" where
  "mem_fwd oh s = map_of (oh (by_host s))"

lemma memory_get_laws:
  assumes H: "lru_laws H oh" and I: "lru_laws I oi" and s: "mem_ok oh oi s"
  shows "fst (memory_get_by_host H I s h) = mem_fwd oh s h \<and> mem_ok oh oi (snd (memory_get_by_host H I s h)) \<and>
      mem_fwd oh (snd (memory_get_by_host H I s h)) = mem_fwd oh s"
    "(fst (memory_get_by_ip H I s ip) = Some h \<longleftrightarrow> mem_fwd oh s h = Some ip) \<and> mem_ok oh oi (snd (memory_get_by_ip H I s ip)) \<and>
      mem_fwd oh (snd (memory_get_by_ip H I s ip)) = mem_fwd oh s"
proof -
  note laws = lru_lawsD [OF H] lru_lawsD [OF I]
  let ?l = "oh (by_host s)"
  have l: "oi (by_ip s) = map prod.swap ?l" "paired ?l" using s by (simp_all add: mem_ok_def)
  show "fst (memory_get_by_host H I s h) = mem_fwd oh s h \<and> mem_ok oh oi (snd (memory_get_by_host H I s h)) \<and>
      mem_fwd oh (snd (memory_get_by_host H I s h)) = mem_fwd oh s"
  proof (cases "map_of ?l h")
    case None
    then show ?thesis using s by (simp add: memory_get_by_host_def split_def laws mem_fwd_def mem_ok_def touch_def)
  next
    case (Some x)
    then show ?thesis using s touch_hit [OF l(2) Some]
      by (simp add: memory_get_by_host_def split_def laws mem_fwd_def mem_ok_def)
  qed
  show "(fst (memory_get_by_ip H I s ip) = Some h \<longleftrightarrow> mem_fwd oh s h = Some ip) \<and> mem_ok oh oi (snd (memory_get_by_ip H I s ip)) \<and>
      mem_fwd oh (snd (memory_get_by_ip H I s ip)) = mem_fwd oh s"
  proof (cases "map_of (map prod.swap ?l) ip")
    case None
    then show ?thesis using s swap_lookup [OF l(2), of ip h]
      by (simp add: memory_get_by_ip_def split_def laws l(1) mem_fwd_def mem_ok_def touch_def)
  next
    case (Some x)
    have x: "map_of ?l x = Some ip" and h: "x = h \<longleftrightarrow> map_of ?l h = Some ip"
      using swap_lookup [OF l(2), of ip x] swap_lookup [OF l(2), of ip h] Some by simp_all
    show ?thesis using s touch_hit [OF l(2) x] Some
      by (simp add: memory_get_by_ip_def split_def Let_def laws l(1) mem_fwd_def mem_ok_def h)
  qed
qed

lemma memory_del_law:
  assumes H: "lru_laws H oh" and I: "lru_laws I oi" and s: "mem_ok oh oi s"
  shows "mem_ok oh oi (memory_del_by_ip H I s ip) \<and>
    mem_fwd oh (memory_del_by_ip H I s ip) = (\<lambda>h. if mem_fwd oh s h = Some ip then None else mem_fwd oh s h)"
proof -
  note laws = lru_lawsD [OF H] lru_lawsD [OF I]
  let ?l = "oh (by_host s)"
  have l: "oi (by_ip s) = map prod.swap ?l" "paired ?l" "length ?l \<le> mem_cap s" "0 < mem_cap s" using s by (simp_all add: mem_ok_def)
  show ?thesis
  proof (cases "map_of (map prod.swap ?l) ip")
    case None
    then have "map_of ?l h \<noteq> Some ip" for h using swap_lookup [OF l(2), of ip h] by simp
    moreover have "AList.delete ip (map prod.swap ?l) = map prod.swap ?l" using None by (simp add: map_of_eq_None_iff delete_idem)
    ultimately show ?thesis using l None
      by (simp add: memory_del_by_ip_def split_def Let_def laws mem_fwd_def mem_ok_def fun_eq_iff)
  next
    case (Some x)
    then have x: "map_of ?l x = Some ip" using swap_lookup [OF l(2)] by simp
    obtain l1 l2 where d: "?l = l1 @ (x, ip) # l2" "AList.delete x ?l = l1 @ l2" "AList.delete ip (map prod.swap ?l) = map prod.swap (l1 @ l2)"
      using paired_split [OF l(2) x] .
    have "map_of ?l h = Some ip \<longleftrightarrow> h = x" for h using swap_lookup [OF l(2), of ip h] Some by auto
    then have "map_of (l1 @ l2) = (\<lambda>h. if map_of ?l h = Some ip then None else map_of ?l h)"
      unfolding d(2) [symmetric] by (auto simp: delete_conv fun_eq_iff)
    moreover have "paired (l1 @ l2)" "length (l1 @ l2) \<le> mem_cap s" using l(2,3) unfolding d(1) by (auto simp: paired_def)
    moreover have "memory_del_by_ip H I s ip = s\<lparr>by_host := snd (lru_pop H (by_host s) x), by_ip := snd (lru_pop I (by_ip s) ip)\<rparr>"
      using Some x l(1) by (simp add: memory_del_by_ip_def split_def Let_def laws)
    moreover have "oh (snd (lru_pop H (by_host s) x)) = l1 @ l2" "oi (snd (lru_pop I (by_ip s) ip)) = map prod.swap (l1 @ l2)"
      using d(2,3) l(1) by (simp_all only: laws)
    ultimately show ?thesis using l(4) by (simp add: mem_fwd_def mem_ok_def del: map_of_append cong: if_cong)
  qed
qed

lemma memory_put_law:
  assumes H: "lru_laws H oh" and I: "lru_laws I oi" and s: "mem_ok oh oi s"
    and new: "mem_fwd oh s h = None" "\<nexists>h'. mem_fwd oh s h' = Some ip"
  shows "mem_ok oh oi (memory_put H I s h ip) \<and> mem_fwd oh (memory_put H I s h ip) h = Some ip \<and>
    mem_fwd oh (memory_put H I s h ip) \<subseteq>\<^sub>m (mem_fwd oh s)(h \<mapsto> ip)"
proof -
  note laws = lru_lawsD [OF H] lru_lawsD [OF I]
  let ?l = "oh (by_host s)" and ?s = "s\<lparr>by_host := lru_put H (by_host s) h ip, by_ip := lru_put I (by_ip s) ip h\<rparr>"
  have l: "oi (by_ip s) = map prod.swap ?l" "paired ?l" "length ?l \<le> mem_cap s" "0 < mem_cap s" using s by (simp_all add: mem_ok_def)
  have ip: "map_of (map prod.swap ?l) ip = None"
    using new(2) swap_lookup [OF l(2), of ip] by (cases "map_of (map prod.swap ?l) ip") (auto simp: mem_fwd_def)
  have fresh: "h \<notin> fst ` set ?l" "ip \<notin> snd ` set ?l"
    using new(1) ip by (simp_all add: mem_fwd_def map_of_eq_None_iff image_image)
  have put: "oh (by_host ?s) = (h, ip) # ?l" "oi (by_ip ?s) = map prod.swap ((h, ip) # ?l)" "paired ((h, ip) # ?l)"
    using fresh ip l by (simp_all add: laws delete_idem map_of_eq_None_iff paired_def)
  show ?thesis
  proof (cases "length ?l < mem_cap s")
    case True
    then have "memory_put H I s h ip = ?s" using put by (simp add: memory_put_def evict_by_ip_def evict_by_host_def laws)
    then show ?thesis using put True l by (simp add: mem_ok_def mem_fwd_def)
  next
    case False
    then have ne: "?l \<noteq> []" using l(4) by auto
    obtain h' ip' where la: "last ?l = (h', ip')" by fastforce
    then have split: "(h, ip) # ?l = ((h, ip) # butlast ?l) @ [(h', ip')]" using ne by (metis append_Cons append_butlast_last_id)
    have pb: "paired (((h, ip) # butlast ?l) @ [(h', ip')])" using put(3) unfolding split .
    then have del: "AList.delete h' ((h, ip) # ?l) = (h, ip) # butlast ?l"
      unfolding split by (auto simp: delete_filter paired_def filter_id_conv)
    have mo: "map_of ((h, ip) # ?l) h' = Some ip'" using put(3) split by (metis in_set_conv_decomp map_of_is_SomeI paired_def)
    have "fst (lru_pop_lru I (by_ip ?s)) = Some (ip', h')" unfolding laws(20) put(2) using ne la by (simp add: last_map)
    then obtain ips where pop: "lru_pop_lru I (by_ip ?s) = (Some (ip', h'), ips)" by (metis prod.collapse)
    have peek: "lru_peek H (by_host ?s) h' = Some ip'" unfolding laws(4) put(1) by (rule mo)
    let ?s' = "?s\<lparr>by_ip := ips, by_host := snd (lru_pop H (by_host ?s) h')\<rparr>"
    have "ips = snd (lru_pop_lru I (by_ip ?s))" by (simp only: pop snd_conv)
    then have "oi ips = map prod.swap ((h, ip) # butlast ?l)" using ne by (simp only: laws(21) put(2)) (simp add: map_butlast)
    moreover have "oh (snd (lru_pop H (by_host ?s) h')) = (h, ip) # butlast ?l" by (simp only: laws(7) put(1) del)
    ultimately have views: "oh (by_host ?s') = (h, ip) # butlast ?l" "oi (by_ip ?s') = map prod.swap ((h, ip) # butlast ?l)" by simp_all
    have "lru_len I (by_ip ?s) > mem_cap ?s" using False put(2) by (simp add: laws(23))
    then have "evict_by_ip H I ?s = ?s'" unfolding evict_by_ip_def pop using peek by simp
    then have "memory_put H I s h ip = ?s'"
      using views l(3) ne by (simp add: memory_put_def evict_by_host_def laws(11))
    moreover have "paired ((h, ip) # butlast ?l)" using pb by (auto simp: paired_def)
    moreover have "map_of (butlast ?l) \<subseteq>\<^sub>m map_of ?l" by (rule map_of_butlast)
    ultimately show ?thesis using views l(3,4) ne by (simp add: mem_ok_def mem_fwd_def map_le_upd)
  qed
qed

lemma memory_contract:
  assumes H: "lru_laws H oh" and I: "lru_laws I oi"
  shows "store_contract (memory_store H I) (mem_fwd oh) (mem_ok oh oi)"
proof
  fix s h ip off c
  assume s: "mem_ok oh oi s"
  show "fst (get_by_host (memory_store H I) s h) = mem_fwd oh s h \<and> mem_ok oh oi (snd (get_by_host (memory_store H I) s h)) \<and>
      mem_fwd oh (snd (get_by_host (memory_store H I) s h)) = mem_fwd oh s"
    using memory_get_laws(1) [OF H I s] by (simp add: memory_store_def)
  show "(fst (get_by_ip (memory_store H I) s ip) = Some h \<longleftrightarrow> mem_fwd oh s h = Some ip) \<and> mem_ok oh oi (snd (get_by_ip (memory_store H I) s ip)) \<and>
      mem_fwd oh (snd (get_by_ip (memory_store H I) s ip)) = mem_fwd oh s"
    using memory_get_laws(2) [OF H I s] by (simp add: memory_store_def)
  have "map_of (map prod.swap (oh (by_host s))) ip \<noteq> None \<longleftrightarrow> (\<exists>h. map_of (oh (by_host s)) h = Some ip)"
    using s by (simp add: mem_ok_def swap_lookup)
  then show "exists_ip (memory_store H I) s ip \<longleftrightarrow> (\<exists>h. mem_fwd oh s h = Some ip)"
    using s by (simp add: memory_store_def mem_ok_def mem_fwd_def lru_lawsD [OF I] del: not_None_eq)
  show "mem_ok oh oi (put_entry (memory_store H I) s h ip) \<and> mem_fwd oh (put_entry (memory_store H I) s h ip) h = Some ip \<and>
      mem_fwd oh (put_entry (memory_store H I) s h ip) \<subseteq>\<^sub>m (mem_fwd oh s)(h \<mapsto> ip)"
    if "mem_fwd oh s h = None" "\<nexists>h'. mem_fwd oh s h' = Some ip"
    using memory_put_law [OF H I s that] by (simp add: memory_store_def)
  show "mem_ok oh oi (del_by_ip (memory_store H I) s ip) \<and>
      mem_fwd oh (del_by_ip (memory_store H I) s ip) = (\<lambda>h. if mem_fwd oh s h = Some ip then None else mem_fwd oh s h)"
    using memory_del_law [OF H I s] by (simp add: memory_store_def)
  show "mem_ok oh oi (flush_store (memory_store H I) s) \<and> mem_fwd oh (flush_store (memory_store H I) s) = Map.empty"
    using s by (simp add: memory_store_def memory_flush_def mem_ok_def mem_fwd_def paired_def lru_lawsD [OF H] lru_lawsD [OF I])
  show "mem_ok oh oi (put_state (memory_store H I) s off c) \<and> mem_fwd oh (put_state (memory_store H I) s off c) = mem_fwd oh s"
    using s by (simp add: memory_store_def)
qed

lemma memory_new_ok:
  assumes "lru_laws H oh" "lru_laws I oi"
  shows "mem_ok oh oi (memory_new H I n)" "mem_fwd oh (memory_new H I n) = Map.empty"
  by (simp_all add: memory_new_def mem_ok_def mem_fwd_def paired_def lru_lawsD [OF assms(1)] lru_lawsD [OF assms(2)])

text \<open>An LRU cache as a list.\<close>

definition list_lru :: "('k, 'v, ('k \<times> 'v) list) lru_ops" where
  "list_lru =
     \<lparr>lru_new = [], lru_get = (\<lambda>c k. (map_of c k, touch k c)), lru_peek = map_of,
      lru_put = (\<lambda>c k v. (k, v) # AList.delete k c), lru_pop = (\<lambda>c k. (map_of c k, AList.delete k c)),
      lru_pop_lru = (\<lambda>c. (if c = [] then None else Some (last c), butlast c)), lru_contains = (\<lambda>c k. map_of c k \<noteq> None),
      lru_len = length, lru_clear = (\<lambda>_. [])\<rparr>"

lemma list_lru_laws: "lru_laws list_lru (\<lambda>c. c)"
  by (simp add: lru_laws_def list_lru_def)

subsection \<open>Address ranges\<close>

text \<open>
  What \<open>network\<close> and \<open>broadcast\<close> of \<open>ipnet\<close> promise: the first and the last of the \<open>2^k\<close> addresses that
  agree with the prefix in all but the last \<open>k\<close> bits.
\<close>

fun net_bits :: "ipnet \<Rightarrow> nat" where
  "net_bits (NetV4 _ p) = 32 - p"
| "net_bits (NetV6 _ p) = 128 - p"

fun net_width :: "ipnet \<Rightarrow> nat" where
  "net_width (NetV4 _ _) = 32"
| "net_width (NetV6 _ _) = 128"

fun ip_in :: "ipnet \<Rightarrow> nat \<Rightarrow> ipaddr" where
  "ip_in (NetV4 _ _) n = V4 (of_nat n)"
| "ip_in (NetV6 _ _) n = V6 (of_nat n)"

definition net_bounds :: "(ipnet \<Rightarrow> ipaddr) \<Rightarrow> (ipnet \<Rightarrow> ipaddr) \<Rightarrow> bool" where
  "net_bounds network broadcast \<longleftrightarrow>
     (\<forall>net. \<exists>n. network net = ip_in net n \<and> broadcast net = ip_in net (n + 2 ^ net_bits net - 1) \<and>
        n + 2 ^ net_bits net \<le> 2 ^ net_width net)"

lemma next_ip_in [simp]: "next_addr (ip_in net n) = ip_in net (Suc n)"
  by (cases net) (simp_all add: add.commute)

lemma is_v4_ip_in: "is_v4 (ip_in net a) = (case net of NetV4 _ _ \<Rightarrow> True | NetV6 _ _ \<Rightarrow> False)"
  by (cases net) simp_all

lemma anchor_ip_in:
  assumes "network net = ip_in net n" "broadcast net = ip_in net l"
  shows "anchor_addrs network broadcast net =
    (if addr_less (ip_in net (n + 4)) (ip_in net l) then Inr (ip_in net (n + 1), ip_in net (n + 4), ip_in net l)
     else Inl (PrefixTooSmall net))"
proof -
  have "Suc (Suc (Suc (Suc n))) = n + 4" by simp
  then show ?thesis by (simp only: anchor_addrs_def Let_def assms next_ip_in is_v4_ip_in) simp
qed

lemma addr_less_ip_in:
  "a < 2 ^ net_width net \<Longrightarrow> b < 2 ^ net_width net \<Longrightarrow> addr_less (ip_in net a) (ip_in net b) \<longleftrightarrow> a < b"
  by (cases net) (simp_all add: word_less_nat_alt unat_of_nat take_bit_nat_eq_self)

lemma addr_gap_ip_in:
  "a < 2 ^ net_width net \<Longrightarrow> b < 2 ^ net_width net \<Longrightarrow> addr_gap (ip_in net a) (ip_in net b) = b - a"
  by (cases net) (simp_all add: unat_of_nat take_bit_nat_eq_self)

lemma ip_in_wrap: "ip_in net (2 ^ net_width net) = ip_in net 0"
  by (cases net) simp_all

lemma pool_new_anchors:
  assumes "pool_new S network broadcast net st = Inr p"
  shows "anchor_addrs network broadcast net = Inr (pool_gateway p, pool_first p, pool_last p)" "pool_store p = st" "pool_net p = net"
  using assms by (auto simp: pool_new_def Let_def split: sum.splits prod.splits option.splits if_splits)

lemma pool_new_total:
  assumes "anchor_addrs network broadcast net = Inr (g, f, l)"
  shows "\<exists>p. pool_new S network broadcast net st = Inr p \<and> pool_gateway p = g \<and> pool_first p = f \<and> pool_last p = l"
  using assms by (auto simp: pool_new_def Let_def split: option.splits prod.splits)

lemma prefix_wide:
  assumes "network net = ip_in net n" "broadcast net = ip_in net (n + 2 ^ net_bits net - 1)"
    "n + 2 ^ net_bits net \<le> 2 ^ net_width net" "3 \<le> net_bits net"
  shows "anchor_addrs network broadcast net = Inr (ip_in net (n + 1), ip_in net (n + 4), ip_in net (n + 2 ^ net_bits net - 1))"
    "addr_gap (ip_in net (n + 4)) (ip_in net (n + 2 ^ net_bits net - 1)) = 2 ^ net_bits net - 5"
    "addr_less (ip_in net (n + 1)) (ip_in net (n + 4))"
proof -
  have "(2 ^ 3 :: nat) \<le> 2 ^ net_bits net" using assms(4) by (intro power_increasing) simp_all
  then have lt: "n + 4 < 2 ^ net_width net" "n + 2 ^ net_bits net - 1 < 2 ^ net_width net" "n + 4 < n + 2 ^ net_bits net - 1"
    "n + 1 < 2 ^ net_width net" "n + 2 ^ net_bits net - 1 - (n + 4) = 2 ^ net_bits net - 5" using assms(3) by simp_all
  show "anchor_addrs network broadcast net = Inr (ip_in net (n + 1), ip_in net (n + 4), ip_in net (n + 2 ^ net_bits net - 1))"
    using addr_less_ip_in [OF lt(1,2)] lt(3) by (simp only: anchor_ip_in [of network net n broadcast, OF assms(1,2)]) simp
  show "addr_gap (ip_in net (n + 4)) (ip_in net (n + 2 ^ net_bits net - 1)) = 2 ^ net_bits net - 5"
    using addr_gap_ip_in [OF lt(1,2)] lt(5) by simp
  show "addr_less (ip_in net (n + 1)) (ip_in net (n + 4))" using addr_less_ip_in [OF lt(4,1)] by simp
qed

lemma prefix_narrow:
  assumes "network net = ip_in net n" "broadcast net = ip_in net (n + 2 ^ net_bits net - 1)"
    "n + 2 ^ net_bits net \<le> 2 ^ net_width net" "net_bits net < 3" "n + 4 < 2 ^ net_width net"
  shows "anchor_addrs network broadcast net = Inl (PrefixTooSmall net)"
proof -
  have "(2 ^ net_bits net :: nat) \<le> 2 ^ 2" using assms(4) by (intro power_increasing) simp_all
  then have le: "n + 2 ^ net_bits net - 1 \<le> n + 4" by simp
  then have "n + 2 ^ net_bits net - 1 < 2 ^ net_width net" using assms(5) by linarith
  then have "\<not> addr_less (ip_in net (n + 4)) (ip_in net (n + 2 ^ net_bits net - 1))"
    using addr_less_ip_in [OF assms(5)] le by (metis not_less)
  then show ?thesis by (simp only: anchor_ip_in [of network net n broadcast, OF assms(1,2)]) simp
qed

lemma prefix_wraps:
  assumes "network net = ip_in net (2 ^ net_width net - 4)" "broadcast net = ip_in net (2 ^ net_width net - 1)"
  shows "anchor_addrs network broadcast net = Inr (ip_in net (2 ^ net_width net - 3), ip_in net 0, ip_in net (2 ^ net_width net - 1))"
proof -
  have w: "(8 :: nat) \<le> 2 ^ net_width net" by (cases net) simp_all
  then have s: "2 ^ net_width net - 4 + 1 = (2 ^ net_width net - 3 :: nat)" "2 ^ net_width net - 4 + 4 = (2 ^ net_width net :: nat)"
    by simp_all
  have "addr_less (ip_in net 0) (ip_in net (2 ^ net_width net - 1))" using w addr_less_ip_in [of 0 net "2 ^ net_width net - 1"] by simp
  then show ?thesis by (simp only: anchor_ip_in [of network net "2 ^ net_width net - 4" broadcast, OF assms] s ip_in_wrap) simp
qed

text \<open>The range of \<open>ipnet\<close>, computed.\<close>

fun ref_network :: "ipnet \<Rightarrow> ipaddr" where
  "ref_network (NetV4 a p) = ip_in (NetV4 a p) (2 ^ (32 - p) * (unat a div 2 ^ (32 - p)))"
| "ref_network (NetV6 a p) = ip_in (NetV6 a p) (2 ^ (128 - p) * (unat a div 2 ^ (128 - p)))"

fun ref_broadcast :: "ipnet \<Rightarrow> ipaddr" where
  "ref_broadcast (NetV4 a p) = ip_in (NetV4 a p) (2 ^ (32 - p) * (unat a div 2 ^ (32 - p)) + 2 ^ (32 - p) - 1)"
| "ref_broadcast (NetV6 a p) = ip_in (NetV6 a p) (2 ^ (128 - p) * (unat a div 2 ^ (128 - p)) + 2 ^ (128 - p) - 1)"

lemma aligned_fits:
  fixes a w k :: nat
  assumes "a < 2 ^ w" "k \<le> w"
  shows "2 ^ k * (a div 2 ^ k) + 2 ^ k \<le> 2 ^ w"
proof -
  have w: "(2 ^ w :: nat) = 2 ^ k * 2 ^ (w - k)" using assms(2) by (simp flip: power_add)
  have "a div 2 ^ k < 2 ^ (w - k)" using assms(1) by (simp add: less_mult_imp_div_less w mult.commute)
  then have "2 ^ k * (a div 2 ^ k + 1) \<le> 2 ^ k * 2 ^ (w - k)" by (intro mult_le_mono2) simp
  then show ?thesis by (simp add: w)
qed

lemma ref_bounds: "net_bounds ref_network ref_broadcast"
  unfolding net_bounds_def
proof
  fix net
  show "\<exists>n. ref_network net = ip_in net n \<and> ref_broadcast net = ip_in net (n + 2 ^ net_bits net - 1) \<and>
      n + 2 ^ net_bits net \<le> 2 ^ net_width net"
  proof (cases net)
    case (NetV4 a p)
    then show ?thesis using aligned_fits [of "unat a" 32 "32 - p"] unsigned_less [where w = a, where 'a = nat]
      by (intro exI [of _ "2 ^ (32 - p) * (unat a div 2 ^ (32 - p))"]) simp
  next
    case (NetV6 a p)
    then show ?thesis using aligned_fits [of "unat a" 128 "128 - p"] unsigned_less [where w = a, where 'a = nat]
      by (intro exI [of _ "2 ^ (128 - p) * (unat a div 2 ^ (128 - p))"]) simp
  qed
qed

subsection \<open>The filter of hosts\<close>

definition skipper_expand :: "string \<Rightarrow> string list" where
  "skipper_expand raw =
     (let pat = trim raw in
      if pat = [] then [] else (case skipper_patterns pat of (sp, bare) \<Rightarrow> sp # (case bare of Some b \<Rightarrow> [b] | None \<Rightarrow> [])))"

lemma insert_trie_of: "trie_insert (trie_of ps) d v = (trie_of (ps @ [(d, v)]), domain_entries d \<noteq> [])"
proof -
  have "trie_state (trie_of ps) = Building (tree_of ps build_default)" by (simp add: trie_of_state)
  then have "snd (trie_insert (trie_of ps) d v) \<longleftrightarrow> domain_entries d \<noteq> []" by (simp add: trie_insert_entries)
  moreover have "trie_of (ps @ [(d, v)]) = fst (trie_insert (trie_of ps) d v)" by (simp add: trie_of_def)
  ultimately show ?thesis by (simp add: prod_eq_iff)
qed

lemma skipper_step_trie:
  "skipper_step raw (trie_of ps, n) =
     (trie_of (ps @ map (\<lambda>d. (d, ())) (skipper_expand raw)), if list_ex (\<lambda>d. domain_entries d \<noteq> []) (skipper_expand raw) then n + 1 else n)"
  by (auto simp: skipper_step_def skipper_expand_def insert_trie_of Let_def split: option.split prod.split)

lemma skipper_fold:
  "\<exists>k. fold skipper_step pats (trie_of ps, n) = (trie_of (ps @ map (\<lambda>d. (d, ())) (concat (map skipper_expand pats))), n + k) \<and>
     (k = 0 \<longleftrightarrow> \<not> list_ex (\<lambda>d. domain_entries d \<noteq> []) (concat (map skipper_expand pats)))"
proof (induction pats arbitrary: ps n)
  case (Cons r pats)
  let ?u = "list_ex (\<lambda>d. domain_entries d \<noteq> []) (skipper_expand r)"
  obtain k where k: "fold skipper_step pats (trie_of (ps @ map (\<lambda>d. (d, ())) (skipper_expand r)), if ?u then n + 1 else n) =
      (trie_of ((ps @ map (\<lambda>d. (d, ())) (skipper_expand r)) @ map (\<lambda>d. (d, ())) (concat (map skipper_expand pats))), (if ?u then n + 1 else n) + k)"
    "k = 0 \<longleftrightarrow> \<not> list_ex (\<lambda>d. domain_entries d \<noteq> []) (concat (map skipper_expand pats))"
    using Cons.IH by blast
  show ?case by (rule exI [of _ "(if ?u then 1 else 0) + k"]) (use k in \<open>simp add: skipper_step_trie\<close>)
qed simp

subsection \<open>Restarts\<close>

definition restart :: "file_inner \<Rightarrow> file_inner" where
  "restart s = from_snapshot (serialise (fs_state s))"

lemma restart_state: "fs_state (restart s) = fs_state s"
  by (simp add: restart_def from_snapshot_def serialise_def)

lemma restart_ok:
  assumes "file_ok s"
  shows "file_ok (restart s)"
  unfolding restart_def
  by (rule from_snapshot_ok) (use assms file_ok_addresses [OF assms] in \<open>simp_all add: serialise_def file_ok_def\<close>)

lemma lookup_saves:
  assumes "file_fwd (pool_store p) (to_ascii_lowercase host) = None" "pool_lookup file_store p host = (ip, p1)"
  shows "get_state file_store (restart (pool_store p1)) = Some (pool_offset p1, pool_cycle p1)"
proof -
  have "pool_lookup file_store p host = allocate file_store p (to_ascii_lowercase host)"
    using assms(1) by (simp add: pool_lookup_def file_store_def file_fwd_def)
  then have "p1 = snd (allocate file_store p (to_ascii_lowercase host))" using assms(2) by (metis snd_conv)
  then have "file_get_state (pool_store p1) = Some (pool_offset p1, pool_cycle p1)"
    by (simp add: allocate_def Let_def save_state_def file_store_def file_put_state_def file_get_state_def)
  then show ?thesis by (simp add: file_store_def file_get_state_def restart_state)
qed

lemma restart_pool:
  assumes p0: "pool_new file_store network broadcast net st = Inr p0" and p1: "fstore.pool_inv p1"
    and same: "pool_gateway p1 = pool_gateway p0" "pool_first p1 = pool_first p0" "pool_last p1 = pool_last p0"
    and saved: "get_state file_store (restart (pool_store p1)) = Some (pool_offset p1, pool_cycle p1)"
    and rng: "contained_in_range (pool_offset p1) (pool_first p1) (pool_last p1)"
  shows "\<exists>p2. pool_new file_store network broadcast net (restart (pool_store p1)) = Inr p2 \<and> fstore.pool_inv p2 \<and>
    file_fwd (pool_store p2) = file_fwd (pool_store p1) \<and> pool_offset p2 = pool_offset p1 \<and> pool_cycle p2 = pool_cycle p1 \<and>
    pool_gateway p2 = pool_gateway p1 \<and> pool_first p2 = pool_first p1 \<and> pool_last p2 = pool_last p1"
proof -
  define p2 where "p2 = \<lparr>pool_net = net, pool_gateway = pool_gateway p1, pool_first = pool_first p1, pool_last = pool_last p1,
    pool_offset = pool_offset p1, pool_cycle = pool_cycle p1, pool_store = restart (pool_store p1)\<rparr>"
  have new: "pool_new file_store network broadcast net (restart (pool_store p1)) = Inr p2"
    using pool_new_anchors(1) [OF p0] same saved rng by (simp add: pool_new_def p2_def)
  have ok: "file_ok (pool_store p1)" using p1 by (simp add: fstore.pool_inv_def)
  have fwd: "file_fwd (restart (pool_store p1)) = file_fwd (pool_store p1)" by (simp add: file_fwd_def restart_state)
  have "fstore.pool_inv p2"
    using p1 restart_ok [OF ok] fwd by (simp add: fstore.pool_inv_def p2_def)
  then show ?thesis using new fwd by (auto simp: p2_def)
qed

lemma fresh_file_pool:
  assumes "pool_new file_store network broadcast net (from_snapshot snapshot_default) = Inr p0"
  shows "fstore.fresh_pool p0"
proof -
  have st: "pool_store p0 = from_snapshot snapshot_default" by (rule pool_new_anchors [OF assms])
  have ok: "file_ok (from_snapshot snapshot_default)" by (rule from_snapshot_ok) (simp_all add: snapshot_default_def)
  have emp: "file_fwd (from_snapshot snapshot_default) = Map.empty" by (simp add: file_fwd_def from_snapshot_def snapshot_default_def)
  have "get_state file_store (from_snapshot snapshot_default) = None"
    by (simp add: file_store_def file_get_state_def from_snapshot_def snapshot_default_def)
  then have "pool_offset p0 = prev_addr (pool_first p0)" "\<not> pool_cycle p0"
    using assms by (auto simp: pool_new_def Let_def split: sum.splits prod.splits)
  moreover have "fstore.pool_inv p0" using fstore.pool_new_inv [OF assms ok] emp by simp
  ultimately show ?thesis using st emp by (simp add: fstore.fresh_pool_def)
qed

lemma option_eqI: "(\<And>y. x = Some y \<longleftrightarrow> z = Some y) \<Longrightarrow> x = z"
  by (metis not_None_eq)

subsection \<open>Properties\<close>



text \<open>
  C23: the order in which a fresh pool over the file store hands out addresses. A prefix of \<open>2^k\<close>
  addresses has room for \<open>2^k - 5\<close> hosts: so many different hosts get the addresses from the fifth on,
  one after the other; the next host gets the first of them again, which its old host loses, and all
  the other hosts keep theirs.
\<close>

theorem file_pool_order:
  assumes "net_bounds network broadcast" "3 \<le> net_bits net" "distinct (map to_ascii_lowercase (h0 # hs @ [h]))"
    "length (h0 # hs) = 2 ^ net_bits net - 5"
  shows "\<exists>p0. pool_new file_store network broadcast net (from_snapshot snapshot_default) = Inr p0 \<and>
    (case lookup_all file_store (h0 # hs) p0 of (ips, p1) \<Rightarrow>
       ips = map (addr_at (pool_first p0)) [0..<2 ^ net_bits net - 5] \<and>
       file_fwd (pool_store p1) = map_of (zip (map to_ascii_lowercase (h0 # hs)) ips) \<and>
       (case pool_lookup file_store p1 h of (ip, p2) \<Rightarrow>
          ip = pool_first p0 \<and> file_fwd (pool_store p2) = (map_of (zip (map to_ascii_lowercase hs) (tl ips)))(to_ascii_lowercase h \<mapsto> ip)))"
proof -
  obtain n where n: "network net = ip_in net n" "broadcast net = ip_in net (n + 2 ^ net_bits net - 1)" "n + 2 ^ net_bits net \<le> 2 ^ net_width net"
    using assms(1) unfolding net_bounds_def by blast
  note w = prefix_wide [of network net n broadcast, OF n assms(2)]
  obtain p0 where p0: "pool_new file_store network broadcast net (from_snapshot snapshot_default) = Inr p0"
      "pool_first p0 = ip_in net (n + 4)" "pool_last p0 = ip_in net (n + 2 ^ net_bits net - 1)"
    using pool_new_total [OF w(1), of file_store "from_snapshot snapshot_default"] by (elim exE conjE)
  have gap: "addr_gap (pool_first p0) (pool_last p0) = 2 ^ net_bits net - 5" using w(2) by (simp only: p0)
  have fresh: "fstore.fresh_pool p0" by (rule fresh_file_pool [OF p0(1)])
  obtain ips p1 where l: "lookup_all file_store (h0 # hs) p0 = (ips, p1)" by fastforce
  obtain ip p2 where a: "pool_lookup file_store p1 h = (ip, p2)" by fastforce
  have "ips = map (addr_at (pool_first p0)) [0..<2 ^ net_bits net - 5] \<and>
      file_fwd (pool_store p1) = map_of (zip (map to_ascii_lowercase (h0 # hs)) ips)"
    using fstore.fill_pool [OF fresh, of "h0 # hs", unfolded l gap assms(4)] assms(3) by auto
  moreover have "ip = pool_first p0 \<and> file_fwd (pool_store p2) = (map_of (zip (map to_ascii_lowercase hs) (tl ips)))(to_ascii_lowercase h \<mapsto> ip)"
    using fstore.wrap_pool [OF fresh assms(3) _ l a] assms(4) by (simp add: gap)
  ultimately show ?thesis using p0(1) by (simp add: l a)
qed

theorem file_pool_order_witness:
  "\<exists>p0. pool_new file_store ref_network ref_broadcast (NetV4 0xC6120000 29) (from_snapshot snapshot_default) = Inr p0 \<and>
    fst (pool_lookup file_store (snd (lookup_all file_store [''a'', ''b'', ''c''] p0)) ''d'') = pool_first p0"
proof -
  have d: "distinct (map to_ascii_lowercase (''a'' # [''b'', ''c''] @ [''d'']))" by code_simp
  show ?thesis using file_pool_order [OF ref_bounds, of "NetV4 0xC6120000 29" "''a''" "[''b'', ''c'']" "''d''"] d
    by (auto simp: split_def)
qed

text \<open>
  C24: a pool over the file store survives a restart. After any run, once a lookup has handed out a new
  address, a pool made from what the store writes to its file gives the same answer to every lookup
  and to every reverse lookup as the pool that wrote it. The store started from a snapshot without
  double hosts or addresses and with addresses of the range only.
\<close>

theorem file_pool_restart:
  assumes "pool_new file_store network broadcast net (from_snapshot sn) = Inr p0"
    "distinct (map fst (sn_entries sn))" "distinct (map snd (sn_entries sn))"
    "list_all (\<lambda>e. contained_in_range (snd e) (pool_first p0) (pool_last p0)) (sn_entries sn)"
    "(pool_step file_store)\<^sup>*\<^sup>* p0 p" "fst (get_by_host file_store (pool_store p) (to_ascii_lowercase host)) = None"
    "pool_lookup file_store p host = (ip, p1)"
  shows "\<exists>p2. pool_new file_store network broadcast net (from_snapshot (serialise (fs_state (pool_store p1)))) = Inr p2 \<and>
    (\<forall>h. fst (pool_lookup file_store p2 h) = fst (pool_lookup file_store p1 h)) \<and>
    (\<forall>a. fst (look_back file_store p2 a) = fst (look_back file_store p1 a))"
proof -
  have st: "pool_store p0 = from_snapshot sn" by (rule pool_new_anchors [OF assms(1)])
  have "contained_in_range a (pool_first p0) (pool_last p0)" if "file_fwd (from_snapshot sn) h = Some a" for h a
    using that assms(4) by (fastforce simp: file_fwd_def from_snapshot_def list_all_iff dest: map_of_SomeD)
  then have "fstore.pool_inv p0" by (rule fstore.pool_new_inv [OF assms(1) from_snapshot_ok [OF assms(2,3)]])
  from fstore.steps_law [OF assms(5) this]
  have p: "fstore.pool_inv p" "pool_gateway p = pool_gateway p0" "pool_first p = pool_first p0" "pool_last p = pool_last p0" by simp_all
  have new: "file_fwd (pool_store p) (to_ascii_lowercase host) = None" using assms(6) by (simp add: file_store_def file_fwd_def)
  note l = fstore.lookup_law [OF p(1) assms(7)]
  have "contained_in_range (pool_offset p1) (pool_first p1) (pool_last p1)"
    using l(1,2) fstore.lookup_exact(2) [OF p(1) new assms(7)] by (simp add: fstore.pool_inv_def)
  from restart_pool [OF assms(1) l(1) _ _ _ lookup_saves [OF new assms(7)] this] l p
  obtain p2 where p2: "pool_new file_store network broadcast net (restart (pool_store p1)) = Inr p2" "fstore.pool_inv p2"
      "file_fwd (pool_store p2) = file_fwd (pool_store p1)" "pool_offset p2 = pool_offset p1"
      "pool_gateway p2 = pool_gateway p1" "pool_first p2 = pool_first p1" "pool_last p2 = pool_last p1" by auto
  have "fst (pool_lookup file_store p2 h) = fst (pool_lookup file_store p1 h)" for h
    by (simp only: fstore.lookup_result [OF p2(2)] fstore.lookup_result [OF l(1)] p2)
  moreover have "fst (look_back file_store p2 a) = fst (look_back file_store p1 a)" for a
    by (rule option_eqI) (simp only: fstore.back_result [OF p2(2)] fstore.back_result [OF l(1)] p2)
  ultimately show ?thesis using p2(1) unfolding restart_def by blast
qed

theorem file_pool_restart_witness:
  "\<exists>p0 p1 p2. pool_new file_store ref_network ref_broadcast (NetV4 0xC6120000 29) (from_snapshot snapshot_default) = Inr p0 \<and>
    p1 = snd (pool_lookup file_store p0 ''a.b'') \<and>
    pool_new file_store ref_network ref_broadcast (NetV4 0xC6120000 29) (from_snapshot (serialise (fs_state (pool_store p1)))) = Inr p2 \<and>
    fst (pool_lookup file_store p2 ''c.d'') = fst (pool_lookup file_store p1 ''c.d'')"
proof -
  let ?net = "NetV4 0xC6120000 29"
  obtain n where n: "ref_network ?net = ip_in ?net n" "ref_broadcast ?net = ip_in ?net (n + 2 ^ net_bits ?net - 1)"
      "n + 2 ^ net_bits ?net \<le> 2 ^ net_width ?net"
    using ref_bounds unfolding net_bounds_def by blast
  obtain p0 where p0: "pool_new file_store ref_network ref_broadcast ?net (from_snapshot snapshot_default) = Inr p0"
    using pool_new_total [OF prefix_wide(1) [of ref_network ?net n ref_broadcast, OF n], of file_store "from_snapshot snapshot_default"] by auto
  have "fst (get_by_host file_store (pool_store p0) (to_ascii_lowercase ''a.b'')) = None"
    by (simp add: pool_new_anchors(2) [OF p0] file_store_def from_snapshot_def snapshot_default_def)
  from file_pool_restart [OF p0 _ _ _ rtranclp.rtrancl_refl this prod.collapse [symmetric]]
  show ?thesis using p0 by (auto simp: snapshot_default_def)
qed




end
