(* ===== verification/Sniffers.thy ===== *)
theory Sniffers
  imports Bytes
begin

text \<open>
  The host names read off the first bytes of a connection, \<open>meow-common/src/sniffer\<close>: the server name of
  a TLS greeting and the \<open>Host\<close> header of an HTTP request. Positions are kept as the code keeps them; an
  index out of bounds is a panic and a result of its own. The HTTP parser is a third-party crate and
  an argument that gives the headers read.
\<close>

subsection \<open>TLS\<close>

datatype sniffed = SniffPanic | SniffNone | SniffHost string

definition get_range :: "byte list \<Rightarrow> nat \<Rightarrow> nat \<Rightarrow> byte list option" where
  "get_range bs a b = (if a \<le> b \<and> b \<le> length bs then Some (take (b - a) (drop a bs)) else None)"

definition get_byte :: "byte list \<Rightarrow> nat \<Rightarrow> byte option" where
  "get_byte bs i = (if i < length bs then Some (bs ! i) else None)"

definition be16 :: "byte list \<Rightarrow> nat \<Rightarrow> nat" where
  "be16 bs i = be_val [bs ! i, bs ! (i + 1)]"

definition lower_if_needed :: "string \<Rightarrow> string" where
  "lower_if_needed s = (if list_ex upper_char s then to_ascii_lowercase s else s)"

function sni_loop :: "byte list \<Rightarrow> nat \<Rightarrow> sniffed" where
  "sni_loop names pos =
     (if pos + 3 \<le> length names then
        (let name_type = names ! pos; name_len = be16 names (pos + 1); pos = pos + 3 in
         if name_type = 0 then
           (case get_range names pos (pos + name_len) of
              None \<Rightarrow> SniffNone
            | Some name_bytes \<Rightarrow>
                if utf8_ok name_bytes then SniffHost (lower_if_needed (str_of name_bytes)) else SniffNone)
         else sni_loop names (pos + name_len))
      else SniffNone)"
  by pat_completeness auto
termination by (relation "measure (\<lambda>(names, pos). length names - pos)") auto

declare sni_loop.simps [simp del]

definition parse_sni_extension :: "byte list \<Rightarrow> sniffed" where
  "parse_sni_extension data =
     (if length data < 2 then SniffNone
      else (case get_range data 2 (2 + be16 data 0) of
              None \<Rightarrow> SniffNone
            | Some names \<Rightarrow> sni_loop names 0))"

function ext_loop :: "byte list \<Rightarrow> nat \<Rightarrow> nat \<Rightarrow> sniffed" where
  "ext_loop hello ext_end pos =
     (if pos + 4 \<le> ext_end \<and> pos + 4 \<le> length hello then
        (let ext_type = be16 hello pos; ext_data_len = be16 hello (pos + 2); pos = pos + 4 in
         if ext_type = 0 then
           (case get_range hello pos (pos + ext_data_len) of
              None \<Rightarrow> SniffNone
            | Some data \<Rightarrow> parse_sni_extension data)
         else ext_loop hello ext_end (pos + ext_data_len))
      else SniffNone)"
  by pat_completeness auto
termination by (relation "measure (\<lambda>(hello, _, pos). length hello - pos)") auto

declare ext_loop.simps [simp del]

definition sniff_hello :: "byte list \<Rightarrow> sniffed" where
  "sniff_hello hello =
     (if length hello < 34 then SniffNone
      else (case get_byte hello 34 of
        None \<Rightarrow> SniffNone
      | Some session_id_len \<Rightarrow>
          (let pos = 34 + 1 + unat session_id_len in
           case (get_byte hello pos, get_byte hello (pos + 1)) of
             (Some a, Some b) \<Rightarrow>
               (let pos = pos + 2 + be_val [a, b] in
                case get_byte hello pos of
                  None \<Rightarrow> SniffNone
                | Some comp_len \<Rightarrow>
                    (let pos = pos + 1 + unat comp_len in
                     if pos + 2 > length hello then SniffNone
                     else ext_loop hello (pos + 2 + be16 hello pos) (pos + 2)))
           | _ \<Rightarrow> SniffNone)))"

definition sniff_tls :: "byte list \<Rightarrow> sniffed" where
  "sniff_tls buf =
     (if length buf < 5 then SniffNone
      else if buf ! 0 \<noteq> 0x16 then SniffNone
      else (case get_range buf 5 (5 + be16 buf 3) of
        None \<Rightarrow> SniffNone
      | Some record \<Rightarrow>
          if record = [] \<or> record ! 0 \<noteq> 0x01 then SniffNone
          else if length record < 4 then SniffPanic
          else (let handshake_len = be_val [record ! 1, record ! 2, record ! 3] in
                case get_range record 4 (4 + handshake_len) of
                  None \<Rightarrow> SniffNone
                | Some hello \<Rightarrow> sniff_hello hello)))"

subsection \<open>HTTP\<close>

text \<open>
  \<open>parse buf\<close> stands for the headers \<open>httparse\<close> has read from the bytes, complete or not, with \<open>None\<close> for
  its error.
\<close>

definition strip_port :: "string \<Rightarrow> string option" where
  "strip_port s =
     (case strip_prefix ''['' s of
        Some rest \<Rightarrow> if CHR '']'' \<in> set rest then Some (takeWhile (\<lambda>c. c \<noteq> CHR '']'') rest) else None
      | None \<Rightarrow> Some (takeWhile (\<lambda>c. c \<noteq> CHR '':'') s))"

definition host_value :: "byte list \<Rightarrow> string option" where
  "host_value v =
     (if \<not> utf8_ok v then None
      else (case strip_port (trim (str_of v)) of
              None \<Rightarrow> None
            | Some host \<Rightarrow> if host = [] then None else Some (lower_if_needed host)))"

fun host_header :: "(string \<times> byte list) list \<Rightarrow> string option" where
  "host_header [] = None"
| "host_header ((name, v) # hs) = (if eq_ignore_ascii_case name ''host'' then host_value v else host_header hs)"

definition sniff_http :: "(byte list \<Rightarrow> (string \<times> byte list) list option) \<Rightarrow> byte list \<Rightarrow> string option" where
  "sniff_http parse buf = (case parse buf of None \<Rightarrow> None | Some hs \<Rightarrow> host_header hs)"

subsection \<open>Greetings\<close>

lemma lower_if_needed_eq: "lower_if_needed s = to_ascii_lowercase s"
  by (simp add: lower_if_needed_def is_lower_fixed is_lower_def)

lemma be_bytes_2: "be_bytes 2 v = [of_nat (v div 256 mod 256), of_nat (v mod 256)]"
  by (simp add: numeral_2_eq_2)

lemma be16_at: "i = length pre \<Longrightarrow> v < 65536 \<Longrightarrow> be16 (pre @ be_bytes 2 v @ post) i = v"
  using be_val_bytes [of 2 v] by (simp add: be16_def nth_append be_bytes_2)

lemma get_range_at: "i = length pre \<Longrightarrow> j = i + length d \<Longrightarrow> get_range (pre @ d @ post) i j = Some d"
  by (simp add: get_range_def)

lemma get_byte_at: "i = length pre \<Longrightarrow> get_byte (pre @ b # post) i = Some b"
  by (simp add: get_byte_def)

definition enc_ext :: "nat \<times> byte list \<Rightarrow> byte list" where
  "enc_ext e = be_bytes 2 (fst e) @ be_bytes 2 (length (snd e)) @ snd e"

definition enc_name :: "byte \<times> byte list \<Rightarrow> byte list" where
  "enc_name e = fst e # be_bytes 2 (length (snd e)) @ snd e"

lemma length_enc [simp]: "length (enc_ext e) = 4 + length (snd e)" "length (enc_name f) = 3 + length (snd f)"
  by (simp_all add: enc_ext_def enc_name_def)

lemma ext_loop_step:
  assumes "t < 65536" "length d < 65536" "length pre + 4 \<le> e"
  shows "ext_loop (pre @ enc_ext (t, d) @ post) e (length pre) =
    (if t = 0 then parse_sni_extension d else ext_loop (pre @ enc_ext (t, d) @ post) e (length pre + length (enc_ext (t, d))))"
proof -
  define h where "h = pre @ enc_ext (t, d) @ post"
  have ty: "be16 h (length pre) = t" using be16_at [of "length pre" pre t] assms(1) by (simp add: enc_ext_def h_def)
  have len: "be16 h (length pre + 2) = length d"
    using be16_at [of "length pre + 2" "pre @ be_bytes 2 t" "length d"] assms(2) by (simp add: enc_ext_def h_def)
  have rng: "get_range h (length pre + 4) (length pre + 4 + length d) = Some d"
    using get_range_at [of "length pre + 4" "pre @ be_bytes 2 t @ be_bytes 2 (length d)" _ d] by (simp add: enc_ext_def h_def)
  have "length pre + 4 \<le> length h" by (simp add: h_def)
  then have "ext_loop h e (length pre) = (if t = 0 then parse_sni_extension d else ext_loop h e (length pre + 4 + length d))"
    using assms(3) by (subst ext_loop.simps) (simp only: Let_def ty len rng option.case simp_thms if_True)
  then show ?thesis by (simp add: h_def add.assoc)
qed

lemma ext_loop_finds:
  assumes "list_all (\<lambda>(t, d). 0 < t \<and> t < 65536 \<and> length d < 65536) exts" "length d < 65536"
    "length pre + length (concat (map enc_ext exts)) + 4 \<le> e"
  shows "ext_loop (pre @ concat (map enc_ext exts) @ enc_ext (0, d) @ post) e (length pre) = parse_sni_extension d"
  using assms
proof (induction exts arbitrary: pre)
  case Nil
  then show ?case using ext_loop_step [of 0 d pre e post] by simp
next
  case (Cons x exts)
  obtain t d' where x: "x = (t, d')" by fastforce
  show ?case
    using Cons.IH [of "pre @ enc_ext x"] Cons.prems
      ext_loop_step [of t d' pre e "concat (map enc_ext exts) @ enc_ext (0, d) @ post"]
    by (simp add: x)
qed

lemma sni_loop_step:
  assumes "length d < 65536"
  shows "sni_loop (pre @ enc_name (t, d) @ post) (length pre) =
    (if t = 0 then if utf8_ok d then SniffHost (to_ascii_lowercase (str_of d)) else SniffNone
     else sni_loop (pre @ enc_name (t, d) @ post) (length pre + length (enc_name (t, d))))"
proof -
  define h where "h = pre @ enc_name (t, d) @ post"
  have len: "be16 h (length pre + 1) = length d"
    using be16_at [of "length pre + 1" "pre @ [t]" "length d"] assms by (simp add: enc_name_def h_def)
  have rng: "get_range h (length pre + 3) (length pre + 3 + length d) = Some d"
    using get_range_at [of "length pre + 3" "pre @ t # be_bytes 2 (length d)" _ d] by (simp add: enc_name_def h_def)
  have h: "length pre + 3 \<le> length h" "h ! length pre = t" by (simp_all add: enc_name_def nth_append h_def)
  have "sni_loop h (length pre) =
      (if t = 0 then if utf8_ok d then SniffHost (to_ascii_lowercase (str_of d)) else SniffNone else sni_loop h (length pre + 3 + length d))"
    using h(1) by (subst sni_loop.simps) (simp only: Let_def h(2) len rng option.case if_True lower_if_needed_eq)
  then show ?thesis by (simp add: h_def add.assoc)
qed

lemma sni_loop_finds:
  assumes "list_all (\<lambda>(t, d). t \<noteq> 0 \<and> length d < 65536) names" "length d < 65536" "utf8_ok d"
  shows "sni_loop (pre @ concat (map enc_name names) @ enc_name (0, d) @ post) (length pre) = SniffHost (to_ascii_lowercase (str_of d))"
  using assms
proof (induction names arbitrary: pre)
  case Nil
  then show ?case using sni_loop_step [of d pre 0 post] by simp
next
  case (Cons x names)
  obtain t d' where x: "x = (t, d')" by fastforce
  show ?case
    using Cons.IH [of "pre @ enc_name x"] Cons.prems
      sni_loop_step [of d' pre t "concat (map enc_name names) @ enc_name (0, d) @ post"]
    by (simp add: x)
qed

lemma unat_byte: "n < 256 \<Longrightarrow> unat (of_nat n :: byte) = n"
  by (simp add: unat_of_nat take_bit_nat_eq_self)

lemma sniff_hello_extensions:
  assumes "length vr = 34" "length sid < 256" "length cs < 65536" "length cm < 256" "length exts < 65536"
    and h: "h = vr @ of_nat (length sid) # sid @ be_bytes 2 (length cs) @ cs @ of_nat (length cm) # cm @ be_bytes 2 (length exts) @ exts"
  shows "sniff_hello h = ext_loop h (40 + length sid + length cs + length cm + length exts) (40 + length sid + length cs + length cm)"
proof -
  obtain x y where xy: "be_bytes 2 (length cs) = [x, y]" "be_val [x, y] = length cs"
    using be_bytes_2 [of "length cs"] be_val_bytes [of 2 "length cs"] assms(3) by simp
  have a: "get_byte h 34 = Some (of_nat (length sid))" using assms(1) unfolding h by (intro get_byte_at) simp
  have b: "get_byte h (35 + length sid) = Some x"
    using get_byte_at [of "35 + length sid" "vr @ of_nat (length sid) # sid" x] assms(1) by (simp add: h xy)
  have c: "get_byte h (35 + length sid + 1) = Some y"
    using get_byte_at [of "35 + length sid + 1" "vr @ of_nat (length sid) # sid @ [x]" y] assms(1) by (simp add: h xy)
  have d: "get_byte h (37 + length sid + length cs) = Some (of_nat (length cm))"
    using get_byte_at [of "37 + length sid + length cs" "vr @ of_nat (length sid) # sid @ be_bytes 2 (length cs) @ cs" "of_nat (length cm)"] assms(1)
    by (simp add: h)
  have e: "be16 h (38 + length sid + length cs + length cm) = length exts"
    using be16_at [of "38 + length sid + length cs + length cm"
        "vr @ of_nat (length sid) # sid @ be_bytes 2 (length cs) @ cs @ of_nat (length cm) # cm" "length exts" exts] assms(1,5)
    by (simp add: h)
  have len: "length h = 40 + length sid + length cs + length cm + length exts" using assms(1) by (simp add: h)
  have s1: "34 + 1 + length sid = 35 + length sid" "35 + length sid + 2 + length cs = 37 + length sid + length cs"
    "37 + length sid + length cs + 1 + length cm = 38 + length sid + length cs + length cm"
    "38 + length sid + length cs + length cm + 2 = 40 + length sid + length cs + length cm" by simp_all
  have "sniff_hello h = ext_loop h (38 + length sid + length cs + length cm + 2 + length exts) (38 + length sid + length cs + length cm + 2)"
    using len unfolding sniff_hello_def a option.case Let_def unat_byte [OF assms(2)] s1(1) b c prod.case xy(2) s1(2) d unat_byte [OF assms(4)] s1(3) e
    by simp
  then show ?thesis by (simp only: s1(4))
qed

text \<open>A greeting with its parts in the order of the protocol.\<close>

record client_hello =
  ch_head :: "byte list"
  ch_session :: "byte list"
  ch_ciphers :: "byte list"
  ch_compression :: "byte list"
  ch_before :: "(nat \<times> byte list) list"
  ch_names :: "(byte \<times> byte list) list"
  ch_host :: string
  ch_more_names :: "byte list"
  ch_after :: "byte list"

definition enc_names :: "client_hello \<Rightarrow> byte list" where
  "enc_names ch = concat (map enc_name (ch_names ch)) @ enc_name (0, bytes_of (ch_host ch)) @ ch_more_names ch"

definition enc_sni :: "client_hello \<Rightarrow> byte list" where
  "enc_sni ch = be_bytes 2 (length (enc_names ch)) @ enc_names ch"

definition enc_exts :: "client_hello \<Rightarrow> byte list" where
  "enc_exts ch = concat (map enc_ext (ch_before ch)) @ enc_ext (0, enc_sni ch) @ ch_after ch"

definition enc_hello :: "client_hello \<Rightarrow> byte list" where
  "enc_hello ch =
     ch_head ch @ of_nat (length (ch_session ch)) # ch_session ch @
     be_bytes 2 (length (ch_ciphers ch)) @ ch_ciphers ch @
     of_nat (length (ch_compression ch)) # ch_compression ch @ be_bytes 2 (length (enc_exts ch)) @ enc_exts ch"

definition enc_record :: "byte list \<Rightarrow> byte list" where
  "enc_record hello = [0x16, 3, 1] @ be_bytes 2 (4 + length hello) @ 1 # be_bytes 3 (length hello) @ hello"

definition hello_ok :: "client_hello \<Rightarrow> bool" where
  "hello_ok ch \<longleftrightarrow>
     length (ch_head ch) = 34 \<and> length (ch_session ch) < 256 \<and> length (ch_ciphers ch) < 65536 \<and> length (ch_compression ch) < 256 \<and>
     list_all (\<lambda>(t, _). 0 < t \<and> t < 65536) (ch_before ch) \<and> list_all (\<lambda>(t, _). t \<noteq> 0) (ch_names ch) \<and>
     utf8_ok (bytes_of (ch_host ch)) \<and> length (enc_hello ch) + 4 < 65536"

lemma concat_part: "x \<in> set xs \<Longrightarrow> length (f x) \<le> length (concat (map f xs))"
  by (induction xs) auto

lemma parse_sni_enc:
  assumes "hello_ok ch"
  shows "parse_sni_extension (enc_sni ch) = SniffHost (to_ascii_lowercase (ch_host ch))"
proof -
  have big: "length (enc_names ch) + 2 \<le> length (enc_hello ch)" by (simp add: enc_hello_def enc_exts_def enc_sni_def)
  then have n: "length (enc_names ch) < 65536" using assms by (simp add: hello_ok_def)
  have rng: "get_range (enc_sni ch) 2 (2 + length (enc_names ch)) = Some (enc_names ch)"
    using get_range_at [of 2 "be_bytes 2 (length (enc_names ch))" _ "enc_names ch" "[]"] by (simp add: enc_sni_def)
  have len: "be16 (enc_sni ch) 0 = length (enc_names ch)"
    using be16_at [of 0 "[]" "length (enc_names ch)" "enc_names ch"] n by (simp add: enc_sni_def)
  have "list_all (\<lambda>(t, d). t \<noteq> 0 \<and> length d < 65536) (ch_names ch)"
    using assms n concat_part [of _ "ch_names ch" enc_name] by (fastforce simp: hello_ok_def list_all_iff enc_names_def)
  then have "sni_loop (enc_names ch) 0 = SniffHost (to_ascii_lowercase (ch_host ch))"
    using sni_loop_finds [of "ch_names ch" "bytes_of (ch_host ch)" "[]" "ch_more_names ch"] assms n
    by (simp add: enc_names_def hello_ok_def)
  then show ?thesis using rng len by (simp add: parse_sni_extension_def) (simp add: enc_sni_def)
qed

lemma sniff_hello_enc:
  assumes "hello_ok ch"
  shows "sniff_hello (enc_hello ch) = SniffHost (to_ascii_lowercase (ch_host ch))"
proof -
  have n: "length (enc_exts ch) < 65536" using assms by (simp add: hello_ok_def enc_hello_def)
  let ?pre = "ch_head ch @ of_nat (length (ch_session ch)) # ch_session ch @ be_bytes 2 (length (ch_ciphers ch)) @ ch_ciphers ch @
    of_nat (length (ch_compression ch)) # ch_compression ch @ be_bytes 2 (length (enc_exts ch))"
  let ?p = "40 + length (ch_session ch) + length (ch_ciphers ch) + length (ch_compression ch)"
  have p: "length ?pre = ?p" using assms by (simp add: hello_ok_def)
  have "list_all (\<lambda>(t, d). 0 < t \<and> t < 65536 \<and> length d < 65536) (ch_before ch)"
    using assms n concat_part [of _ "ch_before ch" enc_ext] by (fastforce simp: hello_ok_def list_all_iff enc_exts_def)
  moreover have "length (enc_sni ch) < 65536" using n by (simp add: enc_exts_def)
  ultimately have "ext_loop (?pre @ enc_exts ch) (?p + length (enc_exts ch)) (length ?pre) = parse_sni_extension (enc_sni ch)"
    using ext_loop_finds [of "ch_before ch" "enc_sni ch" ?pre "?p + length (enc_exts ch)" "ch_after ch"] p
    by (simp only: enc_exts_def) simp
  moreover have "enc_hello ch = ?pre @ enc_exts ch" by (simp add: enc_hello_def)
  ultimately have "ext_loop (enc_hello ch) (?p + length (enc_exts ch)) ?p = parse_sni_extension (enc_sni ch)"
    by (simp only: p)
  moreover have "sniff_hello (enc_hello ch) = ext_loop (enc_hello ch) (?p + length (enc_exts ch)) ?p"
    by (rule sniff_hello_extensions [OF _ _ _ _ n enc_hello_def]) (use assms in \<open>simp_all add: hello_ok_def\<close>)
  ultimately show ?thesis by (simp only: parse_sni_enc [OF assms])
qed

lemma sniff_tls_record:
  assumes "length hello + 4 < 65536"
  shows "sniff_tls (enc_record hello @ rest) = sniff_hello hello"
proof -
  let ?buf = "enc_record hello @ rest" and ?rec = "1 # be_bytes 3 (length hello) @ hello"
  have len: "be16 ?buf 3 = length ?rec"
    using be16_at [of 3 "[0x16, 3, 1]" "4 + length hello"] assms by (simp add: enc_record_def)
  have rng: "get_range ?buf 5 (5 + length ?rec) = Some ?rec"
    using get_range_at [of 5 "[0x16, 3, 1] @ be_bytes 2 (4 + length hello)" _ ?rec rest] by (simp add: enc_record_def)
  have hello: "get_range ?rec 4 (4 + length hello) = Some hello"
    using get_range_at [of 4 "1 # be_bytes 3 (length hello)" _ hello "[]"] by simp
  obtain a b c where abc: "be_bytes 3 (length hello) = [a, b, c]" by (simp add: numeral_3_eq_3)
  then have v: "be_val [a, b, c] = length hello" using be_val_bytes [of 3 "length hello"] assms by simp
  have "be_val [?rec ! 1, ?rec ! 2, ?rec ! 3] = length hello" using v unfolding abc by simp
  moreover have "\<not> length ?buf < 5" "?buf ! 0 = 0x16" "?rec \<noteq> []" "?rec ! 0 = 1" "\<not> length ?rec < 4" by (simp_all add: enc_record_def)
  ultimately show ?thesis using len rng hello unfolding sniff_tls_def by (simp only: option.case Let_def if_False simp_thms)
qed

lemma sni_loop_no_panic: "sni_loop names pos \<noteq> SniffPanic"
proof (induction names pos rule: sni_loop.induct)
  case (1 names pos)
  then show ?case by (subst sni_loop.simps) (auto simp: Let_def split: option.split)
qed

lemma ext_loop_no_panic: "ext_loop hello e pos \<noteq> SniffPanic"
proof (induction hello e pos rule: ext_loop.induct)
  case (1 hello e pos)
  have "parse_sni_extension d \<noteq> SniffPanic" for d
    by (auto simp: parse_sni_extension_def sni_loop_no_panic split: option.split)
  then show ?case using 1 by (subst ext_loop.simps) (auto simp: Let_def split: option.split)
qed

lemma sniff_hello_no_panic: "sniff_hello hello \<noteq> SniffPanic"
  by (auto simp: sniff_hello_def ext_loop_no_panic Let_def split: option.split)

subsection \<open>Properties\<close>

text \<open>
  C26: the server name of a TLS greeting. For every greeting whose lengths fit their fields, with any
  session, cipher suites and compression methods, any extensions before and after the server name and
  any other kinds of name before the host name, the result is the host name, lowered, whatever bytes
  follow the record.
\<close>

theorem sniff_tls_server_name:
  assumes "hello_ok ch"
  shows "sniff_tls (enc_record (enc_hello ch) @ rest) = SniffHost (to_ascii_lowercase (ch_host ch))"
  using sniff_tls_record [of "enc_hello ch" rest] sniff_hello_enc [OF assms] assms by (simp add: hello_ok_def)

theorem sniff_tls_server_name_witness:
  "sniff_tls (enc_record (enc_hello
     \<lparr>ch_head = [3, 3] @ replicate 32 0, ch_session = [], ch_ciphers = [0, 0x2F], ch_compression = [0], ch_before = [(10, [0, 0])],
      ch_names = [(1, [7])], ch_host = ''A.b'', ch_more_names = [], ch_after = []\<rparr>) @ [1, 2]) = SniffHost ''a.b''"
proof -
  let ?ch = "\<lparr>ch_head = [3, 3] @ replicate 32 0, ch_session = [], ch_ciphers = [0, 0x2F], ch_compression = [0], ch_before = [(10, [0, 0])],
      ch_names = [(1, [7])], ch_host = ''A.b'', ch_more_names = [], ch_after = []\<rparr>"
  have u: "utf8_ok (bytes_of ''A.b'')" by (rule utf8_ok_ascii_string) (simp add: is_ascii_def)
  have l: "to_ascii_lowercase ''A.b'' = ''a.b''" by code_simp
  have "hello_ok ?ch" using u by (simp add: hello_ok_def enc_hello_def enc_exts_def enc_sni_def enc_names_def)
  from sniff_tls_server_name [OF this] show ?thesis by (simp only: client_hello.simps l)
qed


end
