(* ===== verification/AnyTls.thy ===== *)
theory AnyTls
  imports Bytes "HOL-Library.AList"
begin

text \<open>
  AnyTLS framing and padding, \<open>meow-anytls\<close>: frames and their codec (\<open>protocol/frame.rs\<close>,
  \<open>protocol/codec.rs\<close>), the decoding loop and the padded writes of a session (\<open>session/session.rs\<close>),
  padding schemes (\<open>padding/factory.rs\<close>) over the settings map (\<open>util/string_map.rs\<close>), and the
  authentication record (\<open>util/auth.rs\<close>). Random sizes are drawn by an argument, indexed by the draw; md5
  is third-party and an argument. The socket is the list of the writes made to it; log lines are left
  out, and so are the streams and the handling of the frames received.
\<close>

subsection \<open>Frames\<close>

datatype command =
    CmdWaste | CmdSyn | CmdPush | CmdFin | CmdSettings | CmdAlert | CmdUpdatePaddingScheme | CmdSynAck
  | CmdHeartRequest | CmdHeartResponse | CmdServerSettings

definition command_from :: "byte \<Rightarrow> command" where
  "command_from b =
     (if b = 0 then CmdWaste else if b = 1 then CmdSyn else if b = 2 then CmdPush else if b = 3 then CmdFin
      else if b = 4 then CmdSettings else if b = 5 then CmdAlert else if b = 6 then CmdUpdatePaddingScheme
      else if b = 7 then CmdSynAck else if b = 8 then CmdHeartRequest else if b = 9 then CmdHeartResponse
      else if b = 10 then CmdServerSettings else CmdWaste)"

fun command_byte :: "command \<Rightarrow> byte" where
  "command_byte CmdWaste = 0"
| "command_byte CmdSyn = 1"
| "command_byte CmdPush = 2"
| "command_byte CmdFin = 3"
| "command_byte CmdSettings = 4"
| "command_byte CmdAlert = 5"
| "command_byte CmdUpdatePaddingScheme = 6"
| "command_byte CmdSynAck = 7"
| "command_byte CmdHeartRequest = 8"
| "command_byte CmdHeartResponse = 9"
| "command_byte CmdServerSettings = 10"

record frame =
  fr_cmd :: command
  fr_stream_id :: "32 word"
  fr_data :: "byte list"

definition header_overhead_size :: nat where
  "header_overhead_size = 7"

datatype anytls_error = PayloadTooLong | UnexpectedEof | AuthenticationFailed

definition encode :: "frame \<Rightarrow> byte list \<Rightarrow> anytls_error + byte list" where
  "encode item dst =
     (let data_len = length (fr_data item) in
      if data_len > 65535 then Inl PayloadTooLong
      else Inr (dst @ command_byte (fr_cmd item) # be_bytes 4 (unat (fr_stream_id item)) @ be_bytes 2 data_len @ fr_data item))"

definition decode :: "byte list \<Rightarrow> frame option \<times> byte list" where
  "decode src =
     (if length src < header_overhead_size then (None, src)
      else (let cmd = command_from (src ! 0);
                stream_id = of_nat (be_val (take 4 (drop 1 src)));
                data_len = be_val (take 2 (drop 5 src))
            in if length src < header_overhead_size + data_len then (None, src)
               else (Some \<lparr>fr_cmd = cmd, fr_stream_id = stream_id, fr_data = take data_len (drop header_overhead_size src)\<rparr>,
                     drop data_len (drop header_overhead_size src))))"

lemma decode_shrinks: "decode src = (Some f, rest) \<Longrightarrow> length rest < length src"
  by (auto simp: decode_def header_overhead_size_def Let_def split: if_splits)

text \<open>The frames read from a buffer, and what is left of it; then the reading of one chunk after the other.\<close>

function decode_loop :: "byte list \<Rightarrow> frame list \<times> byte list" where
  "decode_loop buffer =
     (case decode buffer of
        (None, rest) \<Rightarrow> ([], rest)
      | (Some f, rest) \<Rightarrow> (let (fs, r) = decode_loop rest in (f # fs, r)))"
  by pat_completeness auto
termination by (relation "measure length") (auto dest: decode_shrinks [OF sym])

declare decode_loop.simps [simp del]

definition recv_loop :: "byte list list \<Rightarrow> frame list \<times> byte list" where
  "recv_loop chunks =
     fold (\<lambda>chunk (fs, buffer). let (fs', buffer') = decode_loop (buffer @ chunk) in (fs @ fs', buffer')) chunks ([], [])"

subsection \<open>Settings\<close>

text \<open>Bytes that are not UTF-8 are replaced by U+FFFD, one for each maximal part of a character.\<close>

definition replacement :: "byte list" where
  "replacement = [0xEF, 0xBF, 0xBD]"

function utf8_lossy :: "byte list \<Rightarrow> byte list" where
  "utf8_lossy bs =
     (case bs of
        [] \<Rightarrow> []
      | a # r \<Rightarrow>
          if a < 0x80 then a # utf8_lossy r
          else if 0xC2 \<le> a \<and> a \<le> 0xDF then
            (case r of
               b # r1 \<Rightarrow> if cont_byte b then a # b # utf8_lossy r1 else replacement @ utf8_lossy r
             | [] \<Rightarrow> replacement)
          else if 0xE0 \<le> a \<and> a \<le> 0xEF then
            (case r of
               b # r1 \<Rightarrow>
                 if cont_byte b \<and> (a = 0xE0 \<longrightarrow> 0xA0 \<le> b) \<and> (a = 0xED \<longrightarrow> b \<le> 0x9F) then
                   (case r1 of
                      c # r2 \<Rightarrow> if cont_byte c then a # b # c # utf8_lossy r2 else replacement @ utf8_lossy r1
                    | [] \<Rightarrow> replacement)
                 else replacement @ utf8_lossy r
             | [] \<Rightarrow> replacement)
          else if 0xF0 \<le> a \<and> a \<le> 0xF4 then
            (case r of
               b # r1 \<Rightarrow>
                 if cont_byte b \<and> (a = 0xF0 \<longrightarrow> 0x90 \<le> b) \<and> (a = 0xF4 \<longrightarrow> b \<le> 0x8F) then
                   (case r1 of
                      c # r2 \<Rightarrow>
                        if cont_byte c then
                          (case r2 of
                             d # r3 \<Rightarrow> if cont_byte d then a # b # c # d # utf8_lossy r3 else replacement @ utf8_lossy r2
                           | [] \<Rightarrow> replacement)
                        else replacement @ utf8_lossy r1
                    | [] \<Rightarrow> replacement)
                 else replacement @ utf8_lossy r
             | [] \<Rightarrow> replacement)
          else replacement @ utf8_lossy r)"
  by pat_completeness auto
termination by (relation "measure length") auto

declare utf8_lossy.simps [simp del]

text \<open>The lines of a text: no carriage return before a newline, and no empty line after the last newline.\<close>

definition text_lines :: "string \<Rightarrow> string list" where
  "text_lines s =
     (let ls = split_by (\<lambda>c. c = CHR 0x0A) s
      in map (\<lambda>l. if l \<noteq> [] \<and> last l = CHR 0x0D then butlast l else l) (butlast ls) @ (if last ls = [] then [] else [last ls]))"

definition string_map_from_bytes :: "byte list \<Rightarrow> (string \<times> string) list" where
  "string_map_from_bytes data =
     fold (\<lambda>line m. case split_once (CHR ''='') line of
         Some (k, v) \<Rightarrow> AList.update (trim k) (trim v) m
       | None \<Rightarrow> m) (text_lines (str_of (utf8_lossy data))) []"

definition string_map_to_bytes :: "(string \<times> string) list \<Rightarrow> byte list" where
  "string_map_to_bytes m = bytes_of (join [CHR 0x0A] (map (\<lambda>(k, v). k @ ''='' @ v) m))"

subsection \<open>Padding schemes\<close>

datatype padding_size = PadCheck | PadRange nat nat

datatype scheme_error = MissingStop | InvalidStop | InvalidRange | BadSize | TooMuchPadding

record padding_factory =
  pf_sizes :: "(string \<times> padding_size list) list"
  pf_raw_scheme :: "byte list"
  pf_stop :: nat
  pf_md5 :: string

definition max_packet_padding :: nat where
  "max_packet_padding = 1024 * 1024"

definition check_mark :: int where
  "check_mark = - 1"

definition parse_size :: "string \<Rightarrow> scheme_error + nat" where
  "parse_size v =
     (case parse_uint 16 (trim v) of
        Some n \<Rightarrow> if n > 0 then Inr n else Inl BadSize
      | None \<Rightarrow> Inl BadSize)"

fun packet_sizes :: "nat \<Rightarrow> string list \<Rightarrow> scheme_error + padding_size list" where
  "packet_sizes acc [] = Inr []"
| "packet_sizes acc (part # parts) =
     (if part = ''c'' then and_then (packet_sizes acc parts) (\<lambda>ps. Inr (PadCheck # ps))
      else (case split_once (CHR ''-'') part of
              None \<Rightarrow> Inl InvalidRange
            | Some (lo, hi) \<Rightarrow>
                and_then (parse_size lo) (\<lambda>a. and_then (parse_size hi) (\<lambda>b.
                  let acc1 = acc + (max a b + header_overhead_size) in
                  if acc1 > max_packet_padding then Inl TooMuchPadding
                  else and_then (packet_sizes acc1 parts) (\<lambda>ps. Inr (PadRange (min a b) (max a b) # ps))))))"

fun scheme_sizes :: "(string \<times> string) list \<Rightarrow> scheme_error + (string \<times> padding_size list) list" where
  "scheme_sizes [] = Inr []"
| "scheme_sizes ((key, spec) # m) =
     (if parse_uint 32 key = None then scheme_sizes m
      else and_then (packet_sizes 0 (map trim (split_by (\<lambda>c. c = CHR '','') spec))) (\<lambda>ps.
           and_then (scheme_sizes m) (\<lambda>rest. Inr ((key, ps) # rest))))"

definition padding_new :: "(byte list \<Rightarrow> string) \<Rightarrow> byte list \<Rightarrow> scheme_error + padding_factory" where
  "padding_new md5 raw_scheme =
     (let scheme = string_map_from_bytes raw_scheme in
      case map_of scheme ''stop'' of
        None \<Rightarrow> Inl MissingStop
      | Some v \<Rightarrow>
          (case parse_uint 32 v of
             None \<Rightarrow> Inl InvalidStop
           | Some stop \<Rightarrow>
               and_then (scheme_sizes scheme) (\<lambda>sizes.
                 Inr \<lparr>pf_sizes = sizes, pf_raw_scheme = raw_scheme, pf_stop = stop, pf_md5 = md5 raw_scheme\<rparr>)))"

fun draw_sizes :: "(nat \<Rightarrow> nat \<Rightarrow> nat \<Rightarrow> nat) \<Rightarrow> padding_size list \<Rightarrow> nat \<Rightarrow> int list \<times> nat" where
  "draw_sizes rnd [] k = ([], k)"
| "draw_sizes rnd (PadCheck # ps) k = (let (szs, k') = draw_sizes rnd ps k in (check_mark # szs, k'))"
| "draw_sizes rnd (PadRange lo hi # ps) k =
     (if lo = hi then (let (szs, k') = draw_sizes rnd ps k in (int lo # szs, k'))
      else (let (szs, k') = draw_sizes rnd ps (k + 1) in (int (rnd k lo hi) # szs, k')))"

definition generate_record_payload_sizes ::
  "(nat \<Rightarrow> nat \<Rightarrow> nat \<Rightarrow> nat) \<Rightarrow> padding_factory \<Rightarrow> nat \<Rightarrow> nat \<Rightarrow> int list \<times> nat" where
  "generate_record_payload_sizes rnd pf pkt k =
     (case map_of (pf_sizes pf) (show_nat pkt) of
        None \<Rightarrow> ([], k)
      | Some spec \<Rightarrow> draw_sizes rnd spec k)"

subsection \<open>Padded writes\<close>

definition padding_frame :: "nat \<Rightarrow> byte list" where
  "padding_frame n = command_byte CmdWaste # be_bytes 4 0 @ be_bytes 2 n @ replicate n 0"

fun pad_loop :: "int list \<Rightarrow> byte list \<Rightarrow> byte list list" where
  "pad_loop [] buffer = (if buffer = [] then [] else [buffer])"
| "pad_loop (sz # sizes) buffer =
     (let remain_payload_len = length buffer in
      if sz = check_mark then
        (if remain_payload_len = 0 then [] else pad_loop sizes buffer)
      else (let sz = nat sz in
        if remain_payload_len > sz then take sz buffer # pad_loop sizes (drop sz buffer)
        else if remain_payload_len > 0 then
          (let padding_len = sz - (remain_payload_len + header_overhead_size) in
           (buffer @ (if padding_len > 0 then padding_frame padding_len else [])) # pad_loop sizes [])
        else padding_frame sz # pad_loop sizes []))"

record session_writer =
  sw_is_client :: bool
  sw_buffering :: bool
  sw_buffer :: "byte list"
  sw_send_padding :: bool
  sw_pkt_counter :: "32 word"
  sw_padding :: padding_factory
  sw_draws :: nat
  sw_writes :: "byte list list"

definition write_all :: "byte list list \<Rightarrow> session_writer \<Rightarrow> session_writer" where
  "write_all bss s = s\<lparr>sw_writes := sw_writes s @ bss\<rparr>"

definition write_with_padding :: "(nat \<Rightarrow> nat \<Rightarrow> nat \<Rightarrow> nat) \<Rightarrow> session_writer \<Rightarrow> byte list \<Rightarrow> session_writer" where
  "write_with_padding rnd s buffer =
     (if \<not> sw_send_padding s then write_all [buffer] s
      else (let pkt = unat (sw_pkt_counter s); s1 = s\<lparr>sw_pkt_counter := sw_pkt_counter s + 1\<rparr> in
            if pkt \<ge> pf_stop (sw_padding s) then write_all [buffer] s1
            else (let (pkt_sizes, k) = generate_record_payload_sizes rnd (sw_padding s) pkt (sw_draws s);
                      s2 = s1\<lparr>sw_draws := k\<rparr>
                  in if pkt_sizes = [] then write_all [buffer] s2
                     else write_all (pad_loop pkt_sizes buffer) s2)))"

definition write_frame_inner ::
  "(nat \<Rightarrow> nat \<Rightarrow> nat \<Rightarrow> nat) \<Rightarrow> session_writer \<Rightarrow> frame \<Rightarrow> (anytls_error option) \<times> session_writer" where
  "write_frame_inner rnd s frame =
     (case encode frame [] of
        Inl e \<Rightarrow> (Some e, s)
      | Inr buffer \<Rightarrow>
          if sw_buffering s then (None, s\<lparr>sw_buffer := sw_buffer s @ buffer\<rparr>)
          else (None, write_with_padding rnd (s\<lparr>sw_buffer := []\<rparr>) (sw_buffer s @ buffer)))"

definition update_padding :: "(byte list \<Rightarrow> string) \<Rightarrow> session_writer \<Rightarrow> byte list \<Rightarrow> session_writer" where
  "update_padding md5 s data =
     (if sw_is_client s \<and> data \<noteq> [] then
        (case padding_new md5 data of
           Inr factory \<Rightarrow> s\<lparr>sw_padding := factory\<rparr>
         | Inl _ \<Rightarrow> s)
      else s)"

definition session_new :: "bool \<Rightarrow> padding_factory \<Rightarrow> session_writer" where
  "session_new is_client pf =
     \<lparr>sw_is_client = is_client, sw_buffering = False, sw_buffer = [], sw_send_padding = is_client, sw_pkt_counter = 0,
      sw_padding = pf, sw_draws = 0, sw_writes = []\<rparr>"

text \<open>What happens to a writer: frames, buffering switched on or off, and a scheme pushed by the peer.\<close>

datatype writer_op = OpFrame frame | OpBuffering bool | OpUpdatePadding "byte list"

fun writer_step ::
  "(byte list \<Rightarrow> string) \<Rightarrow> (nat \<Rightarrow> nat \<Rightarrow> nat \<Rightarrow> nat) \<Rightarrow> session_writer \<Rightarrow> writer_op \<Rightarrow> session_writer" where
  "writer_step md5 rnd s (OpFrame f) = snd (write_frame_inner rnd s f)"
| "writer_step md5 rnd s (OpBuffering b) = s\<lparr>sw_buffering := b\<rparr>"
| "writer_step md5 rnd s (OpUpdatePadding data) = update_padding md5 s data"

subsection \<open>Authentication\<close>

definition auth_record :: "(nat \<Rightarrow> nat \<Rightarrow> nat \<Rightarrow> nat) \<Rightarrow> padding_factory \<Rightarrow> nat \<Rightarrow> byte list \<Rightarrow> byte list" where
  "auth_record rnd pf k password_hash =
     (let padding_len = (case fst (generate_record_payload_sizes rnd pf 0 k) of [] \<Rightarrow> 0 | z # _ \<Rightarrow> z);
          padding_len = (if padding_len < 0 then 0 else nat (padding_len mod 65536))
      in password_hash @ be_bytes 2 padding_len @ replicate padding_len 0)"

definition authenticate_client :: "byte list \<Rightarrow> byte list \<Rightarrow> anytls_error + byte list" where
  "authenticate_client expected input =
     (if length input < 32 then Inl UnexpectedEof
      else if take 32 input \<noteq> expected then Inl AuthenticationFailed
      else (let input = drop 32 input in
        if length input < 2 then Inl UnexpectedEof
        else (let padding_len = be_val (take 2 input); input = drop 2 input in
              if length input < padding_len then Inl UnexpectedEof else Inr (drop padding_len input))))"

subsection \<open>Reading\<close>

lemma decode_None: "decode bs = (None, r) \<Longrightarrow> r = bs"
  by (auto simp: decode_def Let_def split: if_splits)

lemma decode_append:
  assumes "decode bs = (Some f, r)"
  shows "decode (bs @ c) = (Some f, r @ c)"
proof -
  have "7 \<le> length bs" using assms by (auto simp: decode_def header_overhead_size_def split: if_splits)
  then have "(bs @ c) ! 0 = bs ! 0" "take 4 (drop 1 (bs @ c)) = take 4 (drop 1 bs)" "take 2 (drop 5 (bs @ c)) = take 2 (drop 5 bs)"
    by (auto simp: nth_append)
  then show ?thesis using assms
    by (auto simp: decode_def Let_def header_overhead_size_def split: if_splits)
qed

lemma decode_loop_append:
  "decode_loop bs = (fs, r) \<Longrightarrow> decode_loop (bs @ c) = (fs @ fst (decode_loop (r @ c)), snd (decode_loop (r @ c)))"
proof (induction bs arbitrary: fs r rule: decode_loop.induct)
  case (1 bs)
  show ?case
  proof (cases "decode bs")
    case (Pair x rest)
    show ?thesis
    proof (cases x)
      case None
      then have "fs = []" "r = bs" using 1(2) Pair decode_None [of bs rest] by (simp_all add: decode_loop.simps [of bs])
      then show ?thesis by simp
    next
      case (Some f)
      obtain fs' where fs': "decode_loop rest = (fs', r)" "fs = f # fs'"
        using 1(2) Pair Some by (auto simp: decode_loop.simps [of bs] split: prod.splits)
      have d: "decode (bs @ c) = (Some f, rest @ c)" using decode_append Pair Some by simp
      show ?thesis using 1(1) [OF Pair [symmetric] Some fs'(1)] fs'(2)
        by (simp add: decode_loop.simps [of "bs @ c"] d)
    qed
  qed
qed

lemma decode_loop_Nil: "decode_loop [] = ([], [])"
  by (simp add: decode_loop.simps [of "[]"] decode_def header_overhead_size_def)

lemma recv_loop_concat: "recv_loop chunks = decode_loop (concat chunks)"
proof (induction chunks rule: rev_induct)
  case (snoc c chunks)
  then show ?case using decode_loop_append [of "concat chunks" "fst (recv_loop chunks)" "snd (recv_loop chunks)" c]
    by (simp add: recv_loop_def split_def Let_def)
qed (simp add: recv_loop_def decode_loop_Nil)

definition frame_ok :: "frame \<Rightarrow> bool" where
  "frame_ok f \<longleftrightarrow> length (fr_data f) < 65536"

definition enc_frame :: "frame \<Rightarrow> byte list" where
  "enc_frame f = command_byte (fr_cmd f) # be_bytes 4 (unat (fr_stream_id f)) @ be_bytes 2 (length (fr_data f)) @ fr_data f"

lemma encode_frame: "encode f dst = (if frame_ok f then Inr (dst @ enc_frame f) else Inl PayloadTooLong)"
  by (simp add: encode_def frame_ok_def enc_frame_def Let_def not_less)

lemma command_from_byte: "command_from (command_byte c) = c"
  by (cases c) (simp_all add: command_from_def)

lemma decode_enc:
  assumes "frame_ok f"
  shows "decode (enc_frame f @ rest) = (Some f, rest)"
proof -
  let ?n = "length (fr_data f)" and ?src = "enc_frame f @ rest"
  have cmd: "?src ! 0 = command_byte (fr_cmd f)" by (simp add: enc_frame_def)
  have sid: "be_val (take 4 (drop 1 ?src)) = unat (fr_stream_id f)"
    using be_val_bytes [of 4 "unat (fr_stream_id f)"] unsigned_less [where w = "fr_stream_id f", where 'a = nat]
    by (simp add: enc_frame_def)
  have "drop 5 ?src = be_bytes 2 ?n @ fr_data f @ rest" by (simp add: enc_frame_def drop_Cons')
  then have len: "be_val (take 2 (drop 5 ?src)) = ?n" using be_val_bytes [of 2 ?n] assms by (simp add: frame_ok_def)
  have body: "drop header_overhead_size ?src = fr_data f @ rest"
    by (simp add: enc_frame_def header_overhead_size_def drop_Cons')
  have "header_overhead_size + ?n \<le> length ?src" by (simp add: enc_frame_def header_overhead_size_def)
  then show ?thesis using cmd sid len body
    by (simp add: decode_def command_from_byte Let_def)
qed

lemma decode_loop_enc: "list_all frame_ok fs \<Longrightarrow> decode_loop (concat (map enc_frame fs)) = (fs, [])"
  by (induction fs) (simp_all add: decode_loop_Nil decode_loop.simps [of "enc_frame _ @ _"] decode_enc)

subsection \<open>Schemes\<close>

text \<open>A draw lies in the range it is drawn from.\<close>

definition draws_ok :: "(nat \<Rightarrow> nat \<Rightarrow> nat \<Rightarrow> nat) \<Rightarrow> bool" where
  "draws_ok rnd \<longleftrightarrow> (\<forall>k lo hi. lo \<le> hi \<longrightarrow> lo \<le> rnd k lo hi \<and> rnd k lo hi \<le> hi)"

fun pad_ok :: "padding_size \<Rightarrow> bool" where
  "pad_ok PadCheck = True"
| "pad_ok (PadRange lo hi) \<longleftrightarrow> 0 < lo \<and> lo \<le> hi \<and> hi < 65536"

fun pad_most :: "padding_size \<Rightarrow> nat" where
  "pad_most PadCheck = 0"
| "pad_most (PadRange lo hi) = hi + header_overhead_size"

definition spec_ok :: "padding_size list \<Rightarrow> bool" where
  "spec_ok ps \<longleftrightarrow> list_all pad_ok ps \<and> sum_list (map pad_most ps) \<le> max_packet_padding"

definition factory_ok :: "padding_factory \<Rightarrow> bool" where
  "factory_ok pf \<longleftrightarrow> list_all (\<lambda>(_, ps). spec_ok ps) (pf_sizes pf)"

lemma parse_size_Inr: "parse_size v = Inr n \<Longrightarrow> 0 < n \<and> n < 65536"
  using parse_uint_bound [of 16 "trim v"] by (auto simp: parse_size_def split: option.splits if_splits)

lemma packet_sizes_ok:
  "packet_sizes acc parts = Inr ps \<Longrightarrow> acc \<le> max_packet_padding \<Longrightarrow>
   list_all pad_ok ps \<and> acc + sum_list (map pad_most ps) \<le> max_packet_padding"
proof (induction acc parts arbitrary: ps rule: packet_sizes.induct)
  case (2 acc part parts)
  show ?case
  proof (cases "part = ''c''")
    case True
    then show ?thesis using 2 by (auto simp: and_then_Inr)
  next
    case False
    then obtain lo hi a b where p: "split_once (CHR ''-'') part = Some (lo, hi)" "parse_size lo = Inr a" "parse_size hi = Inr b"
      using 2(3) by (auto simp: and_then_Inr split: option.splits)
    then obtain ps' where ps': "packet_sizes (acc + (max a b + header_overhead_size)) parts = Inr ps'" "ps = PadRange (min a b) (max a b) # ps'"
        "acc + (max a b + header_overhead_size) \<le> max_packet_padding"
      using 2(3) False by (auto simp: and_then_Inr Let_def split: if_splits)
    have "list_all pad_ok ps' \<and> acc + (max a b + header_overhead_size) + sum_list (map pad_most ps') \<le> max_packet_padding"
      using 2(2) [OF False p(1) refl p(2,3) refl _ ps'(1,3)] ps'(3) by simp
    then show ?thesis using parse_size_Inr [OF p(2)] parse_size_Inr [OF p(3)] ps'(2) by simp
  qed
qed simp

lemma packet_sizes_spec: "packet_sizes 0 parts = Inr ps \<Longrightarrow> spec_ok ps"
  using packet_sizes_ok [of 0 parts ps] by (simp add: spec_ok_def)

lemma scheme_sizes_ok: "scheme_sizes m = Inr sizes \<Longrightarrow> list_all (\<lambda>(_, ps). spec_ok ps) sizes"
  by (induction m arbitrary: sizes rule: scheme_sizes.induct)
    (auto simp: and_then_Inr dest: packet_sizes_spec split: if_splits)

lemma padding_new_ok: "padding_new md5 raw = Inr pf \<Longrightarrow> factory_ok pf"
  by (auto simp: padding_new_def factory_ok_def and_then_Inr Let_def dest: scheme_sizes_ok split: option.splits)

definition size_cost :: "int \<Rightarrow> nat" where
  "size_cost z = (if z = check_mark then 0 else nat z + header_overhead_size)"

lemma draw_sizes_ok:
  assumes "draws_ok rnd" "list_all pad_ok ps"
  shows "list_all (\<lambda>z. z = check_mark \<or> 1 \<le> z \<and> z < 65536) (fst (draw_sizes rnd ps k)) \<and>
    sum_list (map size_cost (fst (draw_sizes rnd ps k))) \<le> sum_list (map pad_most ps)"
  using assms(2)
proof (induction ps arbitrary: k)
  case (Cons q ps)
  show ?case
  proof (cases q)
    case PadCheck
    then show ?thesis using Cons by (simp add: split_def Let_def size_cost_def)
  next
    case (PadRange lo hi)
    have "lo \<le> rnd k lo hi" "rnd k lo hi \<le> hi" using assms(1) Cons.prems by (auto simp: draws_ok_def PadRange)
    then show ?thesis using Cons.IH [of k] Cons.IH [of "k + 1"] Cons.prems
      by (auto simp: PadRange split_def Let_def check_mark_def size_cost_def)
  qed
qed simp

lemma generate_ok:
  assumes "draws_ok rnd" "factory_ok pf"
  shows "list_all (\<lambda>z. z = check_mark \<or> 1 \<le> z \<and> z < 65536) (fst (generate_record_payload_sizes rnd pf pkt k)) \<and>
    sum_list (map size_cost (fst (generate_record_payload_sizes rnd pf pkt k))) \<le> max_packet_padding"
proof (cases "map_of (pf_sizes pf) (show_nat pkt)")
  case (Some ps)
  then have "(show_nat pkt, ps) \<in> set (pf_sizes pf)" by (rule map_of_SomeD)
  then have "spec_ok ps" using assms(2) by (auto simp: factory_ok_def list_all_iff)
  then show ?thesis using draw_sizes_ok [OF assms(1), of ps k] Some by (auto simp: generate_record_payload_sizes_def spec_ok_def)
qed (simp add: generate_record_payload_sizes_def)

subsection \<open>Writing\<close>

definition waste :: "nat \<Rightarrow> frame" where
  "waste n = \<lparr>fr_cmd = CmdWaste, fr_stream_id = 0, fr_data = replicate n 0\<rparr>"

lemma padding_frame_enc: "padding_frame n = enc_frame (waste n)"
  by (simp add: padding_frame_def enc_frame_def waste_def)

lemma length_enc_frame: "length (enc_frame f) = header_overhead_size + length (fr_data f)"
  by (simp add: enc_frame_def header_overhead_size_def)

lemma pad_loop_bytes:
  assumes "list_all (\<lambda>z. z = check_mark \<or> 1 \<le> z \<and> z < 65536) sizes"
  shows "\<exists>ns. concat (pad_loop sizes buffer) = buffer @ concat (map (\<lambda>n. enc_frame (waste n)) ns) \<and>
    list_all (\<lambda>n. n < 65536) ns \<and> sum_list (map (\<lambda>n. n + header_overhead_size) ns) \<le> sum_list (map size_cost sizes)"
  using assms
proof (induction sizes arbitrary: buffer)
  case (Cons z zs)
  have IH: "\<exists>ns. concat (pad_loop zs b) = b @ concat (map (\<lambda>n. enc_frame (waste n)) ns) \<and> list_all (\<lambda>n. n < 65536) ns \<and>
      sum_list (map (\<lambda>n. n + header_overhead_size) ns) \<le> sum_list (map size_cost zs)" for b
    using Cons by simp
  have cost: "z \<noteq> check_mark \<Longrightarrow> size_cost z = nat z + header_overhead_size" by (simp add: size_cost_def)
  consider "z = check_mark" | "z \<noteq> check_mark" "nat z < length buffer" | "z \<noteq> check_mark" "0 < length buffer" "length buffer \<le> nat z"
    | "z \<noteq> check_mark" "buffer = []" by fastforce
  then show ?case
  proof cases
    case 1
    have zero: "size_cost check_mark = 0" by (simp add: size_cost_def)
    show ?thesis
    proof (cases "buffer = []")
      case True
      then show ?thesis by (intro exI [of _ "[]"]) (simp add: 1)
    next
      case False
      then show ?thesis using IH [of buffer] by (simp add: 1 zero)
    qed
  next
    case 2
    obtain ns where "concat (pad_loop zs (drop (nat z) buffer)) = drop (nat z) buffer @ concat (map (\<lambda>n. enc_frame (waste n)) ns)"
        "list_all (\<lambda>n. n < 65536) ns" "sum_list (map (\<lambda>n. n + header_overhead_size) ns) \<le> sum_list (map size_cost zs)"
      using IH by blast
    then show ?thesis using 2 by (intro exI [of _ ns]) (auto simp: Let_def cost simp flip: append_assoc)
  next
    case 3
    obtain ns where ns: "concat (pad_loop zs []) = concat (map (\<lambda>n. enc_frame (waste n)) ns)"
        "list_all (\<lambda>n. n < 65536) ns" "sum_list (map (\<lambda>n. n + header_overhead_size) ns) \<le> sum_list (map size_cost zs)"
      using IH [of "[]"] by auto
    let ?n = "nat z - (length buffer + header_overhead_size)"
    show ?thesis using 3 ns Cons.prems
      by (intro exI [of _ "(if ?n > 0 then [?n] else []) @ ns"]) (auto simp: Let_def cost padding_frame_enc)
  next
    case 4
    obtain ns where ns: "concat (pad_loop zs []) = concat (map (\<lambda>n. enc_frame (waste n)) ns)"
        "list_all (\<lambda>n. n < 65536) ns" "sum_list (map (\<lambda>n. n + header_overhead_size) ns) \<le> sum_list (map size_cost zs)"
      using IH [of "[]"] by auto
    then show ?thesis using 4 Cons.prems by (intro exI [of _ "nat z # ns"]) (auto simp: Let_def cost padding_frame_enc)
  qed
qed (auto intro: exI [of _ "[]"])

definition live :: "frame \<Rightarrow> bool" where
  "live f \<longleftrightarrow> fr_cmd f \<noteq> CmdWaste"

lemma wastes:
  "list_all (\<lambda>n. n < 65536) ns \<Longrightarrow> list_all frame_ok (map waste ns) \<and> filter live (map waste ns) = []"
  by (induction ns) (auto simp: frame_ok_def waste_def live_def)

lemma write_with_padding_bytes:
  assumes "draws_ok rnd" "factory_ok (sw_padding s)"
  shows "\<exists>ns. concat (sw_writes (write_with_padding rnd s buffer)) = concat (sw_writes s) @ buffer @ concat (map enc_frame (map waste ns)) \<and>
    list_all (\<lambda>n. n < 65536) ns"
    "sw_buffer (write_with_padding rnd s buffer) = sw_buffer s" "sw_padding (write_with_padding rnd s buffer) = sw_padding s"
proof -
  let ?g = "generate_record_payload_sizes rnd (sw_padding s) (unat (sw_pkt_counter s)) (sw_draws s)"
  obtain ns where ns: "concat (pad_loop (fst ?g) buffer) = buffer @ concat (map (\<lambda>n. enc_frame (waste n)) ns)" "list_all (\<lambda>n. n < 65536) ns"
    using pad_loop_bytes [of "fst ?g" buffer] generate_ok [OF assms] by blast
  show "\<exists>ns. concat (sw_writes (write_with_padding rnd s buffer)) = concat (sw_writes s) @ buffer @ concat (map enc_frame (map waste ns)) \<and>
      list_all (\<lambda>n. n < 65536) ns"
  proof (cases "sw_send_padding s \<and> unat (sw_pkt_counter s) < pf_stop (sw_padding s) \<and> fst ?g \<noteq> []")
    case True
    then show ?thesis using ns
      by (intro exI [of _ ns]) (auto simp: write_with_padding_def write_all_def Let_def split_def comp_def)
  next
    case False
    then show ?thesis by (intro exI [of _ "[]"]) (auto simp: write_with_padding_def write_all_def Let_def split_def)
  qed
  show "sw_buffer (write_with_padding rnd s buffer) = sw_buffer s" "sw_padding (write_with_padding rnd s buffer) = sw_padding s"
    by (simp_all add: write_with_padding_def write_all_def Let_def split_def)
qed

text \<open>The frames an operation writes.\<close>

fun op_frames :: "writer_op \<Rightarrow> frame list" where
  "op_frames (OpFrame f) = (if frame_ok f then [f] else [])"
| "op_frames _ = []"

definition writer_inv :: "frame list \<Rightarrow> session_writer \<Rightarrow> bool" where
  "writer_inv written s \<longleftrightarrow> factory_ok (sw_padding s) \<and>
     (\<exists>sent pending. concat (sw_writes s) = concat (map enc_frame sent) \<and> sw_buffer s = concat (map enc_frame pending) \<and>
        list_all frame_ok (sent @ pending) \<and> filter live (sent @ pending) = filter live written)"

lemma writer_invI:
  "factory_ok (sw_padding s) \<Longrightarrow> concat (sw_writes s) = concat (map enc_frame sent) \<Longrightarrow> sw_buffer s = concat (map enc_frame pending) \<Longrightarrow>
   list_all frame_ok (sent @ pending) \<Longrightarrow> filter live (sent @ pending) = filter live written \<Longrightarrow> writer_inv written s"
  unfolding writer_inv_def by blast

lemma writer_step_inv:
  assumes "draws_ok rnd" "writer_inv written s"
  shows "writer_inv (written @ op_frames x) (writer_step md5 rnd s x)"
proof -
  obtain sent pending where inv: "factory_ok (sw_padding s)" "concat (sw_writes s) = concat (map enc_frame sent)"
      "sw_buffer s = concat (map enc_frame pending)" "list_all frame_ok (sent @ pending)" "filter live (sent @ pending) = filter live written"
    using assms(2) unfolding writer_inv_def by blast
  show ?thesis
  proof (cases x)
    case (OpFrame f)
    show ?thesis
    proof (cases "frame_ok f")
      case False
      then show ?thesis using assms(2) by (simp add: OpFrame write_frame_inner_def encode_frame)
    next
      case ok: True
      show ?thesis
      proof (cases "sw_buffering s")
        case True
        then have st: "writer_step md5 rnd s x = s\<lparr>sw_buffer := sw_buffer s @ enc_frame f\<rparr>"
          using ok by (simp add: OpFrame write_frame_inner_def encode_frame)
        show ?thesis unfolding st
          by (rule writer_invI [of _ sent "pending @ [f]"]) (use inv(1-4) ok in \<open>simp_all add: OpFrame flip: inv(5)\<close>)
      next
        case False
        let ?s = "s\<lparr>sw_buffer := []\<rparr>" and ?b = "concat (map enc_frame (pending @ [f]))"
        have fac: "factory_ok (sw_padding ?s)" using inv(1) by simp
        note w = write_with_padding_bytes [OF assms(1) fac, of ?b]
        obtain ns where ns: "concat (sw_writes (write_with_padding rnd ?s ?b)) = concat (sw_writes ?s) @ ?b @ concat (map enc_frame (map waste ns))"
            "list_all (\<lambda>n. n < 65536) ns" using w(1) by blast
        have st: "writer_step md5 rnd s x = write_with_padding rnd ?s ?b"
          using False ok by (simp add: OpFrame write_frame_inner_def encode_frame inv(3))
        let ?sent = "sent @ pending @ [f] @ map waste ns"
        have "concat (sw_writes (write_with_padding rnd ?s ?b)) = concat (map enc_frame ?sent)" using ns(1) inv(2) by simp
        moreover have "list_all frame_ok ?sent" "filter live ?sent = filter live (written @ op_frames x)"
          using wastes [OF ns(2)] inv(4,5) ok by (simp_all add: OpFrame flip: inv(5))
        ultimately show ?thesis using w(2,3) inv(1) unfolding st
          by (intro writer_invI [of _ ?sent "[]"]) simp_all
      qed
    qed
  next
    case (OpBuffering b)
    then show ?thesis using assms(2) by (simp add: writer_inv_def)
  next
    case (OpUpdatePadding data)
    have "writer_inv written (update_padding md5 s data)"
    proof (cases "padding_new md5 data")
      case (Inr pf)
      then show ?thesis using assms(2) padding_new_ok [OF Inr] by (auto simp: writer_inv_def update_padding_def)
    qed (use assms(2) in \<open>simp add: update_padding_def\<close>)
    then show ?thesis by (simp add: OpUpdatePadding)
  qed
qed

lemma writer_run_inv:
  assumes "draws_ok rnd" "writer_inv written s"
  shows "writer_inv (written @ concat (map op_frames ops)) (foldl (writer_step md5 rnd) s ops)"
  using assms(2)
proof (induction ops arbitrary: written s)
  case (Cons x ops)
  from Cons.IH [OF writer_step_inv [OF assms(1) Cons.prems, of x]] show ?case by simp
qed simp

lemma auth_record_shape:
  obtains n where "auth_record rnd pf k hash = hash @ be_bytes 2 n @ replicate n 0" "n < 65536"
proof -
  let ?z = "case fst (generate_record_payload_sizes rnd pf 0 k) of [] \<Rightarrow> 0 | z # _ \<Rightarrow> z"
  have "nat (?z mod 65536) < 65536" by (simp add: nat_less_iff)
  then show ?thesis using that [of "if ?z < 0 then 0 else nat (?z mod 65536)"] by (auto simp: auth_record_def Let_def)
qed

subsection \<open>Properties\<close>

text \<open>A scheme with one range, for the concrete runs below.\<close>

definition sample_scheme :: "byte list" where
  "sample_scheme = bytes_of (''stop=2'' @ [CHR 0x0A] @ ''0=9-40'')"

lemma sample_map: "string_map_from_bytes sample_scheme = [(''stop'', ''2''), (''0'', ''9-40'')]"
  by code_simp

lemma sample_accepted: "\<exists>pf. padding_new (\<lambda>_. []) sample_scheme = Inr pf"
  by (simp add: padding_new_def sample_map parse_uint_def is_digit_def digits_val_def parse_size_def split_once_def trim_def trim_start_def
      trim_end_matches_def is_ws_def header_overhead_size_def max_packet_padding_def)

lemma draws_low: "draws_ok (\<lambda>_ lo _. lo)"
  by (simp add: draws_ok_def)

text \<open>
  C25: padding is transparent. Whatever frames a session writes, buffered or not, with schemes pushed by
  the peer in between, the peer reads the very same frames but for padding, however the bytes are cut
  into chunks on the way, and no byte is left over; frames still held back are those in the buffer.
  A frame longer than 65535 bytes is refused and leaves no trace.
\<close>

theorem anytls_padding_transparent:
  assumes "draws_ok rnd" "padding_new md5 raw = Inr pf" "s = foldl (writer_step md5 rnd) (session_new is_client pf) ops"
    "concat chunks = concat (sw_writes s)"
  shows "\<exists>pending. sw_buffer s = concat (map enc_frame pending) \<and> snd (recv_loop chunks) = [] \<and>
    filter live (fst (recv_loop chunks) @ pending) = filter live (concat (map op_frames ops))"
proof -
  have "writer_inv [] (session_new is_client pf)"
    by (rule writer_invI [of _ "[]" "[]"]) (simp_all add: session_new_def padding_new_ok [OF assms(2)])
  from writer_run_inv [OF assms(1) this, of ops md5]
  obtain sent pending where s: "concat (sw_writes s) = concat (map enc_frame sent)" "sw_buffer s = concat (map enc_frame pending)"
      "list_all frame_ok (sent @ pending)" "filter live (sent @ pending) = filter live (concat (map op_frames ops))"
    unfolding assms(3) writer_inv_def by auto
  have "recv_loop chunks = (sent, [])" using s(1,3) assms(4) decode_loop_enc [of sent] by (simp add: recv_loop_concat)
  then show ?thesis using s by auto
qed

theorem anytls_padding_transparent_witness:
  "\<exists>pf s pending. padding_new (\<lambda>_. []) sample_scheme = Inr pf \<and>
     s = foldl (writer_step (\<lambda>_. []) (\<lambda>_ lo _. lo)) (session_new True pf)
       [OpBuffering True, OpFrame \<lparr>fr_cmd = CmdSettings, fr_stream_id = 0, fr_data = [1, 2]\<rparr>, OpBuffering False,
        OpFrame \<lparr>fr_cmd = CmdSyn, fr_stream_id = 1, fr_data = []\<rparr>] \<and>
     sw_buffer s = concat (map enc_frame pending) \<and>
     filter live (fst (recv_loop (map (\<lambda>b. [b]) (concat (sw_writes s)))) @ pending) =
       [\<lparr>fr_cmd = CmdSettings, fr_stream_id = 0, fr_data = [1, 2]\<rparr>, \<lparr>fr_cmd = CmdSyn, fr_stream_id = 1, fr_data = []\<rparr>]"
proof -
  let ?ops = "[OpBuffering True, OpFrame \<lparr>fr_cmd = CmdSettings, fr_stream_id = 0, fr_data = [1, 2]\<rparr>, OpBuffering False,
    OpFrame \<lparr>fr_cmd = CmdSyn, fr_stream_id = 1, fr_data = []\<rparr>]"
  obtain pf where pf: "padding_new (\<lambda>_. []) sample_scheme = Inr pf" using sample_accepted by blast
  define s where "s = foldl (writer_step (\<lambda>_. []) (\<lambda>_ lo _. lo)) (session_new True pf) ?ops"
  have chunks: "concat (map (\<lambda>b. [b]) (concat (sw_writes s))) = concat (sw_writes s)" by simp
  have "filter live (concat (map op_frames ?ops)) =
      [\<lparr>fr_cmd = CmdSettings, fr_stream_id = 0, fr_data = [1, 2]\<rparr>, \<lparr>fr_cmd = CmdSyn, fr_stream_id = 1, fr_data = []\<rparr>]"
    by (simp add: frame_ok_def live_def)
  then show ?thesis using anytls_padding_transparent [OF draws_low pf s_def chunks] pf s_def by metis
qed

text \<open>
  C33: the bounds of padding. With a scheme that has been accepted every size drawn is a check mark or
  lies between 1 and 65535, so it fits the length field of a frame; one write grows by at most a
  mebibyte; and the authentication record made with the scheme is read back exactly.
\<close>

theorem anytls_padding_bounds:
  assumes "draws_ok rnd" "padding_new md5 raw = Inr pf" "length hash = 32"
  shows "list_all (\<lambda>z. z = check_mark \<or> 1 \<le> z \<and> z < 65536) (fst (generate_record_payload_sizes rnd pf pkt k)) \<and>
    length (concat (pad_loop (fst (generate_record_payload_sizes rnd pf pkt k)) buffer)) \<le> length buffer + 1024 * 1024 \<and>
    authenticate_client hash (auth_record rnd pf k hash @ rest) = Inr rest"
proof -
  let ?zs = "fst (generate_record_payload_sizes rnd pf pkt k)"
  note g = generate_ok [OF assms(1) padding_new_ok [OF assms(2)]]
  obtain ns where ns: "concat (pad_loop ?zs buffer) = buffer @ concat (map (\<lambda>n. enc_frame (waste n)) ns)"
      "sum_list (map (\<lambda>n. n + header_overhead_size) ns) \<le> sum_list (map size_cost ?zs)"
    using pad_loop_bytes [of ?zs buffer] g by blast
  have "length (concat (map (\<lambda>n. enc_frame (waste n)) ns)) = sum_list (map (\<lambda>n. n + header_overhead_size) ns)"
    by (induction ns) (simp_all add: length_enc_frame waste_def)
  then have "length (concat (pad_loop ?zs buffer)) \<le> length buffer + 1024 * 1024"
    using ns g [of pkt k] by (simp add: max_packet_padding_def)
  moreover have "authenticate_client hash (auth_record rnd pf k hash @ rest) = Inr rest"
  proof -
    obtain n where n: "auth_record rnd pf k hash = hash @ be_bytes 2 n @ replicate n 0" "n < 65536"
      by (rule auth_record_shape)
    then show ?thesis using assms(3) be_val_bytes [of 2 n] by (simp add: authenticate_client_def Let_def)
  qed
  ultimately show ?thesis using g by blast
qed

theorem anytls_padding_bounds_witness:
  "\<exists>pf. padding_new (\<lambda>_. []) sample_scheme = Inr pf \<and>
     authenticate_client (replicate 32 7) (auth_record (\<lambda>_ lo _. lo) pf 0 (replicate 32 7) @ [1, 2]) = Inr [1, 2]"
proof -
  obtain pf where pf: "padding_new (\<lambda>_. []) sample_scheme = Inr pf" using sample_accepted by blast
  have "length (replicate 32 (7 :: byte)) = 32" by simp
  from anytls_padding_bounds [OF draws_low pf this] pf show ?thesis by blast
qed

end
