(* ===== verification/Spec2Isabelle.thy ===== *)
theory Spec2Isabelle
  imports RuleConfig GeositeDat FakeIpStores Sniffers AnyTls
begin

text \<open>
  A verification library for meow-rs, a rule-based network proxy in Rust (the crates under
  \<open>src/crates\<close>; file names below are relative to it).

  \<^bold>\<open>The program.\<close> A connection reaches a listener and is described by its metadata: addresses, ports, the
  host if it is known, the process and the inbound. If the host is not known it may be read off the
  first bytes of the connection (sniffing), or recovered from a fake address that the DNS part handed
  out for it. The configuration is a list of rule lines, with named blocks of sub-rules and rule providers;
  the lines refer to databases of countries, of AS numbers and of site categories. The rules are parsed,
  compiled into slots and scanned; the first rule that matches names the outbound adapter that
  relays the connection. AnyTLS is one of the adapters' protocols.

  \<^bold>\<open>Theories and sources.\<close>
    \<^item> \<open>Prelude\<close>: what the sources use of Rust's strings, slices, numbers and maps; shared lemmas.
    \<^item> \<open>Trie\<close>: \<open>meow-trie/src/trie.rs\<close>. Nodes before and after \<open>seal\<close>, \<open>insert\<close>, the searches for the
      most specific pattern and for the smallest value. Locales \<open>tree_sim\<close> and \<open>tree_min_sim\<close> (one
      simulation for every search), \<open>least_index\<close> (what the rule engine uses).
    \<^item> \<open>Metadata\<close>: \<open>meow-common/src\<close>, \<open>metadata.rs\<close>, \<open>rule.rs\<close> and the enumerations. \<open>External\<close>: the third-party
      crates of the rule engine as the record \<open>ext\<close> with the laws \<open>ext_laws\<close>. \<open>Reference\<close>: an executable
      \<open>ref_ext\<close> that satisfies them.
    \<^item> \<open>Geosite\<close>, \<open>Rules\<close>: the rules of \<open>meow-rules/src\<close>, one constructor per struct, with \<open>new\<close>, \<open>match_metadata\<close>
      and the demands (host, address, process), and the geosite lookup of \<open>geosite.rs\<close>.
    \<^item> \<open>MatchEngine\<close>: \<open>meow-tunnel/src/match_engine.rs\<close>, the scan with the domain index, and \<open>naive_match\<close>, the
      specification: the first rule, in order, that matches.
    \<^item> \<open>Matchers\<close>, \<open>RuleOps\<close>, \<open>RuleIr\<close>, \<open>RuleIrSound\<close>, \<open>RuleIrPasses\<close>, \<open>RuleIrBuild\<close>, \<open>RuleIrCorrect\<close>:
      \<open>meow-tunnel/src/rule_ir.rs\<close>. Compiled matchers, opcodes and folding, \<open>build\<close> with its passes, \<open>match_rules\<close>
      and \<open>match_rules_lazy\<close>. Locale \<open>prune_pass\<close>: the contract of a pass that drops rules, interpreted for each.
    \<^item> \<open>RuleParser\<close>: \<open>meow-rules/src/parser.rs\<close>. \<open>GeoIndex\<close>: \<open>country_index.rs\<close> and \<open>asn_index.rs\<close>.
    \<^item> \<open>RuleConfig\<close>: \<open>meow-config/src/rule_parser.rs\<close> and \<open>sub_rules_parser.rs\<close>, the lines and blocks of the
      configuration, their reference graph and its topological order.
    \<^item> \<open>Bytes\<close>: bytes, readers and the locale \<open>codec\<close> (a reader undoes its writer). \<open>MrsParser\<close>, \<open>MrsRanges\<close>,
      \<open>MrsDomainSet\<close>: \<open>meow-rules/src/mrs_parser.rs\<close>, the project's own format, and the address ranges and
      domain sets of the upstream format. \<open>RuleSets\<close>: \<open>rule_set.rs\<close>. \<open>GeositeDat\<close>: \<open>geosite_dat.rs\<close> and the
      loader of \<open>geosite.rs\<close>.
    \<^item> \<open>FakeIpPool\<close>, \<open>FakeIpStores\<close>: \<open>meow-dns/src/fakeip.rs\<close>. Locales \<open>store_contract\<close> and \<open>exact_store\<close>: what
      the pool relies on of a store.
    \<^item> \<open>Sniffers\<close>: \<open>meow-common/src/sniffer\<close>, \<open>tls.rs\<close> and \<open>http.rs\<close>.
    \<^item> \<open>AnyTls\<close>: \<open>meow-anytls/src\<close>, the frame codec, padding schemes, settings, the authentication record, and
      the decoding loop and padded writes of \<open>session/session.rs\<close>.

  \<^bold>\<open>How the code is modelled.\<close> Structs are records or constructors with the fields in order, enumerations
  are datatypes, fallible functions return a sum with the error on the left, panics are results of their
  own where the code can reach them. Ports, addresses, lengths and integers read from files have
  their width as words where they can wrap. Hash maps are association lists, whose order stands for any
  iteration order. An \<open>Arc\<close> is an address with its contents, since the compiler compares pointers.

  \<^bold>\<open>What is shown.\<close> Matching compiled rules, matching through the domain index and matching on demand give the
  first matching rule, from the lines of the configuration on (C1 to C3, C7, C8), resting on the trie
  (C4 to C6) and on well-formed parsing with a round trip for nested rules and the error cases (C9 to
  C12, C27, C28). The indexes and rule sets hold what their databases, entries and files hold (C13 to
  C21, C29 to C31). A fake address belongs to one host, whatever was done before (C22 to C24, C35, C36).
  AnyTLS padding does not change what the peer reads (C25, C33), and the server name of a TLS greeting
  is found (C26). The other properties describe inputs on which the code goes wrong: C32 (unbounded
  recursion), C34 (a panic), C37 to C40 (rules or files lost).

  \<^bold>\<open>Hypotheses.\<close> \<open>ext_laws\<close> states of \<open>ipnet\<close>, \<open>iprange\<close> and \<open>regex\<close> what their documentation says; \<open>undoes\<close> that
  decompression undoes compression; \<open>lru_laws\<close> the order of the LRU cache; \<open>net_bounds\<close> that network and
  broadcast are the ends of a prefix; \<open>draws_ok\<close> that a random size lies in the range asked for. The engine
  theorems speak of lower-case ASCII hosts without outer dots (\<open>host_ok\<close>; C38 shows what a trailing dot does), of
  logic rules that folding leaves a logic rule (\<open>uncollapsed\<close>; C37 shows what happens otherwise) and of wildcard
  rules with a pattern (\<open>no_empty_wildcard\<close>).

  \<^bold>\<open>Bounds and fuel.\<close> The traversal of an upstream domain set has a fuel argument, since the code recurses
  without a bound; twice the number of bits plus two is enough for a bitmap with no more labels than zero
  bits (C30), and none is enough for the bitmap of C32. The search of the sub-rule graph gets one more
  than the number of blocks and never runs out (C27). All other functions are total: \<open>parse_rule\<close> because a
  group has fewer opening parentheses than its line, the readers because every round takes bytes,
  the splitting of ranges because the length falls.

  \<^bold>\<open>Not modelled.\<close>
    \<^item> The DNS client, server and resolver, the relaying of connections, outbound adapters, proxy groups,
      multiplexing, transports and listeners: asynchronous code on sockets, timers and third-party
      protocol and cryptography crates, whose behaviour is that of the runtime and the network.
    \<^item> Of AnyTLS the clients, servers and streams, and what a session does with the frames it receives, for
      the same reason.
    \<^item> YAML decoding (serde), the REST interface (a web framework), start-up and services.
    \<^item> Reading and writing files, among them the snapshot of the fake addresses and when it is written;
      log lines with the counters that only feed them; Debug output and serde attributes.
    \<^item> Unicode case folding and white space: \<open>to_lowercase\<close>, \<open>to_uppercase\<close> and \<open>trim\<close> act on ASCII, and the theorems that
      depend on it say so.
\<close>

section \<open>From the configuration to the match\<close>



end
